(* ===== verification/BC_Prelude.thy ===== *)
theory BC_Prelude
  imports Main "HOL-Library.Word"
begin

unbundle bit_operations_syntax

text \<open>
  Prelude of the bc-allocators development: the machine types of the C code (LP64: \<open>size_t\<close>,
  pointers and \<open>uint64_t\<close> are 64-bit words, \<open>uint8_t\<close> is an 8-bit word, \<open>NULL\<close> is the word 0),
  the bridge between words and natural numbers that every component proof uses, rounding up to a
  multiple of an alignment, and half-open address intervals.

  Arithmetic in the model is word arithmetic, so it wraps exactly where the C code wraps. Proofs
  leave words through \<^const>\<open>unat\<close> once an addition or product is known not to overflow; the
  collection \<open>no_wrap\<close> holds the rewrite rules for that.
\<close>

named_theorems no_wrap "unat of a word operation that is known not to wrap"
named_theorems frame_simps "loads and block attributes that an update does not touch"

section \<open>Machine types\<close>

type_synonym u8 = "8 word"
type_synonym u64 = "64 word"

abbreviation NULL :: u64 where
  "NULL \<equiv> 0"

section \<open>Words that do not wrap\<close>

lemma u64_max [simp]: "unat (x :: u64) < 18446744073709551616"
  using unsigned_less [of x] by simp

lemma unat_add_no_wrap [no_wrap]:
  "unat (a :: u64) + unat b < 18446744073709551616 \<Longrightarrow> unat (a + b) = unat a + unat b"
  by (simp add: unat_word_ariths)

lemma unat_mult_no_wrap [no_wrap]:
  "unat (a :: u64) * unat b < 18446744073709551616 \<Longrightarrow> unat (a * b) = unat a * unat b"
  by (simp add: unat_word_ariths)

lemma unat_sub_no_wrap [no_wrap]:
  "unat (b :: u64) \<le> unat a \<Longrightarrow> unat (a - b) = unat a - unat b"
  by (simp add: unat_sub word_le_nat_alt)

lemma unat_of_nat_no_wrap [no_wrap]:
  "n < 18446744073709551616 \<Longrightarrow> unat (of_nat n :: u64) = n"
  by (simp add: unat_of_nat)

lemma u64_eq_iff: "(a :: u64) = b \<longleftrightarrow> unat a = unat b"
  by (simp add: word_unat_eq_iff)

lemma unat_drop_bit_u64: "unat (drop_bit n (x :: u64)) = unat x div 2 ^ n"
  by (subst unat_drop_bit_eq) (rule drop_bit_eq_div)

section \<open>Powers of two and rounding up\<close>

definition pow2 :: "u64 \<Rightarrow> bool" where
  "pow2 a \<longleftrightarrow> (\<exists>k. unat a = 2 ^ k)"

definition round_up :: "nat \<Rightarrow> nat \<Rightarrow> nat" where
  "round_up v a = (v + a - 1) div a * a"

lemma pow2_pos: "pow2 a \<Longrightarrow> 0 < unat a"
  by (auto simp: pow2_def)

lemma round_up_ge: assumes "0 < a" shows "v \<le> round_up v a"
proof -
  have "v + a - 1 = (v + a - 1) div a * a + (v + a - 1) mod a" by simp
  moreover have "(v + a - 1) mod a \<le> a - 1" using assms mod_less_divisor [of a "v + a - 1"] by linarith
  ultimately show ?thesis using assms unfolding round_up_def by linarith
qed

lemma round_up_less: assumes "0 < a" shows "round_up v a < v + a"
proof -
  have "(v + a - 1) div a * a \<le> v + a - 1" by simp
  then show ?thesis using assms unfolding round_up_def by linarith
qed

lemma round_up_dvd [simp]: "a dvd round_up v a"
  by (simp add: round_up_def)

lemma round_up_least:
  assumes "0 < a" "a dvd w" "v \<le> w"
  shows "round_up v a \<le> w"
proof -
  obtain q where q: "w = a * q" using assms(2) by blast
  show ?thesis
  proof (rule ccontr)
    assume "\<not> round_up v a \<le> w"
    moreover obtain r where r: "round_up v a = a * r" using round_up_dvd by blast
    ultimately have "a * Suc q \<le> a * r" using q assms(1) by (intro mult_le_mono2) auto
    with r have "a * Suc q \<le> round_up v a" by simp
    then show False using round_up_less [OF assms(1), of v] assms(3) q by simp
  qed
qed

lemma round_up_id [simp]: "0 < a \<Longrightarrow> a dvd v \<Longrightarrow> round_up v a = v"
  by (simp add: le_antisym round_up_ge round_up_least)

lemma round_up_pos: "0 < a \<Longrightarrow> 0 < v \<Longrightarrow> 0 < round_up v a"
  using round_up_ge [of a v] by linarith

lemma div_less_div_dvd: "(p :: nat) dvd n \<Longrightarrow> x < n \<Longrightarrow> x div p < n div p"
  by (metis dvd_div_mult_self less_mult_imp_div_less)

lemma min_power2_dvd: "min ((2::nat) ^ a) (2 ^ b) dvd 2 ^ a" "min ((2::nat) ^ a) (2 ^ b) dvd 2 ^ b"
  by (auto simp: min_def intro: le_imp_power_dvd)

text \<open>The test \<^verbatim>\<open>(a & (a - 1)) == 0\<close> recognises the powers of two.\<close>

lemma and_pred_nat:
  fixes n :: nat
  shows "0 < n \<Longrightarrow> n AND (n - 1) = 0 \<longleftrightarrow> (\<exists>k. n = 2 ^ k)"
proof (induction n rule: less_induct)
  case (less n)
  show ?case
  proof (cases "odd n")
    case True
    then obtain q where q: "n = 2 * q + 1" by (elim oddE)
    then have "n AND (n - 1) = 2 * q" by (subst and_rec) simp
    moreover have "(\<exists>k. n = 2 ^ k) \<longleftrightarrow> q = 0"
    proof
      assume "\<exists>k. n = 2 ^ k"
      then obtain k where k: "n = 2 ^ k" by blast
      with True have "k = 0" by (cases k) auto
      then show "q = 0" using k q by simp
    next
      assume "q = 0"
      then show "\<exists>k. n = 2 ^ k" using q by (intro exI [of _ 0]) simp
    qed
    ultimately show ?thesis by simp
  next
    case False
    then have "even n" by simp
    then obtain q where q: "n = 2 * q" by (elim evenE)
    have q0: "0 < q" "q < n" using q less.prems by auto
    have "n - 1 = 2 * (q - 1) + 1" using q q0 by simp
    then have "n AND (n - 1) = 2 * (q AND (q - 1))" using q by (subst and_rec) simp
    moreover have "(\<exists>k. n = 2 ^ k) \<longleftrightarrow> (\<exists>k. q = 2 ^ k)"
    proof
      assume "\<exists>k. n = 2 ^ k"
      then obtain k where k: "n = 2 ^ k" by blast
      then have "k \<noteq> 0" using q by (cases k) auto
      then obtain j where "k = Suc j" by (cases k) auto
      then show "\<exists>k. q = 2 ^ k" using k q by auto
    next
      assume "\<exists>k. q = 2 ^ k"
      then obtain k where "q = 2 ^ k" by blast
      then show "\<exists>k. n = 2 ^ k" using q by (intro exI [of _ "Suc k"]) simp
    qed
    ultimately show ?thesis using less.IH [OF q0(2,1)] by simp
  qed
qed

lemma pow2_test:
  assumes "a \<noteq> 0"
  shows "a AND (a - 1) = 0 \<longleftrightarrow> pow2 a"
proof -
  have pos: "0 < unat a" using assms by (simp add: unat_gt_0)
  have "a AND (a - 1) = 0 \<longleftrightarrow> unat (a AND (a - 1)) = 0" by (simp add: unat_eq_zero)
  also have "\<dots> \<longleftrightarrow> unat a AND (unat a - 1) = 0"
    using pos by (simp add: unsigned_and_eq unat_sub_no_wrap)
  also have "\<dots> \<longleftrightarrow> pow2 a" using and_pred_nat [OF pos] by (simp add: pow2_def)
  finally show ?thesis .
qed

section \<open>Address intervals\<close>

text \<open>
  \<open>area p n\<close> is the set of the \<open>n\<close> byte addresses from \<open>p\<close>; every interval the code computes is
  shown not to wrap past the end of the address space, so a plain half-open interval is enough.
\<close>

definition area :: "u64 \<Rightarrow> nat \<Rightarrow> u64 set" where
  "area p n = {a. unat p \<le> unat a \<and> unat a < unat p + n}"

definition apart :: "u64 \<Rightarrow> nat \<Rightarrow> u64 \<Rightarrow> nat \<Rightarrow> bool" where
  "apart p n q k \<longleftrightarrow> unat p + n \<le> unat q \<or> unat q + k \<le> unat p"

lemma in_area [simp]: "a \<in> area p n \<longleftrightarrow> unat p \<le> unat a \<and> unat a < unat p + n"
  by (simp add: area_def)

lemma apart_sym: "apart p n q k \<longleftrightarrow> apart q k p n"
  by (auto simp: apart_def)

lemma apart_disjoint: "apart p n q k \<Longrightarrow> area p n \<inter> area q k = {}"
  by (auto simp: apart_def)

lemma disjoint_apart:
  assumes "area p n \<inter> area s k = {}" "0 < n" "0 < k"
    "unat p + n \<le> 18446744073709551616" "unat s + k \<le> 18446744073709551616"
  shows "apart p n s k"
proof (rule ccontr)
  assume c: "\<not> apart p n s k"
  have "p \<in> area p n \<and> s \<in> area s k" using assms(2,3) by simp
  moreover from c have "p \<in> area s k \<or> s \<in> area p n" by (auto simp: apart_def)
  ultimately show False using assms(1) by blast
qed

lemma apart_mono: "apart p n q k \<Longrightarrow> n' \<le> n \<Longrightarrow> k' \<le> k \<Longrightarrow> apart p n' q k'"
  by (auto simp: apart_def)

lemma area_mono: "n \<le> n' \<Longrightarrow> area p n \<subseteq> area p n'"
  by auto

text \<open>The offset test that word-level code uses agrees with membership in the interval.\<close>

lemma in_area_offset:
  assumes "unat p + n \<le> 18446744073709551616"
  shows "unat (a - p) < n \<longleftrightarrow> a \<in> area p n"
proof (cases "unat p \<le> unat a")
  case True
  then show ?thesis by (auto simp: no_wrap)
next
  case False
  then have "unat (a - p) = 18446744073709551616 + unat a - unat p"
    by (simp add: unat_sub_if_size word_le_nat_alt word_size)
  then show ?thesis using False assms by auto
qed

end
