(* ===== verification/BC_Memory.thy ===== *)
theory BC_Memory
  imports BC_Prelude
begin

unbundle bit_operations_syntax

text \<open>
  Byte-addressed memory. The C code stores pointers and sizes inside the blocks it manages (the
  next pointer of a free block, the header of a large block, arena, chunk, slab and page headers),
  and a client may write any byte of a block it holds, so memory is a map from addresses to bytes
  and an 8-byte field is read and written little-endian, as on the Linux targets of the library.
  \<open>chain\<close> is the singly linked list reachable from a pointer, with the next pointer at a fixed
  offset of each node.
\<close>

type_synonym mem = "u64 \<Rightarrow> u8"

section \<open>Eight-byte fields\<close>

definition load64 :: "mem \<Rightarrow> u64 \<Rightarrow> u64" where
  "load64 m p =
     ucast (m p) OR push_bit 8 (ucast (m (p + 1))) OR push_bit 16 (ucast (m (p + 2)))
     OR push_bit 24 (ucast (m (p + 3))) OR push_bit 32 (ucast (m (p + 4)))
     OR push_bit 40 (ucast (m (p + 5))) OR push_bit 48 (ucast (m (p + 6)))
     OR push_bit 56 (ucast (m (p + 7)))"

definition store64 :: "mem \<Rightarrow> u64 \<Rightarrow> u64 \<Rightarrow> mem" where
  "store64 m p v =
     (\<lambda>a. let i = unat (a - p) in if i < 8 then ucast (drop_bit (8 * i) v) else m a)"

lemma load_store_same [simp]: "load64 (store64 m p v) p = v"
proof (rule bit_word_eqI)
  fix n assume "n < LENGTH(64)"
  then have j: "n div 8 < 8" by simp
  obtain i where i: "i < 8" "n = 8 * (n div 8) + i"
    by (metis mod_less_divisor mult_div_mod_eq zero_less_numeral)
  from j consider "n div 8 = 0" | "n div 8 = 1" | "n div 8 = 2" | "n div 8 = 3"
    | "n div 8 = 4" | "n div 8 = 5" | "n div 8 = 6" | "n div 8 = 7"
    by linarith
  then have "n \<in> {i, 8 + i, 16 + i, 24 + i, 32 + i, 40 + i, 48 + i, 56 + i}"
    by cases (use i(2) in simp_all)
  then show "bit (load64 (store64 m p v) p) n \<longleftrightarrow> bit v n"
    using i(1) by (elim insertE emptyE) (simp_all add: load64_def store64_def bit_simps)
qed

definition agree :: "mem \<Rightarrow> mem \<Rightarrow> u64 set \<Rightarrow> bool" where
  "agree m m' A \<longleftrightarrow> (\<forall>a \<in> A. m' a = m a)"

lemma agree_refl [simp]: "agree m m A"
  by (simp add: agree_def)

lemma agree_trans: "agree m m' A \<Longrightarrow> agree m' m'' A \<Longrightarrow> agree m m'' A"
  by (simp add: agree_def)

lemma agree_sym: "agree m m' A \<Longrightarrow> agree m' m A"
  by (simp add: agree_def)

lemma agree_subset: "agree m m' A \<Longrightarrow> B \<subseteq> A \<Longrightarrow> agree m m' B"
  by (auto simp: agree_def)

lemma agreeD: "agree m m' A \<Longrightarrow> a \<in> A \<Longrightarrow> m' a = m a"
  by (simp add: agree_def)

lemma agree_Un [simp]: "agree m m' (A \<union> B) \<longleftrightarrow> agree m m' A \<and> agree m m' B"
  by (auto simp: agree_def)

lemma agree_step: "agree m m1 A \<Longrightarrow> agree m1 m2 (- B) \<Longrightarrow> B \<inter> A = {} \<Longrightarrow> agree m m2 A"
  unfolding agree_def by (metis ComplI disjoint_iff)

lemma agree_off: "agree m m' (- A) \<Longrightarrow> A \<inter> B = {} \<Longrightarrow> agree m m' B"
  unfolding agree_def by blast

lemma in_area_nth:
  assumes "i < n" "unat (p :: u64) + n \<le> 18446744073709551616"
  shows "p + of_nat i \<in> area p n"
proof -
  have "unat (of_nat i :: u64) = i" using assms by (intro unat_of_nat_no_wrap) simp
  then have "unat (p + of_nat i) = unat p + i" using assms by (simp add: no_wrap)
  then show ?thesis using assms(1) by simp
qed

lemma load64_cong:
  assumes "agree m m' (area p 8)" "unat p + 8 \<le> 18446744073709551616"
  shows "load64 m' p = load64 m p"
proof -
  have "m' (p + of_nat i) = m (p + of_nat i)" if "i < 8" for i
    using assms that by (intro agreeD [OF assms(1)]) (simp add: no_wrap)
  from this [of 0] this [of 1] this [of 2] this [of 3] this [of 4] this [of 5] this [of 6]
    this [of 7] show ?thesis
    by (simp add: load64_def)
qed

lemma store64_other:
  "a \<notin> area p 8 \<Longrightarrow> unat p + 8 \<le> 18446744073709551616 \<Longrightarrow> store64 m p v a = m a"
  using in_area_offset [of p 8 a] by (auto simp: store64_def Let_def)

lemma agree_store64:
  "area p 8 \<inter> A = {} \<Longrightarrow> unat p + 8 \<le> 18446744073709551616 \<Longrightarrow> agree m (store64 m p v) A"
  by (auto simp: agree_def intro!: store64_other)

lemma load_store_apart [frame_simps]:
  assumes "apart p 8 q 8" "unat p + 8 \<le> 18446744073709551616" "unat q + 8 \<le> 18446744073709551616"
  shows "load64 (store64 m p v) q = load64 m q"
  using assms by (intro load64_cong agree_store64 apart_disjoint)

section \<open>Fields of a struct in memory\<close>

lemma field_other:
  fixes x i j :: u64
  assumes "unat x + unat i + 8 \<le> 18446744073709551616" "unat x + unat j + 8 \<le> 18446744073709551616"
    and "unat i + 8 \<le> unat j \<or> unat j + 8 \<le> unat i"
  shows "load64 (store64 m (x + i) v) (x + j) = load64 m (x + j)"
  using assms by (intro load_store_apart) (auto simp: apart_def no_wrap)

lemmas field_other0 = field_other [where i = 0, simplified] field_other [where j = 0, simplified]

lemma agree_field:
  fixes x i :: u64
  assumes "unat x + n \<le> 18446744073709551616" "unat i + 8 \<le> n"
  shows "agree m (store64 m (x + i) v) (- area x n)"
proof (rule agree_store64)
  have "unat (x + i) = unat x + unat i" using assms by (simp add: no_wrap)
  then show "area (x + i) 8 \<inter> - area x n = {}" "unat (x + i) + 8 \<le> 18446744073709551616"
    using assms by auto
qed

section \<open>Linked lists in memory\<close>

text \<open>
  \<open>chain m off h xs\<close>: following the pointer at offset \<open>off\<close> from \<open>h\<close> visits exactly the nodes
  \<open>xs\<close> and ends in \<open>NULL\<close>. \<open>seg m off h xs t\<close> is the same with last pointer \<open>t\<close>.
\<close>

primrec seg :: "mem \<Rightarrow> u64 \<Rightarrow> u64 \<Rightarrow> u64 list \<Rightarrow> u64 \<Rightarrow> bool" where
  "seg m off h [] t \<longleftrightarrow> h = t"
| "seg m off h (x # xs) t \<longleftrightarrow> h = x \<and> x \<noteq> NULL \<and> seg m off (load64 m (x + off)) xs t"

abbreviation chain :: "mem \<Rightarrow> u64 \<Rightarrow> u64 \<Rightarrow> u64 list \<Rightarrow> bool" where
  "chain m off h xs \<equiv> seg m off h xs NULL"

lemma seg_append [simp]:
  "seg m off h (xs @ ys) t \<longleftrightarrow> (\<exists>p. seg m off h xs p \<and> seg m off p ys t)"
  by (induction xs arbitrary: h) auto

lemma seg_cong:
  "(\<And>x. x \<in> set xs \<Longrightarrow> load64 m' (x + off) = load64 m (x + off)) \<Longrightarrow>
   seg m' off h xs t \<longleftrightarrow> seg m off h xs t"
  by (induction xs arbitrary: h) auto

lemma chain_NULL [simp]: "chain m off NULL xs \<longleftrightarrow> xs = []"
  by (cases xs) auto

lemma chain_nonnull:
  "h \<noteq> NULL \<Longrightarrow> chain m off h xs \<longleftrightarrow> (\<exists>ys. xs = h # ys \<and> chain m off (load64 m (h + off)) ys)"
  by (cases xs) auto

lemma chain_unique: "chain m off h xs \<Longrightarrow> chain m off h ys \<Longrightarrow> xs = ys"
  by (induction xs arbitrary: h ys) (auto, metis chain_nonnull)

lemma NULL_notin_seg: "seg m off h xs t \<Longrightarrow> NULL \<notin> set xs"
  by (induction xs arbitrary: h) auto

end
