(* ===== verification/BC_Env.thy ===== *)
theory BC_Env
  imports BC_Memory "HOL-Library.Log_Nat"
begin

text \<open>
  What the library calls but does not implement: the bc-core package (\<open>bc_core.h\<close>: checked
  arithmetic, bit counts, block copies), the operating system (\<open>mmap\<close>, \<open>munmap\<close>, \<open>madvise\<close>,
  \<open>sysconf\<close>) and the aligned allocator of the C library (\<open>posix_memalign\<close>). None of that code is in the repository, so it is a parameter: the record \<open>env\<close> holds
  one function per external routine and every definition that uses one takes the record.
  The locales state the documented behaviour as named laws; \<open>bc_core\<close> for bc-core and, extending it,
  \<open>bc_os\<close> for the system calls. System calls may succeed or fail freely: they receive the number of
  calls made so far, so one environment covers every pattern of failures.

  \<open>std_env\<close> is a concrete environment (a bump allocator for \<open>mmap\<close>) on which both locales are
  interpreted, so the laws are consistent and every witness can be evaluated.
\<close>

type_synonym maps = "(u64 \<times> u64) list"

datatype advice = MADV_HUGEPAGE | MADV_DONTNEED

record env =
  core_safe_add :: "u64 \<Rightarrow> u64 \<Rightarrow> u64 option"
  core_safe_multiply :: "u64 \<Rightarrow> u64 \<Rightarrow> u64 option"
  core_align_up :: "u64 \<Rightarrow> u64 \<Rightarrow> u64 option"
  core_clz_u64 :: "u64 \<Rightarrow> nat"
  core_ctz_u64 :: "u64 \<Rightarrow> nat"
  core_copy :: "mem \<Rightarrow> u64 \<Rightarrow> u64 \<Rightarrow> u64 \<Rightarrow> mem"
  core_memcpy :: "mem \<Rightarrow> u64 \<Rightarrow> u64 \<Rightarrow> u64 \<Rightarrow> mem"
  core_fill :: "mem \<Rightarrow> u64 \<Rightarrow> u64 \<Rightarrow> u8 \<Rightarrow> mem"
  core_zero_secure :: "mem \<Rightarrow> u64 \<Rightarrow> u64 \<Rightarrow> mem"
  core_length :: "mem \<Rightarrow> u64 \<Rightarrow> u8 \<Rightarrow> u64"
  core_cache_line_size :: "u64 option"
  os_sysconf_pagesize :: int
  os_mmap :: "nat \<Rightarrow> maps \<Rightarrow> mem \<Rightarrow> u64 \<Rightarrow> (u64 \<times> mem) option"
  os_mmap_hugetlb :: "nat \<Rightarrow> maps \<Rightarrow> mem \<Rightarrow> u64 \<Rightarrow> (u64 \<times> mem) option"
  os_munmap :: "nat \<Rightarrow> maps \<Rightarrow> u64 \<Rightarrow> u64 \<Rightarrow> maps option"
  os_madvise :: "nat \<Rightarrow> maps \<Rightarrow> mem \<Rightarrow> u64 \<Rightarrow> u64 \<Rightarrow> advice \<Rightarrow> int \<times> mem"
  libc_posix_memalign :: "nat \<Rightarrow> maps \<Rightarrow> maps \<Rightarrow> u64 \<Rightarrow> u64 \<Rightarrow> u64 option"
  libc_free :: "maps \<Rightarrow> u64 \<Rightarrow> maps"

text \<open>The effect of writing the same byte, or the bytes of another interval, into an interval.\<close>

definition fill_bytes :: "mem \<Rightarrow> u64 \<Rightarrow> u64 \<Rightarrow> u8 \<Rightarrow> mem" where
  "fill_bytes m p n v = (\<lambda>a. if a - p < n then v else m a)"

definition copy_bytes :: "mem \<Rightarrow> u64 \<Rightarrow> u64 \<Rightarrow> u64 \<Rightarrow> mem" where
  "copy_bytes m d s n = (\<lambda>a. if a - d < n then m (s + (a - d)) else m a)"

section \<open>The bc-core contract\<close>

locale bc_core =
  fixes E :: env
  assumes safe_add: "core_safe_add E a b =
      (if unat a + unat b < 18446744073709551616 then Some (a + b) else None)"
    and safe_multiply: "core_safe_multiply E a b =
      (if unat a * unat b < 18446744073709551616 then Some (a * b) else None)"
    and align_up: "pow2 a \<Longrightarrow> core_align_up E v a =
      (if round_up (unat v) (unat a) < 18446744073709551616
       then Some (of_nat (round_up (unat v) (unat a))) else None)"
    and clz: "v \<noteq> 0 \<Longrightarrow> core_clz_u64 E v < 64 \<and> 2 ^ (63 - core_clz_u64 E v) \<le> unat v
      \<and> unat v < 2 ^ (64 - core_clz_u64 E v)"
    and ctz: "unat v = 2 ^ k \<Longrightarrow> core_ctz_u64 E v = k"
    and copy: "unat d + unat n \<le> 18446744073709551616 \<Longrightarrow> unat s + unat n \<le> 18446744073709551616
      \<Longrightarrow> apart d (unat n) s (unat n) \<Longrightarrow> core_copy E m d s n = copy_bytes m d s n"
    and memcpy: "unat d + unat n \<le> 18446744073709551616 \<Longrightarrow> unat s + unat n \<le> 18446744073709551616
      \<Longrightarrow> apart d (unat n) s (unat n) \<Longrightarrow> core_memcpy E m d s n = copy_bytes m d s n"
    and fill: "core_fill E m d n x = fill_bytes m d n x"
    and zero_secure: "core_zero_secure E m d n = fill_bytes m d n 0"
    and length_char: "m (s + of_nat k) = x \<Longrightarrow> (\<forall>i < k. m (s + of_nat i) \<noteq> x)
      \<Longrightarrow> unat s + k < 18446744073709551616 \<Longrightarrow> core_length E m s x = of_nat k"

section \<open>The operating-system contract\<close>

text \<open>
  A user mapping lies below \<open>2 ^ 47\<close> (the Linux user address space of 64-bit targets) and above the
  first 4096 bytes, starts on a page boundary, overlaps no other mapping and reads as zero.
  \<open>munmap\<close> of exactly one mapping succeeds. \<open>madvise\<close> fails with \<open>EINVAL\<close> and does nothing when the
  address is not page-aligned; \<open>MADV_HUGEPAGE\<close> never changes contents. \<open>mmap\<close> with \<open>MAP_HUGETLB\<close> is
  a separate routine with the same contract; \<open>posix_memalign\<close> returns an aligned block of the C heap
  apart from every mapping and every other heap block (it gets both lists); \<open>free\<close> of the pointer of one heap block takes
  that block away, and of \<open>NULL\<close> does nothing.
\<close>

locale bc_os = bc_core +
  assumes page_size: "0 < os_sysconf_pagesize E \<Longrightarrow>
      \<exists>k. 12 \<le> k \<and> k \<le> 20 \<and> os_sysconf_pagesize E = 2 ^ k"
    and mmap: "os_mmap E t ms m n = Some (p, m') \<Longrightarrow>
      4096 \<le> unat p \<and> unat p + unat n \<le> 2 ^ 47
      \<and> nat (os_sysconf_pagesize E) dvd unat p
      \<and> (\<forall>(q, k) \<in> set ms. apart p (unat n) q (unat k)) \<and> m' = fill_bytes m p n 0"
    and mmap_hugetlb: "os_mmap_hugetlb E t ms m n = Some (p, m') \<Longrightarrow>
      4096 \<le> unat p \<and> unat p + unat n \<le> 2 ^ 47
      \<and> nat (os_sysconf_pagesize E) dvd unat p
      \<and> (\<forall>(q, k) \<in> set ms. apart p (unat n) q (unat k)) \<and> m' = fill_bytes m p n 0"
    and munmap: "(p, n) \<in> set ms \<Longrightarrow> os_munmap E t ms p n = Some (remove1 (p, n) ms)"
    and madvise_unaligned: "\<not> nat (os_sysconf_pagesize E) dvd unat p \<Longrightarrow>
      os_madvise E t ms m p n adv = (-1, m)"
    and madvise_hugepage: "snd (os_madvise E t ms m p n MADV_HUGEPAGE) = m"
    and madvise_dontneed: "a \<notin> area p (round_up (unat n) (nat (os_sysconf_pagesize E))) \<Longrightarrow>
      snd (os_madvise E t ms m p n MADV_DONTNEED) a = m a"
    and posix_memalign: "libc_posix_memalign E t ms hs al n = Some p \<Longrightarrow>
      4096 \<le> unat p \<and> unat p + unat n \<le> 2 ^ 47 \<and> unat al dvd unat p
      \<and> (\<forall>(q, k) \<in> set ms \<union> set hs. apart p (unat n) q (unat k))"
    and free: "p \<noteq> NULL \<Longrightarrow> p \<notin> fst ` set (xs @ ys) \<Longrightarrow> libc_free E (xs @ (p, n) # ys) p = xs @ ys"
    and free_NULL: "libc_free E hs NULL = hs"

section \<open>A concrete environment\<close>

definition std_posix_memalign :: "nat \<Rightarrow> maps \<Rightarrow> maps \<Rightarrow> u64 \<Rightarrow> u64 \<Rightarrow> u64 option" where
  "std_posix_memalign t ms hs al n =
     (let top = round_up (fold max (map (\<lambda>(q, k). unat q + unat k) (ms @ hs)) 65536) (unat al)
      in if top + unat n \<le> 2 ^ 47 \<and> al \<noteq> 0 then Some (of_nat top) else None)"

fun ctz_nat :: "nat \<Rightarrow> nat" where
  "ctz_nat n = (if n = 0 \<or> odd n then 0 else Suc (ctz_nat (n div 2)))"

declare ctz_nat.simps [simp del]

lemma ctz_nat_pow2: "ctz_nat (2 ^ k) = k"
  by (induction k) (simp_all add: ctz_nat.simps)

fun strlen_from :: "mem \<Rightarrow> u64 \<Rightarrow> u8 \<Rightarrow> nat \<Rightarrow> u64 \<Rightarrow> u64" where
  "strlen_from m s x 0 k = k"
| "strlen_from m s x (Suc f) k = (if m (s + k) = x then k else strlen_from m s x f (k + 1))"

lemma strlen_from_finds:
  assumes "m (s + of_nat k) = x" "\<forall>i. j \<le> i \<and> i < k \<longrightarrow> m (s + of_nat i) \<noteq> x" "j \<le> k" "k - j < f"
  shows "strlen_from m s x f (of_nat j) = of_nat k"
  using assms(2-4)
proof (induction f arbitrary: j)
  case 0
  then show ?case by simp
next
  case (Suc f)
  show ?case
  proof (cases "j = k")
    case True
    then show ?thesis using assms(1) by simp
  next
    case False
    then have "m (s + of_nat j) \<noteq> x" using Suc.prems by simp
    moreover have "strlen_from m s x f (of_nat (Suc j)) = of_nat k"
      using Suc.prems False by (intro Suc.IH) auto
    ultimately show ?thesis by (simp add: add.commute)
  qed
qed

definition std_mmap :: "nat \<Rightarrow> maps \<Rightarrow> mem \<Rightarrow> u64 \<Rightarrow> (u64 \<times> mem) option" where
  "std_mmap t ms m n =
     (let top = round_up (fold max (map (\<lambda>(q, k). unat q + unat k) ms) 65536) 4096
      in if top + unat n \<le> 2 ^ 47 \<and> n \<noteq> 0
         then Some (of_nat top, fill_bytes m (of_nat top) n 0) else None)"

definition std_env :: env where
  "std_env = \<lparr>
     core_safe_add = (\<lambda>a b. if unat a + unat b < 18446744073709551616 then Some (a + b) else None),
     core_safe_multiply =
       (\<lambda>a b. if unat a * unat b < 18446744073709551616 then Some (a * b) else None),
     core_align_up = (\<lambda>v a. if round_up (unat v) (unat a) < 18446744073709551616
       then Some (of_nat (round_up (unat v) (unat a))) else None),
     core_clz_u64 = (\<lambda>v. 64 - floorlog 2 (unat v)),
     core_ctz_u64 = (\<lambda>v. ctz_nat (unat v)),
     core_copy = copy_bytes,
     core_memcpy = copy_bytes,
     core_fill = fill_bytes,
     core_zero_secure = (\<lambda>m d n. fill_bytes m d n 0),
     core_length = (\<lambda>m s x. strlen_from m s x (2 ^ 64) 0),
     core_cache_line_size = Some 64,
     os_sysconf_pagesize = 4096,
     os_mmap = std_mmap,
     os_mmap_hugetlb = (\<lambda>t ms m n. None),
     os_munmap = (\<lambda>t ms p n. if (p, n) \<in> set ms then Some (remove1 (p, n) ms) else None),
     os_madvise = (\<lambda>t ms m p n adv. if \<not> 4096 dvd unat p then (-1, m) else (0, m)),
     libc_posix_memalign = std_posix_memalign,
     libc_free = (\<lambda>hs p. if p = NULL then hs else filter (\<lambda>(q, n). q \<noteq> p) hs) \<rparr>"

lemma fold_max_ge_init: "z \<le> fold max xs (z :: nat)"
proof (induction xs arbitrary: z)
  case (Cons y ys)
  have "max y z \<le> fold max ys (max y z)" by (rule Cons.IH)
  then show ?case by simp
qed simp

lemma fold_max_ge: "x \<in> set xs \<Longrightarrow> x \<le> fold max xs (z :: nat)"
proof (induction xs arbitrary: z)
  case (Cons y ys)
  have "max y z \<le> fold max ys (max y z)" by (rule fold_max_ge_init)
  with Cons show ?case by auto
qed simp

lemma floorlog_word_bounds:
  assumes "v \<noteq> (0 :: u64)"
  shows "0 < floorlog 2 (unat v)" "floorlog 2 (unat v) \<le> 64"
    "2 ^ (floorlog 2 (unat v) - 1) \<le> unat v" "unat v < 2 ^ floorlog 2 (unat v)"
proof -
  have pos: "0 < unat v" using assms by (simp add: unat_gt_0)
  have b: "2 ^ (floorlog 2 (unat v) - 1) \<le> unat v \<and> unat v < 2 ^ floorlog 2 (unat v)"
    using floorlog_bounds [of "unat v" 2] pos by simp
  then show "2 ^ (floorlog 2 (unat v) - 1) \<le> unat v" "unat v < 2 ^ floorlog 2 (unat v)" by auto
  show "0 < floorlog 2 (unat v)" using b pos by (cases "floorlog 2 (unat v)") auto
  show "floorlog 2 (unat v) \<le> 64"
  proof (rule ccontr)
    assume "\<not> floorlog 2 (unat v) \<le> 64"
    then have "(2::nat) ^ 64 \<le> 2 ^ (floorlog 2 (unat v) - 1)" by (intro power_increasing) auto
    then show False using b u64_max [of v] by simp
  qed
qed

lemma std_mmap_law:
  assumes "std_mmap t ms m n = Some (p, m')"
  shows "4096 \<le> unat p \<and> unat p + unat n \<le> 2 ^ 47 \<and> 4096 dvd unat p
    \<and> (\<forall>(q, k) \<in> set ms. apart p (unat n) q (unat k)) \<and> m' = fill_bytes m p n 0"
proof -
  define M where "M = fold max (map (\<lambda>(q, k). unat q + unat k) ms) (65536 :: nat)"
  define top where "top = round_up M 4096"
  from assms have p: "p = of_nat top" and le: "top + unat n \<le> 2 ^ 47" and m': "m' = fill_bytes m p n 0"
    by (auto simp: std_mmap_def Let_def M_def top_def split: if_splits)
  have up: "unat p = top" using p le by (simp add: unat_of_nat)
  have "M \<le> top" unfolding top_def by (rule round_up_ge) simp
  moreover have "65536 \<le> M" unfolding M_def by (rule fold_max_ge_init)
  moreover have "apart p (unat n) q (unat k)" if "(q, k) \<in> set ms" for q k
  proof -
    have "unat q + unat k \<le> M" unfolding M_def by (rule fold_max_ge) (use that in force)
    then show ?thesis using \<open>M \<le> top\<close> up by (simp add: apart_def)
  qed
  moreover have "4096 dvd unat p" by (simp add: up top_def)
  ultimately show ?thesis using up le m' by auto
qed

lemma std_posix_memalign_law:
  assumes "std_posix_memalign t ms hs al n = Some p"
  shows "4096 \<le> unat p \<and> unat p + unat n \<le> 2 ^ 47 \<and> unat al dvd unat p
    \<and> (\<forall>(q, k) \<in> set ms \<union> set hs. apart p (unat n) q (unat k))"
proof -
  define M where "M = fold max (map (\<lambda>(q, k). unat q + unat k) (ms @ hs)) (65536 :: nat)"
  define top where "top = round_up M (unat al)"
  from assms have p: "p = of_nat top" and le: "top + unat n \<le> 2 ^ 47" and al: "al \<noteq> 0"
    by (auto simp: std_posix_memalign_def Let_def M_def top_def simp del: map_append split: if_splits)
  have up: "unat p = top" using p le by (simp add: unat_of_nat)
  have "M \<le> top" unfolding top_def by (rule round_up_ge) (use al in \<open>simp add: unat_gt_0\<close>)
  moreover have "65536 \<le> M" unfolding M_def by (rule fold_max_ge_init)
  moreover have "apart p (unat n) q (unat k)" if "(q, k) \<in> set ms \<union> set hs" for q k
  proof -
    have "unat q + unat k \<le> M" unfolding M_def by (rule fold_max_ge) (use that in force)
    then show ?thesis using \<open>M \<le> top\<close> up by (simp add: apart_def)
  qed
  moreover have "unat al dvd unat p" by (simp add: up top_def)
  ultimately show ?thesis using up le by auto
qed

interpretation std: bc_os std_env
proof
  show "\<And>v. v \<noteq> 0 \<Longrightarrow> core_clz_u64 std_env v < 64 \<and> 2 ^ (63 - core_clz_u64 std_env v) \<le> unat v
      \<and> unat v < 2 ^ (64 - core_clz_u64 std_env v)"
  proof -
    fix v :: u64 assume v: "v \<noteq> 0"
    note b = floorlog_word_bounds [OF v]
    have "63 - (64 - floorlog 2 (unat v)) = floorlog 2 (unat v) - 1"
      "64 - (64 - floorlog 2 (unat v)) = floorlog 2 (unat v)" using b by auto
    then show "core_clz_u64 std_env v < 64 \<and> 2 ^ (63 - core_clz_u64 std_env v) \<le> unat v
      \<and> unat v < 2 ^ (64 - core_clz_u64 std_env v)"
      using b by (simp add: std_env_def)
  qed
  show "\<And>m s k x. m (s + of_nat k) = x \<Longrightarrow> (\<forall>i < k. m (s + of_nat i) \<noteq> x)
      \<Longrightarrow> unat s + k < 18446744073709551616 \<Longrightarrow> core_length std_env m s x = of_nat k"
    using strlen_from_finds [of _ _ _ _ 0 "2 ^ 64"] by (simp add: std_env_def del: strlen_from.simps)
  show "\<And>t ms m n p m'. os_mmap std_env t ms m n = Some (p, m') \<Longrightarrow>
      4096 \<le> unat p \<and> unat p + unat n \<le> 2 ^ 47
      \<and> nat (os_sysconf_pagesize std_env) dvd unat p
      \<and> (\<forall>(q, k) \<in> set ms. apart p (unat n) q (unat k)) \<and> m' = fill_bytes m p n 0"
    using std_mmap_law by (simp add: std_env_def)
  show "\<And>t ms hs al n p. libc_posix_memalign std_env t ms hs al n = Some p \<Longrightarrow>
      4096 \<le> unat p \<and> unat p + unat n \<le> 2 ^ 47 \<and> unat al dvd unat p
      \<and> (\<forall>(q, k) \<in> set ms \<union> set hs. apart p (unat n) q (unat k))"
    using std_posix_memalign_law by (simp add: std_env_def)
  show "\<And>p xs ys n. p \<noteq> NULL \<Longrightarrow> p \<notin> fst ` set (xs @ ys) \<Longrightarrow> libc_free std_env (xs @ (p, n) # ys) p = xs @ ys"
  proof -
    fix p :: u64 and xs ys :: maps and n assume p: "p \<noteq> NULL" "p \<notin> fst ` set (xs @ ys)"
    have "filter (\<lambda>(q, n). q \<noteq> p) xs = xs" "filter (\<lambda>(q, n). q \<noteq> p) ys = ys"
      using p(2) by (force intro!: filter_True)+
    then show "libc_free std_env (xs @ (p, n) # ys) p = xs @ ys" using p(1) by (simp add: std_env_def)
  qed
  show "0 < os_sysconf_pagesize std_env \<Longrightarrow>
      \<exists>k. 12 \<le> k \<and> k \<le> 20 \<and> os_sysconf_pagesize std_env = 2 ^ k"
    by (rule exI [of _ 12]) (simp add: std_env_def)
qed (simp_all add: std_env_def ctz_nat_pow2)

end
