(* ===== verification/BC_Platform.thy ===== *)
theory BC_Platform
  imports BC_Env
begin

text \<open>
  \<^verbatim>\<open>src/platform/bc_allocators_platform_linux.c\<close>: the thin wrappers around the system calls, over
  the machine state: memory, the list of live mappings (address and length, in order of creation),
  the live blocks of the C heap (only \<^verbatim>\<open>bc_allocators_aligned_allocate\<close> uses it), the number of system calls made (which indexes the free choices of the operating system) and the
  leak warnings delivered to the user callback.
\<close>

record machine =
  mc_mem :: mem
  mc_maps :: maps
  mc_heap :: maps
  mc_clock :: nat
  mc_leaks :: "(u64 \<times> string \<times> u64) list"

definition platform_map :: "env \<Rightarrow> machine \<Rightarrow> u64 \<Rightarrow> u64 option \<times> machine" where
  "platform_map E w sz =
     (case os_mmap E (mc_clock w) (mc_maps w) (mc_mem w) sz of
        None \<Rightarrow> (None, w\<lparr>mc_clock := mc_clock w + 1\<rparr>)
      | Some (mapped_memory, m') \<Rightarrow>
          (Some mapped_memory,
           w\<lparr>mc_mem := m', mc_maps := mc_maps w @ [(mapped_memory, sz)],
             mc_clock := mc_clock w + 1\<rparr>))"

definition platform_unmap :: "env \<Rightarrow> machine \<Rightarrow> u64 \<Rightarrow> u64 \<Rightarrow> bool \<times> machine" where
  "platform_unmap E w pointer sz =
     (case os_munmap E (mc_clock w) (mc_maps w) pointer sz of
        None \<Rightarrow> (False, w\<lparr>mc_clock := mc_clock w + 1\<rparr>)
      | Some ms \<Rightarrow> (True, w\<lparr>mc_maps := ms, mc_clock := mc_clock w + 1\<rparr>))"

definition platform_get_page_size :: "env \<Rightarrow> u64 option" where
  "platform_get_page_size E =
     (let page_size = os_sysconf_pagesize E
      in if page_size \<le> 0 then None else Some (of_int page_size))"

definition platform_get_cache_line_size :: "env \<Rightarrow> u64 option" where
  "platform_get_cache_line_size E =
     (case core_cache_line_size E of Some n \<Rightarrow> Some n | None \<Rightarrow> Some 64)"

definition platform_advise :: "env \<Rightarrow> machine \<Rightarrow> u64 \<Rightarrow> u64 \<Rightarrow> advice \<Rightarrow> int \<times> machine" where
  "platform_advise E w addr len adv =
     (case os_madvise E (mc_clock w) (mc_maps w) (mc_mem w) addr len adv of
        (r, m') \<Rightarrow> (r, w\<lparr>mc_mem := m', mc_clock := mc_clock w + 1\<rparr>))"

text \<open>The mappings are pairwise apart, page-aligned and inside the user address space.\<close>

definition map_ok :: "nat \<Rightarrow> u64 \<times> u64 \<Rightarrow> bool" where
  "map_ok page e \<longleftrightarrow>
     (case e of (p, n) \<Rightarrow> 4096 \<le> unat p \<and> unat p + unat n \<le> 2 ^ 47 \<and> page dvd unat p)"

fun maps_apart :: "maps \<Rightarrow> bool" where
  "maps_apart [] = True"
| "maps_apart ((p, n) # ms) =
     ((\<forall>(q, k) \<in> set ms. apart p (unat n) q (unat k)) \<and> maps_apart ms)"

definition maps_ok :: "env \<Rightarrow> maps \<Rightarrow> bool" where
  "maps_ok E ms \<longleftrightarrow>
     (\<forall>e \<in> set ms. map_ok (nat (os_sysconf_pagesize E)) e) \<and> maps_apart ms"

lemma maps_apart_append:
  "maps_apart (xs @ [(p, n)]) \<longleftrightarrow>
     maps_apart xs \<and> (\<forall>(q, k) \<in> set xs. apart p (unat n) q (unat k))"
  by (induction xs) (auto simp: apart_sym)

lemma maps_apart_remove1: "maps_apart ms \<Longrightarrow> maps_apart (remove1 e ms)"
  by (induction ms rule: maps_apart.induct) (auto dest: notin_set_remove1 set_mp [OF set_remove1_subset])

lemma platform_map_None:
  "platform_map E w n = (None, w') \<Longrightarrow> w' = w\<lparr>mc_clock := mc_clock w + 1\<rparr>"
  by (auto simp: platform_map_def split: option.splits prod.splits)

context bc_os
begin

lemma platform_map_Some:
  assumes "platform_map E w n = (Some p, w')"
  shows "4096 \<le> unat p" "unat p + unat n \<le> 2 ^ 47" "nat (os_sysconf_pagesize E) dvd unat p"
    "\<forall>(q, k) \<in> set (mc_maps w). apart p (unat n) q (unat k)"
    "w' = w\<lparr>mc_mem := fill_bytes (mc_mem w) p n 0, mc_maps := mc_maps w @ [(p, n)],
           mc_clock := mc_clock w + 1\<rparr>"
proof -
  from assms obtain m' where r: "os_mmap E (mc_clock w) (mc_maps w) (mc_mem w) n = Some (p, m')"
    and w': "w' = w\<lparr>mc_mem := m', mc_maps := mc_maps w @ [(p, n)], mc_clock := mc_clock w + 1\<rparr>"
    by (auto simp: platform_map_def split: option.splits prod.splits)
  note law = mmap [OF r]
  show "4096 \<le> unat p" "unat p + unat n \<le> 2 ^ 47" "nat (os_sysconf_pagesize E) dvd unat p"
    "\<forall>(q, k) \<in> set (mc_maps w). apart p (unat n) q (unat k)"
    "w' = w\<lparr>mc_mem := fill_bytes (mc_mem w) p n 0, mc_maps := mc_maps w @ [(p, n)],
           mc_clock := mc_clock w + 1\<rparr>"
    using law w' by auto
qed

lemma platform_map_maps_ok:
  "platform_map E w n = (r, w') \<Longrightarrow> maps_ok E (mc_maps w) \<Longrightarrow> maps_ok E (mc_maps w')"
proof (cases r)
  case None
  moreover assume "platform_map E w n = (r, w')" "maps_ok E (mc_maps w)"
  ultimately show ?thesis using platform_map_None by fastforce
next
  case (Some p)
  moreover assume r: "platform_map E w n = (r, w')" and ok: "maps_ok E (mc_maps w)"
  ultimately have "platform_map E w n = (Some p, w')" by simp
  note m = platform_map_Some [OF this]
  show ?thesis using m ok unfolding m(5)
    by (auto simp: maps_ok_def map_ok_def maps_apart_append)
qed

lemma platform_unmap_mapped:
  "(p, n) \<in> set (mc_maps w) \<Longrightarrow> platform_unmap E w p n =
     (True, w\<lparr>mc_maps := remove1 (p, n) (mc_maps w), mc_clock := mc_clock w + 1\<rparr>)"
  by (simp add: platform_unmap_def munmap)

lemma page_size_pow2:
  assumes "platform_get_page_size E = Some s"
  obtains k where "12 \<le> k" "k \<le> 20" "unat s = 2 ^ k" "nat (os_sysconf_pagesize E) = 2 ^ k"
proof -
  from assms have pos: "0 < os_sysconf_pagesize E" and s: "s = of_int (os_sysconf_pagesize E)"
    by (auto simp: platform_get_page_size_def Let_def split: if_splits)
  obtain k where k: "12 \<le> k" "k \<le> 20" "os_sysconf_pagesize E = 2 ^ k" using page_size [OF pos] by blast
  have "(2::nat) ^ k \<le> 2 ^ 20" using k(2) by (intro power_increasing) auto
  moreover have "s = of_nat (2 ^ k)" using s k(3) by simp
  ultimately have "unat s = 2 ^ k" by (simp only: unat_of_nat) simp
  moreover have "nat (os_sysconf_pagesize E) = 2 ^ k" using k(3) by (simp add: nat_power_eq)
  ultimately show thesis using that k(1,2) by blast
qed

end

end
