(* ===== verification/BC_Free_List.thy ===== *)
theory BC_Free_List
  imports BC_Memory "HOL-Library.Multiset"
begin

text \<open>
  The two free lists of the library. The slab's (\<^verbatim>\<open>bc_allocators_free_list_internal.h\<close>) is purely
  intrusive: the first word of a free block holds the next pointer. The pool's
  (\<^verbatim>\<open>free_list_push\<close>, \<^verbatim>\<open>free_list_pop\<close> in \<^verbatim>\<open>bc_allocators_pool.c\<close>) puts an array of 14 pointers,
  the magazine, in front of such a list and touches a block only when the magazine is full.

  Both meet one contract, the locale \<open>block_bag\<close>: the list holds a bag of non-null blocks, \<open>push\<close>
  adds one and writes at most its first 8 bytes, \<open>pop\<close> takes some block out or reports \<open>NULL\<close> exactly
  when the bag is empty, and the bag depends only on the first 8 bytes of its members. The slab's
  list is moreover a stack (\<open>lifo_bag\<close>). What the allocators need of a run of pushes (carving a new
  page into blocks) is proved once, in the locale.
\<close>

section \<open>The intrusive list\<close>

definition bc_allocators_free_list_push :: "mem \<Rightarrow> u64 \<Rightarrow> u64 \<Rightarrow> mem \<times> u64" where
  "bc_allocators_free_list_push m head block = (store64 m block head, block)"

definition bc_allocators_free_list_pop :: "mem \<Rightarrow> u64 \<Rightarrow> u64 \<times> u64" where
  "bc_allocators_free_list_pop m head =
     (let block = head in if block \<noteq> NULL then (block, load64 m block) else (block, head))"

section \<open>The magazine list\<close>

definition MAG_SIZE :: u64 where
  "MAG_SIZE = 14"

record free_list =
  fl_mag :: "u64 list"
  fl_mag_count :: u64
  fl_head :: u64

definition free_list_push :: "mem \<Rightarrow> free_list \<Rightarrow> u64 \<Rightarrow> mem \<times> free_list" where
  "free_list_push m fl ptr =
     (if fl_mag_count fl < MAG_SIZE
      then (m, fl\<lparr>fl_mag := (fl_mag fl)[unat (fl_mag_count fl) := ptr],
                  fl_mag_count := fl_mag_count fl + 1\<rparr>)
      else (store64 m ptr (fl_head fl), fl\<lparr>fl_head := ptr\<rparr>))"

definition free_list_pop :: "mem \<Rightarrow> free_list \<Rightarrow> u64 \<times> free_list" where
  "free_list_pop m fl =
     (if fl_mag_count fl > 0
      then let n = fl_mag_count fl - 1
           in (fl_mag fl ! unat n, fl\<lparr>fl_mag_count := n\<rparr>)
      else let head = fl_head fl
           in (head, if head \<noteq> NULL then fl\<lparr>fl_head := load64 m head\<rparr> else fl))"

section \<open>The contract of a free list\<close>

definition node :: "u64 \<Rightarrow> bool" where
  "node b \<longleftrightarrow> b \<noteq> NULL \<and> unat b + 8 \<le> 18446744073709551616"

definition nodes_apart :: "u64 set \<Rightarrow> bool" where
  "nodes_apart = pairwise (\<lambda>x y. apart x 8 y 8)"

locale block_bag =
  fixes rep :: "mem \<Rightarrow> 'l \<Rightarrow> u64 list \<Rightarrow> bool"
    and push :: "mem \<Rightarrow> 'l \<Rightarrow> u64 \<Rightarrow> mem \<times> 'l"
    and pop :: "mem \<Rightarrow> 'l \<Rightarrow> u64 \<times> 'l"
  assumes rep_nodes: "rep m l xs \<Longrightarrow> x \<in> set xs \<Longrightarrow> node x"
    and rep_frame: "rep m l xs \<Longrightarrow> (\<And>x. x \<in> set xs \<Longrightarrow> agree m m' (area x 8)) \<Longrightarrow> rep m' l xs"
    and push_rep: "rep m l xs \<Longrightarrow> node b \<Longrightarrow> (\<And>x. x \<in> set xs \<Longrightarrow> apart b 8 x 8) \<Longrightarrow>
      push m l b = (m', l') \<Longrightarrow> \<exists>ys. rep m' l' ys \<and> mset ys = add_mset b (mset xs)"
    and push_frame: "push m l b = (m', l') \<Longrightarrow> node b \<Longrightarrow> a \<notin> area b 8 \<Longrightarrow> m' a = m a"
    and pop_empty: "rep m l [] \<Longrightarrow> pop m l = (NULL, l)"
    and pop_rep: "rep m l xs \<Longrightarrow> xs \<noteq> [] \<Longrightarrow> pop m l = (b, l') \<Longrightarrow>
      \<exists>ys. rep m l' ys \<and> mset xs = add_mset b (mset ys)"

definition push_all :: "(mem \<Rightarrow> 'l \<Rightarrow> u64 \<Rightarrow> mem \<times> 'l) \<Rightarrow> u64 list \<Rightarrow> mem \<times> 'l \<Rightarrow> mem \<times> 'l" where
  "push_all push bs = fold (\<lambda>b (m, l). push m l b) bs"

lemma push_all_Nil [simp]: "push_all push [] s = s"
  by (simp add: push_all_def)

lemma push_all_Cons [simp]: "push_all push (b # bs) (m, l) = push_all push bs (push m l b)"
  by (simp add: push_all_def)

context block_bag
begin

lemma pop_NULL_iff:
  assumes "rep m l xs" "pop m l = (b, l')"
  shows "b = NULL \<longleftrightarrow> xs = []"
proof (cases "xs = []")
  case True
  then show ?thesis using assms pop_empty by simp
next
  case False
  obtain ys where ys: "mset xs = add_mset b (mset ys)" using pop_rep [OF assms(1) False assms(2)] by blast
  then have "b \<in> set xs" by (metis mset_eq_setD set_mset_mset union_single_eq_member)
  then show ?thesis using rep_nodes [OF assms(1)] False by (auto simp: node_def)
qed

lemma pop_member:
  assumes "rep m l xs" "pop m l = (b, l')" "b \<noteq> NULL"
  obtains ys where "rep m l' ys" "mset xs = add_mset b (mset ys)" "b \<in> set xs"
proof -
  have "xs \<noteq> []" using pop_NULL_iff [OF assms(1,2)] assms(3) by simp
  then obtain ys where ys: "rep m l' ys" "mset xs = add_mset b (mset ys)"
    using pop_rep [OF assms(1) _ assms(2)] by blast
  moreover have "b \<in> set xs" using ys(2) by (metis set_mset_mset union_single_eq_member)
  ultimately show thesis using that by blast
qed

lemma push_all_frame:
  "push_all push bs (m, l) = (m', l') \<Longrightarrow> (\<forall>b \<in> set bs. node b \<and> a \<notin> area b 8) \<Longrightarrow> m' a = m a"
proof (induction bs arbitrary: m l)
  case (Cons b bs)
  obtain m1 l1 where s: "push m l b = (m1, l1)" by fastforce
  then have "m1 a = m a" using push_frame Cons.prems(2) by simp
  moreover have "m' a = m1 a" using Cons.IH Cons.prems s by simp
  ultimately show ?case by simp
qed simp

lemma push_all_rep:
  assumes "rep m l xs" "push_all push bs (m, l) = (m', l')" "\<forall>b \<in> set bs. node b"
    and "distinct bs" "set bs \<inter> set xs = {}" "nodes_apart (set bs \<union> set xs)"
  shows "\<exists>ys. rep m' l' ys \<and> mset ys = mset bs + mset xs"
  using assms
proof (induction bs arbitrary: m l xs)
  case (Cons b bs)
  obtain m1 l1 where s: "push m l b = (m1, l1)" by fastforce
  have "\<And>x. x \<in> set xs \<Longrightarrow> apart b 8 x 8"
    using Cons.prems(5,6) by (auto simp: nodes_apart_def pairwise_def)
  then obtain zs where z: "rep m1 l1 zs" "mset zs = add_mset b (mset xs)"
    using push_rep [OF Cons.prems(1) _ _ s] Cons.prems(3) by auto
  then have sz: "set zs = insert b (set xs)" by (metis set_mset_add_mset_insert set_mset_mset)
  have "\<exists>ys. rep m' l' ys \<and> mset ys = mset bs + mset zs"
    using Cons.prems s sz by (intro Cons.IH [OF z(1)]) auto
  then show ?case using z(2) by auto
qed auto

end

locale lifo_bag = block_bag +
  assumes pop_push: "node b \<Longrightarrow> push m l b = (m', l') \<Longrightarrow> pop m' l' = (b, l)"

section \<open>The contract holds of both lists\<close>

definition intrusive_rep :: "mem \<Rightarrow> u64 \<Rightarrow> u64 list \<Rightarrow> bool" where
  "intrusive_rep m head xs \<longleftrightarrow> chain m 0 head xs \<and> (\<forall>x \<in> set xs. node x)"

lemma intrusive_rep_frame:
  "intrusive_rep m h xs \<Longrightarrow> (\<And>x. x \<in> set xs \<Longrightarrow> agree m m' (area x 8)) \<Longrightarrow> intrusive_rep m' h xs"
proof -
  assume r: "intrusive_rep m h xs" and ag: "\<And>x. x \<in> set xs \<Longrightarrow> agree m m' (area x 8)"
  have "load64 m' (x + 0) = load64 m (x + 0)" if "x \<in> set xs" for x
    using r ag that load64_cong [of m m' x] by (simp add: intrusive_rep_def node_def)
  then have "chain m' 0 h xs \<longleftrightarrow> chain m 0 h xs" by (rule seg_cong)
  then show ?thesis using r by (simp add: intrusive_rep_def)
qed

lemma intrusive_rep_push:
  assumes "intrusive_rep m h xs" "node b" "\<And>x. x \<in> set xs \<Longrightarrow> apart b 8 x 8"
  shows "intrusive_rep (store64 m b h) b (b # xs)"
proof -
  have "intrusive_rep (store64 m b h) h xs"
    using assms by (intro intrusive_rep_frame [OF assms(1)] agree_store64)
      (auto simp: node_def dest!: apart_disjoint)
  then show ?thesis using assms(2) by (simp add: intrusive_rep_def node_def)
qed

lemma intrusive_rep_pop:
  "intrusive_rep m h xs \<Longrightarrow> h \<noteq> NULL \<Longrightarrow> \<exists>ys. xs = h # ys \<and> intrusive_rep m (load64 m h) ys"
  by (auto simp: intrusive_rep_def chain_nonnull)

interpretation intrusive: lifo_bag intrusive_rep bc_allocators_free_list_push
  bc_allocators_free_list_pop
proof
  show "intrusive_rep m l xs \<Longrightarrow> x \<in> set xs \<Longrightarrow> node x" for m l xs x
    by (simp add: intrusive_rep_def)
  show "intrusive_rep m l xs \<Longrightarrow> (\<And>x. x \<in> set xs \<Longrightarrow> agree m m' (area x 8)) \<Longrightarrow>
    intrusive_rep m' l xs" for m l xs m'
    by (rule intrusive_rep_frame)
  show "intrusive_rep m l xs \<Longrightarrow> node b \<Longrightarrow> (\<And>x. x \<in> set xs \<Longrightarrow> apart b 8 x 8) \<Longrightarrow>
    bc_allocators_free_list_push m l b = (m', l') \<Longrightarrow>
    \<exists>ys. intrusive_rep m' l' ys \<and> mset ys = add_mset b (mset xs)" for m l xs b m' l'
    using intrusive_rep_push [of m l xs b]
    by (auto simp: bc_allocators_free_list_push_def intro: exI [of _ "b # xs"])
  show "bc_allocators_free_list_push m l b = (m', l') \<Longrightarrow> node b \<Longrightarrow> a \<notin> area b 8 \<Longrightarrow> m' a = m a"
    for m l b m' l' a
    by (auto simp: bc_allocators_free_list_push_def node_def simp del: in_area intro: store64_other)
  show "intrusive_rep m l [] \<Longrightarrow> bc_allocators_free_list_pop m l = (NULL, l)" for m l
    by (simp add: intrusive_rep_def bc_allocators_free_list_pop_def)
  show "intrusive_rep m l xs \<Longrightarrow> xs \<noteq> [] \<Longrightarrow> bc_allocators_free_list_pop m l = (b, l') \<Longrightarrow>
    \<exists>ys. intrusive_rep m l' ys \<and> mset xs = add_mset b (mset ys)" for m l xs b l'
    using intrusive_rep_pop [of m l xs]
    by (cases "l = NULL") (auto simp: bc_allocators_free_list_pop_def intrusive_rep_def)
  show "node b \<Longrightarrow> bc_allocators_free_list_push m l b = (m', l') \<Longrightarrow>
    bc_allocators_free_list_pop m' l' = (b, l)" for b m l m' l'
    by (auto simp: bc_allocators_free_list_push_def bc_allocators_free_list_pop_def node_def)
qed

definition magazine_rep :: "mem \<Rightarrow> free_list \<Rightarrow> u64 list \<Rightarrow> bool" where
  "magazine_rep m fl xs \<longleftrightarrow>
     length (fl_mag fl) = 14 \<and> fl_mag_count fl \<le> MAG_SIZE \<and>
     (\<exists>ys. intrusive_rep m (fl_head fl) ys \<and> xs = take (unat (fl_mag_count fl)) (fl_mag fl) @ ys) \<and>
     (\<forall>x \<in> set xs. node x)"

lemma magazine_rep_frame:
  "magazine_rep m fl xs \<Longrightarrow> (\<And>x. x \<in> set xs \<Longrightarrow> agree m m' (area x 8)) \<Longrightarrow> magazine_rep m' fl xs"
  using intrusive_rep_frame [of m "fl_head fl" _ m'] by (fastforce simp: magazine_rep_def)

lemma magazine_rep_push:
  assumes "magazine_rep m fl xs" "node b" "\<And>x. x \<in> set xs \<Longrightarrow> apart b 8 x 8"
    and "free_list_push m fl b = (m', fl')"
  shows "\<exists>ys. magazine_rep m' fl' ys \<and> mset ys = add_mset b (mset xs)"
proof -
  from assms(1) obtain ys where r: "length (fl_mag fl) = 14" "fl_mag_count fl \<le> MAG_SIZE"
    "intrusive_rep m (fl_head fl) ys" "xs = take (unat (fl_mag_count fl)) (fl_mag fl) @ ys"
    "\<forall>x \<in> set xs. node x"
    by (auto simp: magazine_rep_def)
  show ?thesis
  proof (cases "fl_mag_count fl < MAG_SIZE")
    case True
    then have c: "unat (fl_mag_count fl) < 14" by (simp add: MAG_SIZE_def word_less_nat_alt)
    then have c1: "unat (fl_mag_count fl + 1) = Suc (unat (fl_mag_count fl))" by (simp add: no_wrap)
    let ?xs = "take (unat (fl_mag_count fl)) (fl_mag fl) @ b # ys"
    have "magazine_rep m' fl' ?xs"
      using assms(2,4) True r c c1
      by (auto simp: magazine_rep_def free_list_push_def MAG_SIZE_def word_le_nat_alt
          take_Suc_conv_app_nth take_update_cancel)
    then show ?thesis using r(4) by (intro exI [of _ ?xs]) simp
  next
    case False
    let ?xs = "take (unat (fl_mag_count fl)) (fl_mag fl) @ b # ys"
    have "intrusive_rep (store64 m b (fl_head fl)) b (b # ys)"
      using r(3,4) assms(2,3) by (intro intrusive_rep_push) auto
    then have "magazine_rep m' fl' ?xs"
      using assms(2,4) False r unfolding magazine_rep_def free_list_push_def
      by (auto intro: exI [of _ "b # ys"])
    then show ?thesis using r(4) by (intro exI [of _ ?xs]) simp
  qed
qed

lemma magazine_rep_pop:
  assumes "magazine_rep m fl xs" "xs \<noteq> []" "free_list_pop m fl = (b, fl')"
  shows "\<exists>ys. magazine_rep m fl' ys \<and> mset xs = add_mset b (mset ys)"
proof -
  from assms(1) obtain ys where r: "length (fl_mag fl) = 14" "fl_mag_count fl \<le> MAG_SIZE"
    "intrusive_rep m (fl_head fl) ys" "xs = take (unat (fl_mag_count fl)) (fl_mag fl) @ ys"
    "\<forall>x \<in> set xs. node x"
    by (auto simp: magazine_rep_def)
  show ?thesis
  proof (cases "fl_mag_count fl > 0")
    case True
    define k where "k = unat (fl_mag_count fl - 1)"
    have k: "unat (fl_mag_count fl) = Suc k" "k < 14"
      using True r(2) by (auto simp: k_def no_wrap MAG_SIZE_def word_le_nat_alt word_less_nat_alt)
    have b: "b = fl_mag fl ! k" "fl' = fl\<lparr>fl_mag_count := fl_mag_count fl - 1\<rparr>"
      using assms(3) True by (auto simp: free_list_pop_def Let_def k_def)
    let ?xs = "take k (fl_mag fl) @ ys"
    have "magazine_rep m fl' ?xs"
      using r b k by (auto simp: magazine_rep_def k_def MAG_SIZE_def word_le_nat_alt take_Suc_conv_app_nth)
    then show ?thesis using r(1,4) k b by (intro exI [of _ ?xs]) (simp add: take_Suc_conv_app_nth)
  next
    case False
    then have z: "unat (fl_mag_count fl) = 0" by (simp add: word_less_nat_alt)
    then have "xs = ys" using r(4) by simp
    moreover have "fl_head fl \<noteq> NULL"
      using r(3) \<open>xs = ys\<close> assms(2) by (auto simp: intrusive_rep_def)
    moreover obtain zs where "ys = fl_head fl # zs" "intrusive_rep m (load64 m (fl_head fl)) zs"
      using intrusive_rep_pop [OF r(3)] calculation by blast
    ultimately have "magazine_rep m fl' zs" "xs = b # zs"
      using assms(3) z r by (auto simp: free_list_pop_def magazine_rep_def Let_def word_less_nat_alt)
    then show ?thesis by auto
  qed
qed

interpretation magazine: block_bag magazine_rep free_list_push free_list_pop
proof
  show "magazine_rep m l xs \<Longrightarrow> x \<in> set xs \<Longrightarrow> node x" for m l xs x
    by (simp add: magazine_rep_def)
  show "magazine_rep m l xs \<Longrightarrow> (\<And>x. x \<in> set xs \<Longrightarrow> agree m m' (area x 8)) \<Longrightarrow>
    magazine_rep m' l xs" for m l xs m'
    by (rule magazine_rep_frame)
  show "magazine_rep m l xs \<Longrightarrow> node b \<Longrightarrow> (\<And>x. x \<in> set xs \<Longrightarrow> apart b 8 x 8) \<Longrightarrow>
    free_list_push m l b = (m', l') \<Longrightarrow>
    \<exists>ys. magazine_rep m' l' ys \<and> mset ys = add_mset b (mset xs)" for m l xs b m' l'
    by (rule magazine_rep_push)
  show "free_list_push m l b = (m', l') \<Longrightarrow> node b \<Longrightarrow> a \<notin> area b 8 \<Longrightarrow> m' a = m a" for m l b m' l' a
    by (auto simp: free_list_push_def node_def simp del: in_area intro: store64_other split: if_splits)
  show "magazine_rep m l [] \<Longrightarrow> free_list_pop m l = (NULL, l)" for m l
    by (auto simp: magazine_rep_def free_list_pop_def intrusive_rep_def Let_def word_less_nat_alt)
  show "magazine_rep m l xs \<Longrightarrow> xs \<noteq> [] \<Longrightarrow> free_list_pop m l = (b, l') \<Longrightarrow>
    \<exists>ys. magazine_rep m l' ys \<and> mset xs = add_mset b (mset ys)" for m l xs b l'
    by (rule magazine_rep_pop)
qed

definition empty_free_list :: free_list where
  "empty_free_list = \<lparr>fl_mag = replicate 14 NULL, fl_mag_count = 0, fl_head = NULL\<rparr>"

lemma magazine_rep_empty [simp]: "magazine_rep m empty_free_list []"
  by (simp add: magazine_rep_def empty_free_list_def intrusive_rep_def)

text \<open>A block pushed while the magazine has room is the next one popped.\<close>

lemma magazine_pop_push:
  assumes "fl_mag_count fl < MAG_SIZE" "length (fl_mag fl) = 14" "free_list_push m fl b = (m', fl')"
  shows "fst (free_list_pop m' fl') = b"
proof -
  have "unat (fl_mag_count fl) < 14" using assms(1) by (simp add: MAG_SIZE_def word_less_nat_alt)
  moreover from this have "fl_mag_count fl + 1 > 0" by (simp add: word_less_nat_alt no_wrap)
  ultimately show ?thesis
    using assms by (auto simp: free_list_push_def free_list_pop_def Let_def)
qed

end
