(* ===== verification/BC_Context_State.thy ===== *)
theory BC_Context_State
  imports BC_Platform BC_Free_List
begin

text \<open>
  The context, \<^verbatim>\<open>struct bc_allocators_context\<close> of \<^verbatim>\<open>bc_allocators_context_internal.h\<close>: constants,
  the pool region, one free list per size class, the statistics, the leak callback and the cache of
  released arena blocks. The record keeps the fields of the C struct in their order, plus
  \<open>cx_self\<close>, the address of the struct (the C code has it as the pointer \<open>ctx\<close>).
  The context lives in a mapping of its own, so it is a record and not bytes of the memory: in the states and for the sizes of
  the theorems no store of the library or of a client reaches that mapping.
\<close>

definition NUM_CLASSES :: nat where
  "NUM_CLASSES = 19"

definition MAX_CLASS_SIZE :: u64 where
  "MAX_CLASS_SIZE = 4 * 1024 * 1024"

definition DEFAULT_MAX :: u64 where
  "DEFAULT_MAX = 1024 * 1024 * 1024"

definition PAGE_CLASS_UNASSIGNED :: u8 where
  "PAGE_CLASS_UNASSIGNED = 0xFF"

definition PAGE_CLASS_LARGE :: u8 where
  "PAGE_CLASS_LARGE = 0xFE"

definition LARGE_META_SIZE :: u64 where
  "LARGE_META_SIZE = 16"

definition ARENA_CACHE_SIZE :: u64 where
  "ARENA_CACHE_SIZE = 4"

record arena_cache_entry =
  ace_block :: u64
  ace_mmap_size :: u64

record region =
  rg_base :: u64
  rg_total_size :: u64
  rg_page_class_size :: u64
  rg_bump :: u64
  rg_page_class :: u64

record bc_context =
  cx_self :: u64
  cx_page_size :: u64
  cx_page_shift :: u64
  cx_cache_line_size :: u64
  cx_tracking_enabled :: bool
  cx_region :: region
  cx_context_mmap_size :: u64
  cx_pools :: "free_list list"
  cx_large_pool :: free_list
  cx_max_pool_memory :: u64
  cx_pool_alloc_count :: u64
  cx_pool_free_count :: u64
  cx_pool_active_bytes :: u64
  cx_arena_create_count :: u64
  cx_arena_destroy_count :: u64
  cx_arena_total_bytes :: u64
  cx_total_mapped_bytes :: u64
  cx_peak_mapped_bytes :: u64
  cx_leak_callback :: u64
  cx_leak_callback_argument :: u64
  cx_arena_cache :: "arena_cache_entry list"
  cx_arena_cache_count :: u64

text \<open>
  \<open>sizeof(struct bc_allocators_context)\<close> on LP64: 80 bytes of configuration and region, padding to
  128, twenty free lists of 128 bytes, 88 bytes of counters and callback, four cache entries of 16
  bytes and their count, padded to a multiple of 64.
\<close>

definition sizeof_context :: u64 where
  "sizeof_context = 2880"

lemmas pool_constants = NUM_CLASSES_def MAX_CLASS_SIZE_def PAGE_CLASS_LARGE_def
  PAGE_CLASS_UNASSIGNED_def LARGE_META_SIZE_def

end
