(* ===== verification/BC_Pool.thy ===== *)
theory BC_Pool
  imports BC_Context_State
begin

text \<open>
  \<^verbatim>\<open>src/pool/bc_allocators_pool.c\<close>, definition by definition. The state is the memory and the
  context; the arena cache and the machine's mappings are not touched by any pool operation. A
  function returning \<open>bool\<close> with an \<open>out_ptr\<close> that is set to \<open>NULL\<close> first returns an option: \<open>None\<close> is
  \<open>false\<close> with \<open>*out_ptr == NULL\<close>, \<open>Some p\<close> is \<open>true\<close> with \<open>*out_ptr == p\<close>. A function returning
  \<open>void*\<close> returns a word, \<open>NULL\<close> for failure, as in the code.
\<close>

section \<open>Size classes\<close>

definition bc_allocators_class_sizes :: "u64 list" where
  "bc_allocators_class_sizes =
     [16, 32, 64, 128, 256, 512, 1024, 2048, 4096, 8192, 16384, 32768, 65536, 131072, 262144,
      524288, 1048576, 2097152, 4194304]"

definition size_class_for_size :: "env \<Rightarrow> u64 \<Rightarrow> int" where
  "size_class_for_size E sz =
     (if sz > MAX_CLASS_SIZE then -1
      else if sz \<le> 16 then 0
      else let bits = 64 - int (core_clz_u64 E (sz - 1)) in bits - 4)"

section \<open>The region: page tags and the bump pointer\<close>

text \<open>
  The loop of \<^verbatim>\<open>tag_page_class\<close> runs over the page numbers \<open>start_page\<close> to \<open>end_page\<close>, the list \<open>tagged_pages\<close>; both are a
  word shifted right by \<open>page_shift\<close>, which is at least 12, so the C counter never wraps. The store into the table
  is a write of the total memory: where the table has no such entry, the process overwrites what is mapped there or faults.
  The theorems on the allocator's results are for arguments where every page number of the list has an entry; for
  the one call where they do not, only the list is spoken of.
\<close>

definition tagged_pages :: "bc_context \<Rightarrow> u64 \<Rightarrow> u64 \<Rightarrow> nat list" where
  "tagged_pages c offset size_bytes =
     (let page_shift = cx_page_shift c;
          start_page = drop_bit (unat page_shift) offset;
          end_page = drop_bit (unat page_shift) (offset + size_bytes - 1)
      in [unat start_page ..< Suc (unat end_page)])"

definition tag_page_class :: "mem \<Rightarrow> bc_context \<Rightarrow> u64 \<Rightarrow> u64 \<Rightarrow> u8 \<Rightarrow> mem" where
  "tag_page_class m c offset size_bytes class_val =
     fold (\<lambda>p m. m(rg_page_class (cx_region c) + of_nat p := class_val)) (tagged_pages c offset size_bytes) m"

definition bump_raw :: "bc_context \<Rightarrow> u64 \<Rightarrow> u64 \<times> bc_context" where
  "bump_raw c bytes_needed =
     (let r = cx_region c; old_bump = rg_bump r
      in if old_bump + bytes_needed > rg_total_size r then (NULL, c)
         else (rg_base r + old_bump, c\<lparr>cx_region := r\<lparr>rg_bump := old_bump + bytes_needed\<rparr>\<rparr>))"

definition bump_allocate_class :: "env \<Rightarrow> mem \<Rightarrow> bc_context \<Rightarrow> nat \<Rightarrow> u64 \<times> mem \<times> bc_context" where
  "bump_allocate_class E m c cls =
     (let block_size = bc_allocators_class_sizes ! cls; page_size = cx_page_size c
      in case (if block_size < page_size then Some page_size
               else core_align_up E block_size page_size) of
           None \<Rightarrow> (NULL, m, c)
         | Some bump_size \<Rightarrow>
             (case bump_raw c bump_size of (page_base, c1) \<Rightarrow>
                if page_base = NULL then (NULL, m, c1)
                else
                  let offset = page_base - rg_base (cx_region c1);
                      m1 = tag_page_class m c1 offset bump_size (of_nat cls);
                      num_blocks = bump_size div block_size;
                      blocks = map (\<lambda>i. page_base + of_nat i * block_size) [1 ..< unat num_blocks]
                  in case push_all free_list_push blocks (m1, cx_pools c1 ! cls) of (m2, fl) \<Rightarrow>
                       (page_base, m2, c1\<lparr>cx_pools := (cx_pools c1)[cls := fl]\<rparr>)))"

section \<open>Large blocks\<close>

text \<open>
  A large block starts with \<^verbatim>\<open>struct bc_allocators_large_meta\<close>: \<open>user_size\<close> at offset 0 and
  \<open>total_size\<close> at offset 8; the user pointer is 16 bytes further.
\<close>

abbreviation large_meta_user_size :: "mem \<Rightarrow> u64 \<Rightarrow> u64" where
  "large_meta_user_size m block \<equiv> load64 m block"

abbreviation large_meta_total_size :: "mem \<Rightarrow> u64 \<Rightarrow> u64" where
  "large_meta_total_size m block \<equiv> load64 m (block + 8)"

abbreviation set_large_meta_user_size :: "mem \<Rightarrow> u64 \<Rightarrow> u64 \<Rightarrow> mem" where
  "set_large_meta_user_size m block v \<equiv> store64 m block v"

abbreviation set_large_meta_total_size :: "mem \<Rightarrow> u64 \<Rightarrow> u64 \<Rightarrow> mem" where
  "set_large_meta_total_size m block v \<equiv> store64 m (block + 8) v"

definition bump_large :: "mem \<Rightarrow> bc_context \<Rightarrow> u64 \<Rightarrow> u64 \<Rightarrow> u64 \<times> mem \<times> bc_context" where
  "bump_large m c user_size total_aligned =
     (case bump_raw c total_aligned of (block, c1) \<Rightarrow>
        if block = NULL then (NULL, m, c1)
        else
          let offset = block - rg_base (cx_region c1);
              m1 = tag_page_class m c1 offset total_aligned PAGE_CLASS_LARGE;
              m2 = set_large_meta_total_size m1 block total_aligned;
              m3 = set_large_meta_user_size m2 block user_size
          in (block + LARGE_META_SIZE, m3, c1))"

definition allocate_large :: "env \<Rightarrow> mem \<Rightarrow> bc_context \<Rightarrow> u64 \<Rightarrow> u64 \<times> mem \<times> bc_context" where
  "allocate_large E m c user_size =
     (case core_safe_add E LARGE_META_SIZE user_size of
        None \<Rightarrow> (NULL, m, c)
      | Some total_raw \<Rightarrow>
          (case core_align_up E total_raw (cx_page_size c) of
             None \<Rightarrow> (NULL, m, c)
           | Some total_aligned \<Rightarrow>
               (case free_list_pop m (cx_large_pool c) of (block, fl) \<Rightarrow>
                  if block \<noteq> NULL then
                    (if large_meta_total_size m block \<ge> total_aligned
                     then (block + LARGE_META_SIZE, set_large_meta_user_size m block user_size,
                           c\<lparr>cx_large_pool := fl\<rparr>)
                     else case free_list_push m fl block of (m1, fl1) \<Rightarrow>
                            bump_large m1 (c\<lparr>cx_large_pool := fl1\<rparr>) user_size total_aligned)
                  else bump_large m (c\<lparr>cx_large_pool := fl\<rparr>) user_size total_aligned)))"

definition free_large :: "mem \<Rightarrow> bc_context \<Rightarrow> u64 \<Rightarrow> mem \<times> bc_context" where
  "free_large m c user_ptr =
     (let block = user_ptr - LARGE_META_SIZE;
          m1 = set_large_meta_user_size m block 0
      in case free_list_push m1 (cx_large_pool c) block of (m2, fl) \<Rightarrow>
           (m2, c\<lparr>cx_large_pool := fl\<rparr>))"

section \<open>Statistics and pointer classification\<close>

definition track_alloc :: "bc_context \<Rightarrow> u64 \<Rightarrow> bc_context" where
  "track_alloc c bytes =
     (if \<not> cx_tracking_enabled c then c
      else c\<lparr>cx_pool_alloc_count := cx_pool_alloc_count c + 1,
             cx_pool_active_bytes := cx_pool_active_bytes c + bytes\<rparr>)"

definition track_free :: "bc_context \<Rightarrow> u64 \<Rightarrow> bc_context" where
  "track_free c bytes =
     (if \<not> cx_tracking_enabled c then c
      else c\<lparr>cx_pool_free_count := cx_pool_free_count c + 1,
             cx_pool_active_bytes := cx_pool_active_bytes c - bytes\<rparr>)"

definition ptr_in_region :: "bc_context \<Rightarrow> u64 \<Rightarrow> bool" where
  "ptr_in_region c p =
     (let base = rg_base (cx_region c) in p \<ge> base \<and> p < base + rg_total_size (cx_region c))"

definition page_class_of :: "mem \<Rightarrow> bc_context \<Rightarrow> u64 \<Rightarrow> u8" where
  "page_class_of m c ptr =
     (let offset = ptr - rg_base (cx_region c);
          page_idx = drop_bit (unat (cx_page_shift c)) offset
      in m (rg_page_class (cx_region c) + page_idx))"

definition get_usable_size :: "mem \<Rightarrow> bc_context \<Rightarrow> u64 \<Rightarrow> u64 \<times> bool" where
  "get_usable_size m c ptr =
     (let cls = page_class_of m c ptr
      in if unat cls < NUM_CLASSES then (bc_allocators_class_sizes ! unat cls, False)
         else (large_meta_user_size m (ptr - LARGE_META_SIZE), True))"

section \<open>The public operations\<close>

definition bc_allocators_pool_allocate ::
  "env \<Rightarrow> mem \<Rightarrow> bc_context \<Rightarrow> u64 \<Rightarrow> u64 option \<times> mem \<times> bc_context" where
  "bc_allocators_pool_allocate E m c sz =
     (if sz = 0 then (None, m, c)
      else
        let original_class = size_class_for_size E sz
        in if original_class = -1 then
             (case allocate_large E m c sz of (user_ptr, m1, c1) \<Rightarrow>
                if user_ptr = NULL then (None, m1, c1)
                else (Some user_ptr, m1, track_alloc c1 sz))
           else
             let cls = nat original_class; class_size = bc_allocators_class_sizes ! cls
             in case free_list_pop m (cx_pools c ! cls) of (block, fl) \<Rightarrow>
                  let c1 = c\<lparr>cx_pools := (cx_pools c)[cls := fl]\<rparr>
                  in if block \<noteq> NULL then (Some block, m, track_alloc c1 class_size)
                     else
                       (case bump_allocate_class E m c1 cls of (block, m2, c2) \<Rightarrow>
                          if block = NULL then (None, m2, c2)
                          else (Some block, m2, track_alloc c2 class_size)))"

definition bc_allocators_pool_free :: "mem \<Rightarrow> bc_context \<Rightarrow> u64 \<Rightarrow> mem \<times> bc_context" where
  "bc_allocators_pool_free m c ptr =
     (if \<not> ptr_in_region c ptr then (m, c)
      else
        let cls = page_class_of m c ptr
        in if unat cls < NUM_CLASSES then
             (case free_list_push m (cx_pools c ! unat cls) ptr of (m1, fl) \<Rightarrow>
                (m1, track_free (c\<lparr>cx_pools := (cx_pools c)[unat cls := fl]\<rparr>)
                       (bc_allocators_class_sizes ! unat cls)))
           else if cls = PAGE_CLASS_LARGE then
             let user_size = large_meta_user_size m (ptr - LARGE_META_SIZE)
             in case free_large m c ptr of (m1, c1) \<Rightarrow> (m1, track_free c1 user_size)
           else (m, c))"

text \<open>
  The last part of \<^verbatim>\<open>bc_allocators_pool_reallocate\<close>, reached when the block cannot stay: allocate,
  copy, free.
\<close>

definition reallocate_move ::
  "env \<Rightarrow> mem \<Rightarrow> bc_context \<Rightarrow> u64 \<Rightarrow> u64 \<Rightarrow> u64 \<Rightarrow> u64 option \<times> mem \<times> bc_context" where
  "reallocate_move E m c ptr old_usable new_size =
     (case bc_allocators_pool_allocate E m c new_size of
        (None, m1, c1) \<Rightarrow> (None, m1, c1)
      | (Some new_ptr, m1, c1) \<Rightarrow>
          let copy_size = (if old_usable < new_size then old_usable else new_size);
              m2 = core_copy E m1 new_ptr ptr copy_size
          in case bc_allocators_pool_free m2 c1 ptr of (m3, c3) \<Rightarrow> (Some new_ptr, m3, c3))"

definition bc_allocators_pool_reallocate ::
  "env \<Rightarrow> mem \<Rightarrow> bc_context \<Rightarrow> u64 \<Rightarrow> u64 \<Rightarrow> u64 option \<times> mem \<times> bc_context" where
  "bc_allocators_pool_reallocate E m c ptr new_size =
     (if new_size = 0 then (None, m, c)
      else if ptr = NULL then bc_allocators_pool_allocate E m c new_size
      else case get_usable_size m c ptr of (old_usable, old_is_large) \<Rightarrow>
        let new_cls = size_class_for_size E new_size
        in if \<not> old_is_large \<and> new_cls \<ge> 0 \<and> page_class_of m c ptr = of_int new_cls
           then (Some ptr, m, c)
           else if old_is_large \<and> new_cls = -1 then
             let old_block = ptr - LARGE_META_SIZE;
                 old_total = large_meta_total_size m old_block
             in (case core_safe_add E LARGE_META_SIZE new_size of
                   None \<Rightarrow> (None, m, c)
                 | Some new_total_raw \<Rightarrow>
                     (case core_align_up E new_total_raw (cx_page_size c) of
                        None \<Rightarrow> (None, m, c)
                      | Some new_total \<Rightarrow>
                          if new_total \<le> old_total then
                            let old_user_size = large_meta_user_size m old_block
                            in (Some ptr, set_large_meta_user_size m old_block new_size,
                                if cx_tracking_enabled c
                                then c\<lparr>cx_pool_active_bytes :=
                                         cx_pool_active_bytes c - old_user_size + new_size\<rparr>
                                else c)
                          else reallocate_move E m c ptr old_usable new_size))
           else reallocate_move E m c ptr old_usable new_size)"

end
