(* ===== verification/BC_Size_Class.thy ===== *)
theory BC_Size_Class
  imports BC_Pool
begin

text \<open>
  Size classes: the table holds the powers of two from 16 to 4 MiB, and the bit-counting
  \<^verbatim>\<open>size_class_for_size\<close> computes the first entry of the table that is large enough.
\<close>

abbreviation class_bytes :: "nat \<Rightarrow> nat" where
  "class_bytes k \<equiv> 2 ^ (k + 4)"

lemma length_class_sizes [simp]: "length bc_allocators_class_sizes = 19"
  by (simp add: bc_allocators_class_sizes_def)

lemma class_sizes_nth:
  assumes "k < 19"
  shows "bc_allocators_class_sizes ! k = 2 ^ (k + 4)"
proof -
  have "\<forall>k \<in> set [0..<19]. bc_allocators_class_sizes ! k = 2 ^ (k + 4)"
    by (simp add: bc_allocators_class_sizes_def upt_rec)
  then show ?thesis using assms by simp
qed

lemma class_bytes_le: "k < 19 \<Longrightarrow> class_bytes k \<le> 4194304"
  using power_increasing [of "k + 4" 22 "2 :: nat"] by simp

lemma unat_class_size [simp]:
  assumes "k < 19"
  shows "unat (bc_allocators_class_sizes ! k) = class_bytes k"
proof -
  have "bc_allocators_class_sizes ! k = of_nat (class_bytes k)" using assms by (simp add: class_sizes_nth)
  moreover have "class_bytes k < 18446744073709551616" using class_bytes_le [OF assms] by simp
  ultimately show ?thesis by (simp only: unat_of_nat_no_wrap)
qed

text \<open>The reference: the first class of the table whose blocks hold \<open>sz\<close> bytes.\<close>

definition first_fit_class :: "u64 \<Rightarrow> nat" where
  "first_fit_class sz = length (takeWhile (\<lambda>s. s < sz) bc_allocators_class_sizes)"

lemma first_fit_class_eqI:
  assumes "k < 19" "unat sz \<le> class_bytes k" "k = 0 \<or> class_bytes (k - 1) < unat sz"
  shows "first_fit_class sz = k"
proof -
  have "takeWhile (\<lambda>s. s < sz) bc_allocators_class_sizes = take k bc_allocators_class_sizes"
  proof (rule takeWhile_eq_take_P_nth)
    fix i assume i: "i < k" "i < length bc_allocators_class_sizes"
    then have "class_bytes i \<le> class_bytes (k - 1)" by (intro power_increasing) auto
    also have "\<dots> < unat sz" using assms(3) i by auto
    finally show "bc_allocators_class_sizes ! i < sz"
      using i assms(1) by (simp add: word_less_nat_alt)
  next
    assume "k < length bc_allocators_class_sizes"
    then show "\<not> bc_allocators_class_sizes ! k < sz" using assms by (simp add: word_less_nat_alt)
  qed
  then show ?thesis using assms(1) by (simp add: first_fit_class_def)
qed

lemma first_fit_class_too_big:
  assumes "MAX_CLASS_SIZE < sz"
  shows "first_fit_class sz = 19"
proof -
  have "s < sz" if "s \<in> set bc_allocators_class_sizes" for s
  proof -
    have "unat s \<le> 4194304" using that class_bytes_le by (auto simp: in_set_conv_nth)
    then show ?thesis using assms by (simp add: MAX_CLASS_SIZE_def word_less_nat_alt)
  qed
  then have eq: "takeWhile (\<lambda>s. s < sz) bc_allocators_class_sizes = bc_allocators_class_sizes"
    by (simp add: takeWhile_eq_all_conv)
  show ?thesis unfolding first_fit_class_def eq by simp
qed

context bc_core
begin

lemma size_class_bounds:
  assumes "unat sz \<le> 4194304"
  obtains k where "size_class_for_size E sz = int k" "k < 19" "unat sz \<le> class_bytes k"
    "k = 0 \<or> class_bytes (k - 1) < unat sz"
proof (cases "unat sz \<le> 16")
  case True
  have "size_class_for_size E sz = int 0"
    using True assms by (simp add: size_class_for_size_def MAX_CLASS_SIZE_def word_less_nat_alt word_le_nat_alt)
  then show thesis using that [of 0] True by simp
next
  case False
  define z where "z = core_clz_u64 E (sz - 1)"
  have v: "unat (sz - 1) = unat sz - 1" using False by (simp add: no_wrap)
  then have "sz - 1 \<noteq> 0" using False by auto
  then have z: "z < 64" "2 ^ (63 - z) \<le> unat sz - 1" "unat sz - 1 < 2 ^ (64 - z)"
    using clz [of "sz - 1"] v by (auto simp: z_def)
  have "\<not> 2 ^ (64 - z) \<le> (2 ^ 4 :: nat)" using z(3) False by simp
  then have "4 < 64 - z" using power_increasing [of "64 - z" 4 "2 :: nat"] by force
  have "\<not> (2 ^ 22 :: nat) \<le> 2 ^ (63 - z)" using z(2) assms False by simp
  then have "63 - z < 22" using power_increasing [of 22 "63 - z" "2 :: nat"] by force
  have "size_class_for_size E sz = int (60 - z)"
    using False assms \<open>4 < 64 - z\<close> by (simp add: size_class_for_size_def MAX_CLASS_SIZE_def
        word_less_nat_alt word_le_nat_alt Let_def z_def [symmetric])
  moreover have "60 - z + 4 = 64 - z" "60 - z - 1 + 4 = 63 - z" "60 - z < 19"
    using \<open>4 < 64 - z\<close> \<open>63 - z < 22\<close> by auto
  ultimately show thesis using z False by (intro that [of "60 - z"]) auto
qed

lemma size_class_too_big: "4194304 < unat sz \<Longrightarrow> size_class_for_size E sz = -1"
  by (simp add: size_class_for_size_def MAX_CLASS_SIZE_def word_less_nat_alt)

lemma size_class_first_fit:
  "size_class_for_size E sz =
     (if first_fit_class sz < NUM_CLASSES then int (first_fit_class sz) else -1)"
proof (cases "unat sz \<le> 4194304")
  case True
  then show ?thesis
    using size_class_bounds [OF True] first_fit_class_eqI [of _ sz] by (metis NUM_CLASSES_def)
next
  case False
  then show ?thesis
    by (simp add: size_class_too_big first_fit_class_too_big NUM_CLASSES_def MAX_CLASS_SIZE_def
        word_less_nat_alt)
qed

end

end
