(* ===== verification/BC_Pool_Inv.thy ===== *)
theory BC_Pool_Inv
  imports BC_Size_Class
begin

text \<open>
  The invariant of the pool. A block is an address the pool has carved out of its region: the
  blocks are the free ones (in the 19 class lists and the large list, numbered 19) and the live ones
  \<open>L\<close>, handed out and not yet freed. \<open>pool_core\<close> says that the region and its page-tag table have the
  shape \<open>context_create\<close> gives them, that the 20 lists hold the blocks \<open>F k\<close>, each tagged with the
  class of its list, and that the extents of all blocks lie in the bumped part of the region and
  are pairwise apart. The lemmas are the four moves every pool operation is made of: taking a block
  from a list, putting one back, putting back a run of them, and adding fresh pages.
\<close>

section \<open>Geometry\<close>

abbreviation pool_base :: "bc_context \<Rightarrow> nat" where
  "pool_base c \<equiv> unat (rg_base (cx_region c))"

abbreviation pool_bump :: "bc_context \<Rightarrow> nat" where
  "pool_bump c \<equiv> unat (rg_bump (cx_region c))"

abbreviation pool_total :: "bc_context \<Rightarrow> nat" where
  "pool_total c \<equiv> unat (rg_total_size (cx_region c))"

abbreviation pool_page :: "bc_context \<Rightarrow> nat" where
  "pool_page c \<equiv> unat (cx_page_size c)"

abbreviation pool_table :: "bc_context \<Rightarrow> u64" where
  "pool_table c \<equiv> rg_page_class (cx_region c)"

definition pool_geometry :: "bc_context \<Rightarrow> bool" where
  "pool_geometry c \<longleftrightarrow>
     12 \<le> unat (cx_page_shift c) \<and> unat (cx_page_shift c) \<le> 20 \<and>
     pool_page c = 2 ^ unat (cx_page_shift c) \<and> length (cx_pools c) = 19 \<and>
     4096 \<le> pool_base c \<and> pool_base c + pool_total c \<le> 140737488355328 \<and>
     pool_page c dvd pool_base c \<and> pool_page c dvd pool_total c \<and> pool_page c dvd pool_bump c \<and>
     pool_bump c \<le> pool_total c \<and>
     unat (pool_table c) + pool_total c div pool_page c \<le> 140737488355328 \<and>
     apart (rg_base (cx_region c)) (pool_total c) (pool_table c) (pool_total c div pool_page c)"

definition pool_list :: "bc_context \<Rightarrow> nat \<Rightarrow> free_list" where
  "pool_list c k = (if k = 19 then cx_large_pool c else cx_pools c ! k)"

definition set_pool_list :: "bc_context \<Rightarrow> nat \<Rightarrow> free_list \<Rightarrow> bc_context" where
  "set_pool_list c k fl =
     (if k = 19 then c\<lparr>cx_large_pool := fl\<rparr> else c\<lparr>cx_pools := (cx_pools c)[k := fl]\<rparr>)"

definition list_tag :: "nat \<Rightarrow> u8" where
  "list_tag k = (if k = 19 then PAGE_CLASS_LARGE else of_nat k)"

definition block_class :: "mem \<Rightarrow> bc_context \<Rightarrow> u64 \<Rightarrow> nat" where
  "block_class m c b = unat (page_class_of m c b)"

definition block_bytes :: "mem \<Rightarrow> bc_context \<Rightarrow> u64 \<Rightarrow> nat" where
  "block_bytes m c b =
     (if block_class m c b < 19 then class_bytes (block_class m c b)
      else unat (large_meta_total_size m b))"

definition block_ok :: "mem \<Rightarrow> bc_context \<Rightarrow> u64 \<Rightarrow> bool" where
  "block_ok m c b \<longleftrightarrow>
     pool_base c \<le> unat b \<and> unat b + block_bytes m c b \<le> pool_base c + pool_bump c \<and>
     (if block_class m c b < 19 then min (class_bytes (block_class m c b)) (pool_page c) dvd unat b
      else page_class_of m c b = PAGE_CLASS_LARGE \<and> pool_page c dvd unat b \<and>
           pool_page c dvd block_bytes m c b \<and> pool_page c \<le> block_bytes m c b)"

definition free_blocks :: "(nat \<Rightarrow> u64 list) \<Rightarrow> u64 set" where
  "free_blocks F = (\<Union>k < 20. set (F k))"

lemma free_blocksI: "b \<in> set (F k) \<Longrightarrow> k < 20 \<Longrightarrow> b \<in> free_blocks F"
  by (auto simp: free_blocks_def)

definition blocks_apart :: "mem \<Rightarrow> bc_context \<Rightarrow> u64 set \<Rightarrow> bool" where
  "blocks_apart m c = pairwise (\<lambda>b b'. apart b (block_bytes m c b) b' (block_bytes m c b'))"

definition pool_core :: "mem \<Rightarrow> bc_context \<Rightarrow> (nat \<Rightarrow> u64 list) \<Rightarrow> u64 set \<Rightarrow> bool" where
  "pool_core m c F L \<longleftrightarrow>
     pool_geometry c \<and> finite L \<and> free_blocks F \<inter> L = {} \<and>
     (\<forall>k < 20. magazine_rep m (pool_list c k) (F k) \<and> distinct (F k) \<and>
        (\<forall>b \<in> set (F k). page_class_of m c b = list_tag k)) \<and>
     (\<forall>b \<in> free_blocks F \<union> L. block_ok m c b) \<and> blocks_apart m c (free_blocks F \<union> L)"

section \<open>Context updates that the pool invariant does not see\<close>

lemma set_pool_list_sel [simp]:
  "cx_region (set_pool_list c k fl) = cx_region c"
  "cx_page_size (set_pool_list c k fl) = cx_page_size c"
  "cx_page_shift (set_pool_list c k fl) = cx_page_shift c"
  "length (cx_pools (set_pool_list c k fl)) = length (cx_pools c)"
  "cx_tracking_enabled (set_pool_list c k fl) = cx_tracking_enabled c"
  by (simp_all add: set_pool_list_def)

lemma pool_list_set [simp]:
  "length (cx_pools c) = 19 \<Longrightarrow> k < 20 \<Longrightarrow>
   pool_list (set_pool_list c k fl) j = (if j = k then fl else pool_list c j)"
  by (auto simp: pool_list_def set_pool_list_def nth_list_update)

lemma set_pool_list_twice [simp]:
  "set_pool_list (set_pool_list c k fl) k fl' = set_pool_list c k fl'"
  by (simp add: set_pool_list_def)

lemma page_class_of_set [simp]: "page_class_of m (set_pool_list c k fl) b = page_class_of m c b"
  by (simp add: page_class_of_def)

lemma block_class_set [simp]: "block_class m (set_pool_list c k fl) b = block_class m c b"
  by (simp add: block_class_def)

lemma block_bytes_set [simp]: "block_bytes m (set_pool_list c k fl) b = block_bytes m c b"
  by (simp add: block_bytes_def)

lemma block_ok_set [simp]: "block_ok m (set_pool_list c k fl) b = block_ok m c b"
  by (simp add: block_ok_def)

lemma blocks_apart_set [simp]: "blocks_apart m (set_pool_list c k fl) B = blocks_apart m c B"
  by (simp add: blocks_apart_def)

lemma pool_geometry_set [simp]: "pool_geometry (set_pool_list c k fl) = pool_geometry c"
  by (simp add: pool_geometry_def)

lemma list_tag_inj: "j < 20 \<Longrightarrow> k < 20 \<Longrightarrow> list_tag j = list_tag k \<longleftrightarrow> j = k"
proof -
  assume jk: "j < 20" "k < 20"
  have u: "unat (list_tag i) = (if i = 19 then 254 else i)" if "i < 20" for i
    using that by (auto simp: list_tag_def PAGE_CLASS_LARGE_def unat_of_nat)
  show ?thesis
  proof
    assume "list_tag j = list_tag k"
    then have "(if j = 19 then 254 else j) = (if k = 19 then 254 else k)" by (metis u jk)
    then show "j = k" using jk by (auto split: if_splits)
  qed simp
qed

section \<open>The page-tag table\<close>

definition tag_addr :: "bc_context \<Rightarrow> u64 \<Rightarrow> u64" where
  "tag_addr c b =
     pool_table c + drop_bit (unat (cx_page_shift c)) (b - rg_base (cx_region c))"

lemma page_class_of_tag: "page_class_of m c b = m (tag_addr c b)"
  by (simp add: page_class_of_def tag_addr_def Let_def)

lemma pool_page_pos: "pool_geometry c \<Longrightarrow> 4096 \<le> pool_page c"
  using power_increasing [of 12 "unat (cx_page_shift c)" "2 :: nat"] by (simp add: pool_geometry_def)

lemma unat_tag_addr:
  assumes "pool_geometry c" "pool_base c \<le> unat b" "unat b \<le> pool_base c + pool_total c"
  shows "unat (tag_addr c b) = unat (pool_table c) + (unat b - pool_base c) div pool_page c"
proof -
  have o: "unat (b - rg_base (cx_region c)) = unat b - pool_base c"
    using assms(2) by (rule unat_sub_no_wrap)
  have d: "unat (drop_bit (unat (cx_page_shift c)) (b - rg_base (cx_region c)))
      = (unat b - pool_base c) div pool_page c"
    using assms(1) by (simp add: unat_drop_bit_u64 o pool_geometry_def del: drop_bit_eq_div)
  have "(unat b - pool_base c) div pool_page c \<le> pool_total c div pool_page c"
    using assms by (intro div_le_mono) simp
  then show ?thesis
    using assms(1) unfolding tag_addr_def by (subst unat_add_no_wrap) (auto simp: d pool_geometry_def)
qed

definition used_tags :: "bc_context \<Rightarrow> u64 set" where
  "used_tags c = area (pool_table c) (pool_bump c div pool_page c)"

lemma tag_addr_used:
  assumes "pool_geometry c" "pool_base c \<le> unat b" "unat b < pool_base c + pool_bump c"
  shows "tag_addr c b \<in> used_tags c"
proof -
  have "(unat b - pool_base c) div pool_page c < pool_bump c div pool_page c"
    using assms by (intro div_less_div_dvd) (auto simp: pool_geometry_def)
  moreover have "unat b \<le> pool_base c + pool_total c"
    using assms(1,3) by (simp add: pool_geometry_def)
  ultimately show ?thesis
    using unat_tag_addr [OF assms(1,2)] by (simp add: used_tags_def)
qed

lemma used_tags_outside_region:
  assumes "pool_geometry c" "a \<in> used_tags c"
  shows "\<not> (pool_base c \<le> unat a \<and> unat a < pool_base c + pool_total c)"
proof -
  have "pool_bump c div pool_page c \<le> pool_total c div pool_page c"
    using assms(1) by (intro div_le_mono) (simp add: pool_geometry_def)
  then show ?thesis using assms by (auto simp: pool_geometry_def used_tags_def apart_def)
qed

lemma fold_table_upd:
  "fold (\<lambda>p m. m(f p := v)) ps m a = (if a \<in> f ` set ps then v else m a)"
  by (induction ps arbitrary: m) auto

text \<open>Tagging the pages of a page-aligned run of the region.\<close>

lemma tag_page_class_apply:
  assumes g: "pool_geometry c" and al: "pool_page c dvd unat off" "pool_page c dvd unat n" "0 < unat n"
    and le: "unat off + unat n \<le> pool_total c"
  shows "tag_page_class m c off n v a =
    (if a \<in> area (pool_table c + of_nat (unat off div pool_page c)) (unat n div pool_page c)
     then v else m a)"
proof -
  define pg where "pg = pool_page c"
  define s where "s = unat off div pg"
  define k where "k = unat n div pg"
  have pg: "0 < pg" "pg = 2 ^ unat (cx_page_shift c)"
    using pool_page_pos [OF g] g by (auto simp: pg_def pool_geometry_def)
  have off: "unat off = s * pg" and n: "unat n = k * pg" using al by (auto simp: s_def k_def pg_def)
  have k: "0 < k" using al(3) n by simp
  have tot: "pool_total c < 140737488355328" "unat (pool_table c) + pool_total c div pg \<le> 140737488355328"
    using g by (auto simp: pool_geometry_def pg_def)
  have sum: "unat (off + n) = (s + k) * pg" using le tot off n by (simp add: no_wrap algebra_simps)
  have last: "unat (off + n - 1) = (s + k) * pg - 1"
    using sum k pg by (subst unat_sub_no_wrap) (auto simp: Suc_le_eq)
  have ends: "unat (drop_bit (unat (cx_page_shift c)) off) = s"
    "unat (drop_bit (unat (cx_page_shift c)) (off + n - 1)) = s + k - 1"
  proof -
    show "unat (drop_bit (unat (cx_page_shift c)) off) = s"
      by (simp only: unat_drop_bit_u64 s_def pg(2))
    have "((s + k) * pg - 1) div pg = s + k - 1"
      using k pg(1) by (simp add: div_nat_eqI algebra_simps)
    then show "unat (drop_bit (unat (cx_page_shift c)) (off + n - 1)) = s + k - 1"
      by (simp only: unat_drop_bit_u64 last pg(2))
  qed
  have range: "[unat (drop_bit (unat (cx_page_shift c)) off)
      ..< Suc (unat (drop_bit (unat (cx_page_shift c)) (off + n - 1)))] = [s ..< s + k]"
    using ends k by simp
  have "s + k \<le> pool_total c div pg" using le off n pg by (simp add: less_eq_div_iff_mult_less_eq algebra_simps)
  then have lim: "unat (pool_table c) + (s + k) \<le> 140737488355328" using tot by linarith
  have up: "unat (pool_table c + of_nat i) = unat (pool_table c) + i" if "i \<le> s + k" for i
    using that lim by (simp add: no_wrap)
  have "a \<in> (\<lambda>p. pool_table c + of_nat p) ` set [s ..< s + k] \<longleftrightarrow>
    a \<in> area (pool_table c + of_nat s) k" (is "?l \<longleftrightarrow> ?r")
  proof
    assume ?l
    then obtain i where "s \<le> i" "i < s + k" "a = pool_table c + of_nat i" by auto
    then show ?r using up [of i] up [of s] by simp
  next
    assume ?r
    then have b: "unat (pool_table c) + s \<le> unat a" "unat a < unat (pool_table c) + s + k"
      using up [of s] by auto
    define i where "i = unat a - unat (pool_table c)"
    have "a = pool_table c + of_nat i" "s \<le> i" "i < s + k"
      using b up [of i] by (auto simp: i_def u64_eq_iff)
    then show ?l by auto
  qed
  then show ?thesis
    unfolding tag_page_class_def tagged_pages_def Let_def range fold_table_upd by (simp add: s_def k_def pg_def)
qed

section \<open>What a block depends on\<close>

lemma page_class_of_cong:
  assumes "pool_geometry c" "agree m m' (used_tags c)" "pool_base c \<le> unat b"
    "unat b < pool_base c + pool_bump c"
  shows "page_class_of m' c b = page_class_of m c b"
  using agreeD [OF assms(2) tag_addr_used [OF assms(1,3,4)]] by (simp add: page_class_of_tag)

lemma block_bytes_ge_16:
  assumes "pool_geometry c" "block_ok m c b"
  shows "16 \<le> block_bytes m c b"
proof (cases "block_class m c b < 19")
  case True
  then show ?thesis using power_increasing [of 4 "block_class m c b + 4" "2 :: nat"]
    by (simp add: block_bytes_def)
next
  case False
  then show ?thesis using assms(2) pool_page_pos [OF assms(1)] by (auto simp: block_ok_def)
qed

lemma block_ok_range:
  assumes "pool_geometry c" "block_ok m c b"
  shows "pool_base c \<le> unat b" "unat b + block_bytes m c b \<le> pool_base c + pool_bump c"
    "unat b < pool_base c + pool_bump c" "unat b + 16 \<le> pool_base c + pool_bump c"
    "unat b + 16 \<le> 140737488355328" "node b"
proof -
  have g: "4096 \<le> pool_base c" "pool_bump c \<le> pool_total c"
    "pool_base c + pool_total c \<le> 140737488355328"
    using assms(1) by (auto simp: pool_geometry_def)
  show r: "pool_base c \<le> unat b" "unat b + block_bytes m c b \<le> pool_base c + pool_bump c"
    using assms(2) by (auto simp: block_ok_def)
  then show l: "unat b < pool_base c + pool_bump c" "unat b + 16 \<le> pool_base c + pool_bump c"
    using block_bytes_ge_16 [OF assms] by auto
  then show l2: "unat b + 16 \<le> 140737488355328" using g by linarith
  show "node b" using r(1) g(1) l2 by (auto simp: node_def)
qed

lemma block_class_cong:
  assumes "pool_geometry c" "agree m m' (used_tags c)" "block_ok m c b"
  shows "page_class_of m' c b = page_class_of m c b" "block_class m' c b = block_class m c b"
  using page_class_of_cong [OF assms(1,2)] block_ok_range [OF assms(1,3)] by (auto simp: block_class_def)

lemma block_bytes_cong:
  assumes "pool_geometry c" "agree m m' (used_tags c)" "block_ok m c b"
    "block_class m c b < 19 \<or> agree m m' (area (b + 8) 8)"
  shows "block_bytes m' c b = block_bytes m c b"
proof (cases "block_class m c b < 19")
  case True
  then show ?thesis using block_class_cong [OF assms(1-3)] by (simp add: block_bytes_def)
next
  case False
  then have ag: "agree m m' (area (b + 8) 8)" using assms(4) by simp
  have "unat (b + 8) + 8 \<le> 18446744073709551616"
    using block_ok_range(5) [OF assms(1,3)] by (simp add: no_wrap)
  then have "load64 m' (b + 8) = load64 m (b + 8)" using ag by (intro load64_cong)
  then show ?thesis using block_class_cong [OF assms(1-3)] False by (simp add: block_bytes_def)
qed

lemma block_ok_cong:
  assumes "pool_geometry c" "agree m m' (used_tags c)" "block_ok m c b"
    "block_class m c b < 19 \<or> agree m m' (area (b + 8) 8)"
  shows "block_ok m' c b"
  using assms(3) block_class_cong [OF assms(1-3)] block_bytes_cong [OF assms]
  by (simp add: block_ok_def)

text \<open>
  The bytes the pool keeps for itself: the tags of the pages in use, the first 16 bytes of every
  free block, the size fields of every live large block.
\<close>

lemma pool_core_agree:
  assumes core: "pool_core m c F L" and tags: "agree m m' (used_tags c)"
    and free: "\<And>b. b \<in> free_blocks F \<Longrightarrow> agree m m' (area b 16)"
    and live: "\<And>b. b \<in> L \<Longrightarrow> block_class m c b < 19 \<or> agree m m' (area (b + 8) 8)"
  shows "pool_core m' c F L"
    and "\<And>b. b \<in> free_blocks F \<union> L \<Longrightarrow> page_class_of m' c b = page_class_of m c b"
    and "\<And>b. b \<in> free_blocks F \<union> L \<Longrightarrow> block_bytes m' c b = block_bytes m c b"
proof -
  from core have g: "pool_geometry c" and ok: "\<And>b. b \<in> free_blocks F \<union> L \<Longrightarrow> block_ok m c b"
    by (auto simp: pool_core_def)
  have hi: "block_class m c b < 19 \<or> agree m m' (area (b + 8) 8)" if "b \<in> free_blocks F \<union> L" for b
  proof (cases "b \<in> L")
    case False
    then have "agree m m' (area b 16)" using that free by blast
    moreover have "area (b + 8) 8 \<subseteq> area b 16"
      using block_ok_range(5) [OF g ok [OF that]] by (auto simp: no_wrap)
    ultimately show ?thesis using agree_subset by blast
  qed (rule live)
  show cls: "page_class_of m' c b = page_class_of m c b" if "b \<in> free_blocks F \<union> L" for b
    using block_class_cong [OF g tags ok [OF that]] by simp
  show bytes: "block_bytes m' c b = block_bytes m c b" if "b \<in> free_blocks F \<union> L" for b
    using block_bytes_cong [OF g tags ok hi] that by blast
  have "magazine_rep m' (pool_list c k) (F k)" if "k < 20" for k
  proof (rule magazine_rep_frame)
    show "magazine_rep m (pool_list c k) (F k)" using core that by (simp add: pool_core_def)
    show "agree m m' (area x 8)" if "x \<in> set (F k)" for x
      using free [of x] that \<open>k < 20\<close> agree_subset [OF _ area_mono [of 8 16 x]]
      by (auto simp: free_blocks_def)
  qed
  moreover have "blocks_apart m' c (free_blocks F \<union> L)"
    using core bytes by (auto simp: pool_core_def blocks_apart_def pairwise_def)
  moreover have "block_ok m' c b" if "b \<in> free_blocks F \<union> L" for b
    using block_ok_cong [OF g tags ok hi] that by blast
  moreover have "page_class_of m' c b = list_tag k" if "k < 20" "b \<in> set (F k)" for k b
    using core cls [of b] free_blocksI [of b F k] that by (auto simp: pool_core_def)
  ultimately show "pool_core m' c F L"
    using core by (simp add: pool_core_def)
qed

text \<open>
  A write inside the extent of one live block, away from the \<open>total_size\<close> field of a large one,
  keeps the invariant and every block's class and extent.
\<close>

lemma pool_core_write:
  assumes core: "pool_core m c F L" and b: "b \<in> L" and out: "agree m m' (- A)"
    and A: "A \<subseteq> area b (block_bytes m c b)"
    and large: "block_class m c b < 19 \<or> A \<inter> area (b + 8) 8 = {}"
  shows "pool_core m' c F L"
    and "\<And>x. x \<in> free_blocks F \<union> L \<Longrightarrow> page_class_of m' c x = page_class_of m c x"
    and "\<And>x. x \<in> free_blocks F \<union> L \<Longrightarrow> block_bytes m' c x = block_bytes m c x"
proof -
  from core have g: "pool_geometry c" and ok: "\<And>x. x \<in> free_blocks F \<union> L \<Longrightarrow> block_ok m c x"
    and ap: "blocks_apart m c (free_blocks F \<union> L)" and dis: "free_blocks F \<inter> L = {}"
    by (auto simp: pool_core_def)
  have off: "agree m m' B" if "B \<inter> A = {}" for B
    using out that by (auto simp: agree_def)
  have "used_tags c \<inter> A = {}"
  proof -
    have "pool_bump c \<le> pool_total c" using g by (simp add: pool_geometry_def)
    then have "pool_base c \<le> unat a \<and> unat a < pool_base c + pool_total c" if "a \<in> A" for a
      using A that block_ok_range(1,2) [OF g ok [of b]] b by fastforce
    then show ?thesis using used_tags_outside_region [OF g] by blast
  qed
  then have tags: "agree m m' (used_tags c)" by (rule off)
  have sep: "area x 16 \<inter> A = {}" if "x \<in> free_blocks F \<union> L" "x \<noteq> b" for x
  proof -
    have "apart x (block_bytes m c x) b (block_bytes m c b)"
      using ap that b by (auto simp: blocks_apart_def pairwise_def)
    then have "area x (block_bytes m c x) \<inter> area b (block_bytes m c b) = {}"
      by (rule apart_disjoint)
    moreover have "area x 16 \<subseteq> area x (block_bytes m c x)"
      using block_bytes_ge_16 [OF g ok [OF that(1)]] by (rule area_mono)
    ultimately show ?thesis using A by blast
  qed
  have free: "agree m m' (area x 16)" if "x \<in> free_blocks F" for x
    using sep [of x] that dis b by (intro off) blast
  have live: "block_class m c x < 19 \<or> agree m m' (area (x + 8) 8)" if "x \<in> L" for x
  proof (cases "x = b")
    case True
    then show ?thesis using large off by blast
  next
    case False
    have "area (x + 8) 8 \<subseteq> area x 16"
      using block_ok_range(5) [OF g ok [of x]] that by (auto simp: no_wrap)
    then show ?thesis using sep [of x] False that by (intro disjI2 off) blast
  qed
  show "pool_core m' c F L"
    and "\<And>x. x \<in> free_blocks F \<union> L \<Longrightarrow> page_class_of m' c x = page_class_of m c x"
    and "\<And>x. x \<in> free_blocks F \<union> L \<Longrightarrow> block_bytes m' c x = block_bytes m c x"
    using pool_core_agree [OF core tags free live] by blast+
qed

section \<open>Moving blocks between the lists and the client\<close>

lemma free_blocks_upd:
  "k < 20 \<Longrightarrow> free_blocks (F(k := ys)) = set ys \<union> (\<Union>j \<in> {..<20} - {k}. set (F j))"
  by (auto simp: free_blocks_def split: if_splits)

lemma free_blocks_split:
  "k < 20 \<Longrightarrow> free_blocks F = set (F k) \<union> (\<Union>j \<in> {..<20} - {k}. set (F j))"
  using free_blocks_upd [of k F "F k"] by simp

lemma free_blocks_insert:
  assumes "k < 20" "set ys = insert b (set (F k))"
  shows "free_blocks (F(k := ys)) = insert b (free_blocks F)"
  unfolding free_blocks_upd [OF assms(1)] free_blocks_split [OF assms(1), of F] assms(2) by simp

lemma pool_core_other_lists:
  assumes "pool_core m c F L" "k < 20" "page_class_of m c b = list_tag k"
  shows "b \<notin> (\<Union>j \<in> {..<20} - {k}. set (F j))"
  using assms list_tag_inj by (auto simp: pool_core_def)

lemma pool_core_relist:
  assumes core: "pool_core m c F L" and k: "k < 20" and rep: "magazine_rep m fl ys"
    and ys: "distinct ys" "\<And>b. b \<in> set ys \<Longrightarrow> page_class_of m c b = list_tag k"
    and same: "free_blocks (F(k := ys)) \<union> L' = free_blocks F \<union> L"
    and dis: "free_blocks (F(k := ys)) \<inter> L' = {}"
  shows "pool_core m (set_pool_list c k fl) (F(k := ys)) L'"
proof -
  have "finite (free_blocks F \<union> L)" using core by (simp add: pool_core_def free_blocks_def)
  then have "finite L'" by (metis same finite_Un)
  moreover have "length (cx_pools c) = 19" using core by (simp add: pool_core_def pool_geometry_def)
  ultimately show ?thesis
    using core k rep ys dis unfolding pool_core_def same by (simp add: same)
qed

lemma pool_core_take:
  assumes core: "pool_core m c F L" and k: "k < 20"
    and pop: "free_list_pop m (pool_list c k) = (b, fl)" and b: "b \<noteq> NULL"
  obtains ys where "pool_core m (set_pool_list c k fl) (F(k := ys)) (insert b L)"
    "b \<in> set (F k)" "set ys = set (F k) - {b}"
proof -
  from core k have rep: "magazine_rep m (pool_list c k) (F k)" and d: "distinct (F k)"
    and t: "\<And>x. x \<in> set (F k) \<Longrightarrow> page_class_of m c x = list_tag k"
    by (auto simp: pool_core_def)
  obtain ys where ys: "magazine_rep m fl ys" "mset (F k) = add_mset b (mset ys)" "b \<in> set (F k)"
    using magazine.pop_member [OF rep pop b] .
  have "distinct (b # ys)" using d ys(2) by (metis mset.simps(2) mset_eq_imp_distinct_iff)
  moreover have "set (F k) = insert b (set ys)" using ys(2) by (metis set_mset_add_mset_insert set_mset_mset)
  ultimately have y: "distinct ys" "b \<notin> set ys" "set ys = set (F k) - {b}" by auto
  have nb: "b \<notin> (\<Union>j \<in> {..<20} - {k}. set (F j))"
    using pool_core_other_lists [OF core k t [OF ys(3)]] .
  have "pool_core m (set_pool_list c k fl) (F(k := ys)) (insert b L)"
  proof (rule pool_core_relist [OF core k ys(1) y(1)])
    show "page_class_of m c x = list_tag k" if "x \<in> set ys" for x using t that y(3) by blast
    show "free_blocks (F(k := ys)) \<union> insert b L = free_blocks F \<union> L"
      using ys(3) unfolding free_blocks_upd [OF k] free_blocks_split [OF k, of F] y(3) by blast
    show "free_blocks (F(k := ys)) \<inter> insert b L = {}"
      using core nb unfolding pool_core_def free_blocks_upd [OF k] free_blocks_split [OF k, of F] y(3)
      by blast
  qed
  then show thesis using that ys(3) y(3) by blast
qed

lemma pool_core_put:
  assumes core: "pool_core m c F L" and k: "k < 20" and b: "b \<in> L" "page_class_of m c b = list_tag k"
    and push: "free_list_push m (pool_list c k) b = (m', fl)"
  obtains ys where "pool_core m' (set_pool_list c k fl) (F(k := ys)) (L - {b})"
    "set ys = insert b (set (F k))" "agree m m' (- area b 8)"
    "\<And>x. x \<in> free_blocks F \<union> L \<Longrightarrow> page_class_of m' c x = page_class_of m c x"
    "\<And>x. x \<in> free_blocks F \<union> L \<Longrightarrow> block_bytes m' c x = block_bytes m c x"
proof -
  from core k have g: "pool_geometry c" and rep: "magazine_rep m (pool_list c k) (F k)"
    and d: "distinct (F k)" and t: "\<And>x. x \<in> set (F k) \<Longrightarrow> page_class_of m c x = list_tag k"
    and ok: "\<And>x. x \<in> free_blocks F \<union> L \<Longrightarrow> block_ok m c x"
    and ap: "blocks_apart m c (free_blocks F \<union> L)" and dis: "free_blocks F \<inter> L = {}"
    by (auto simp: pool_core_def)
  note r = block_ok_range [OF g ok [of b]] and b16 = block_bytes_ge_16 [OF g ok [of b]]
  have out: "agree m m' (- area b 8)"
    using magazine.push_frame [OF push] r(6) b(1) by (simp add: agree_def del: in_area)
  have A: "area b 8 \<subseteq> area b (block_bytes m c b)" using b16 b(1) by (intro area_mono) simp
  have "area b 8 \<inter> area (b + 8) 8 = {}" using r(5) b(1) by (auto simp: no_wrap)
  note w = pool_core_write [OF core b(1) out A disjI2 [OF this]]
  have "apart b 8 x 8" if x: "x \<in> set (F k)" for x
  proof -
    have xf: "x \<in> free_blocks F" using x k by (auto simp: free_blocks_def)
    then have "x \<noteq> b" using dis b(1) by blast
    then have "apart b (block_bytes m c b) x (block_bytes m c x)"
      using ap xf b(1) by (auto simp: blocks_apart_def pairwise_def)
    then show ?thesis using b16 b(1) block_bytes_ge_16 [OF g ok [of x]] xf
      by (elim apart_mono) auto
  qed
  then obtain ys where ys: "magazine_rep m' fl ys" "mset ys = add_mset b (mset (F k))"
    using magazine.push_rep [OF rep _ _ push] r(6) b(1) by blast
  have sy: "set ys = insert b (set (F k))" using ys(2) by (metis set_mset_add_mset_insert set_mset_mset)
  have bf: "b \<notin> set (F k)" "b \<notin> (\<Union>j \<in> {..<20} - {k}. set (F j))"
    using dis b(1) unfolding free_blocks_split [OF k, of F] by auto
  have "distinct ys" using d bf(1) ys(2) by (metis distinct.simps(2) mset.simps(2) mset_eq_imp_distinct_iff)
  then have "pool_core m' (set_pool_list c k fl) (F(k := ys)) (L - {b})"
  proof (rule pool_core_relist [OF w(1) k ys(1)])
    show "page_class_of m' c x = list_tag k" if "x \<in> set ys" for x
      using that sy t b w(2) [of x] free_blocks_split [OF k, of F] by auto
    show "free_blocks (F(k := ys)) \<union> (L - {b}) = free_blocks F \<union> L"
      using b(1) unfolding free_blocks_upd [OF k] free_blocks_split [OF k, of F] sy by blast
    show "free_blocks (F(k := ys)) \<inter> (L - {b}) = {}"
      using dis unfolding free_blocks_upd [OF k] free_blocks_split [OF k, of F] sy by blast
  qed
  then show thesis using that sy out w(2,3) by blast
qed

section \<open>Carving fresh pages\<close>

definition set_bump :: "bc_context \<Rightarrow> u64 \<Rightarrow> bc_context" where
  "set_bump c v = c\<lparr>cx_region := (cx_region c)\<lparr>rg_bump := v\<rparr>\<rparr>"

lemma set_bump_sel [simp]:
  "rg_base (cx_region (set_bump c v)) = rg_base (cx_region c)"
  "rg_total_size (cx_region (set_bump c v)) = rg_total_size (cx_region c)"
  "rg_page_class (cx_region (set_bump c v)) = rg_page_class (cx_region c)"
  "rg_page_class_size (cx_region (set_bump c v)) = rg_page_class_size (cx_region c)"
  "rg_bump (cx_region (set_bump c v)) = v"
  "cx_page_size (set_bump c v) = cx_page_size c"
  "cx_page_shift (set_bump c v) = cx_page_shift c"
  "cx_pools (set_bump c v) = cx_pools c"
  "cx_large_pool (set_bump c v) = cx_large_pool c"
  "cx_tracking_enabled (set_bump c v) = cx_tracking_enabled c"
  "pool_list (set_bump c v) k = pool_list c k"
  by (simp_all add: set_bump_def pool_list_def)

lemma page_class_of_bump [simp]: "page_class_of m (set_bump c v) b = page_class_of m c b"
  by (simp add: page_class_of_def)

lemma block_class_bump [simp]: "block_class m (set_bump c v) b = block_class m c b"
  by (simp add: block_class_def)

lemma block_bytes_bump [simp]: "block_bytes m (set_bump c v) b = block_bytes m c b"
  by (simp add: block_bytes_def)

lemma bump_raw_eq:
  assumes "pool_geometry c" "pool_page c dvd unat n" "pool_bump c + unat n < 18446744073709551616"
  shows "bump_raw c n =
    (if pool_bump c + unat n \<le> pool_total c
     then (rg_base (cx_region c) + rg_bump (cx_region c), set_bump c (rg_bump (cx_region c) + n))
     else (NULL, c))"
  using assms(3) by (simp add: bump_raw_def Let_def set_bump_def word_less_nat_alt no_wrap)

lemma pool_geometry_bump:
  assumes "pool_geometry c" "pool_page c dvd unat n" "pool_bump c + unat n \<le> pool_total c"
  shows "pool_geometry (set_bump c (rg_bump (cx_region c) + n))"
    and "unat (rg_base (cx_region c) + rg_bump (cx_region c)) = pool_base c + pool_bump c"
    and "rg_base (cx_region c) + rg_bump (cx_region c) \<noteq> NULL"
    and "unat (rg_bump (cx_region c) + n) = pool_bump c + unat n"
proof -
  note g = assms(1) [unfolded pool_geometry_def]
  show u: "unat (rg_bump (cx_region c) + n) = pool_bump c + unat n"
    using g assms(3) by (intro unat_add_no_wrap) linarith
  show v: "unat (rg_base (cx_region c) + rg_bump (cx_region c)) = pool_base c + pool_bump c"
    using g by (intro unat_add_no_wrap) linarith
  show "rg_base (cx_region c) + rg_bump (cx_region c) \<noteq> NULL"
    using v g by (metis add_is_0 not_numeral_le_zero unat_0)
  show "pool_geometry (set_bump c (rg_bump (cx_region c) + n))"
    using g assms(2,3) u by (elim conjE) (simp add: pool_geometry_def)
qed

lemma pool_core_extend:
  assumes core: "pool_core m c F L"
    and n: "pool_page c dvd unat n" "pool_bump c + unat n \<le> pool_total c"
    and c1: "c1 = set_bump c (rg_bump (cx_region c) + n)"
    and old: "agree m m1 (used_tags c)" "agree m m1 (area (rg_base (cx_region c)) (pool_bump c))"
    and N: "finite N" "\<And>b. b \<in> N \<Longrightarrow> block_ok m1 c1 b \<and> pool_base c + pool_bump c \<le> unat b"
      "blocks_apart m1 c1 N"
  shows "pool_core m1 c1 F (L \<union> N)" "N \<inter> (free_blocks F \<union> L) = {}"
    and "\<And>x. x \<in> free_blocks F \<union> L \<Longrightarrow> page_class_of m1 c1 x = page_class_of m c x"
    and "\<And>x. x \<in> free_blocks F \<union> L \<Longrightarrow> block_bytes m1 c1 x = block_bytes m c x"
proof -
  from core have g: "pool_geometry c" and ok: "\<And>x. x \<in> free_blocks F \<union> L \<Longrightarrow> block_ok m c x"
    by (auto simp: pool_core_def)
  have g1: "pool_geometry c1" and up: "pool_bump c1 = pool_bump c + unat n"
    using pool_geometry_bump [OF g n] c1 by auto
  have in_old: "area x 16 \<subseteq> area (rg_base (cx_region c)) (pool_bump c)"
    if "x \<in> free_blocks F \<union> L" for x
    using block_ok_range [OF g ok [OF that]] by auto
  have free: "agree m m1 (area x 16)" if "x \<in> free_blocks F \<union> L" for x
    using agree_subset [OF old(2) in_old [OF that]] .
  have live: "block_class m c x < 19 \<or> agree m m1 (area (x + 8) 8)" if "x \<in> L" for x
  proof -
    have "area (x + 8) 8 \<subseteq> area x 16"
      using block_ok_range(5) [OF g ok [of x]] that by (auto simp: no_wrap)
    then show ?thesis using free [of x] that agree_subset by blast
  qed
  note ca = pool_core_agree [OF core old(1) _ live]
  have core1: "pool_core m1 c F L" using ca(1) free by blast
  show cls: "page_class_of m1 c1 x = page_class_of m c x" if "x \<in> free_blocks F \<union> L" for x
    using ca(2) free that c1 by simp
  show bytes: "block_bytes m1 c1 x = block_bytes m c x" if "x \<in> free_blocks F \<union> L" for x
    using ca(3) free that c1 by simp
  have lim: "unat x + block_bytes m1 c1 x \<le> pool_base c + pool_bump c" "0 < block_bytes m1 c1 x"
    if "x \<in> free_blocks F \<union> L" for x
    using block_ok_range(2) [OF g ok [OF that]] block_bytes_ge_16 [OF g ok [OF that]] bytes [OF that] by auto
  show dis: "N \<inter> (free_blocks F \<union> L) = {}"
    using lim N(2) by fastforce
  have ok1: "block_ok m1 c1 x" if "x \<in> free_blocks F \<union> L" for x
  proof -
    have "block_ok m1 c x" using core1 that by (auto simp: pool_core_def)
    then show ?thesis using up c1 by (simp add: block_ok_def)
  qed
  have "blocks_apart m1 c1 (free_blocks F \<union> L)"
    using core1 c1 by (simp add: pool_core_def blocks_apart_def)
  moreover have "apart x (block_bytes m1 c1 x) y (block_bytes m1 c1 y)"
    if "x \<in> free_blocks F \<union> L" "y \<in> N" for x y
    using lim(1) [OF that(1)] N(2) [OF that(2)] by (auto simp: apart_def)
  ultimately have "blocks_apart m1 c1 (free_blocks F \<union> (L \<union> N))"
    using N(3) apart_sym unfolding blocks_apart_def pairwise_def by blast
  then show "pool_core m1 c1 F (L \<union> N)"
    using core1 g1 N(1,2) ok1 dis c1 by (auto simp: pool_core_def)
qed

text \<open>Putting back a run of blocks: the loop that threads a fresh page onto a free list.\<close>

lemma pool_core_put_all:
  assumes "pool_core m c F L" "k < 20" "set bs \<subseteq> L" "distinct bs"
    and "\<And>b. b \<in> set bs \<Longrightarrow> page_class_of m c b = list_tag k"
    and "push_all free_list_push bs (m, pool_list c k) = (m', fl)"
  shows "\<exists>ys. pool_core m' (set_pool_list c k fl) (F(k := ys)) (L - set bs)"
    and "agree m m' (- (\<Union>b \<in> set bs. area b 8))"
    and "\<forall>x \<in> L. page_class_of m' c x = page_class_of m c x \<and> block_bytes m' c x = block_bytes m c x"
proof -
  have "(\<exists>ys. pool_core m' (set_pool_list c k fl) (F(k := ys)) (L - set bs))
    \<and> agree m m' (- (\<Union>b \<in> set bs. area b 8))
    \<and> (\<forall>x \<in> free_blocks F \<union> L. page_class_of m' c x = page_class_of m c x \<and> block_bytes m' c x = block_bytes m c x)"
    using assms
  proof (induction bs arbitrary: m c F L)
    case Nil
    have "set_pool_list c k (pool_list c k) = c"
      using Nil.prems(1,2) by (auto simp: set_pool_list_def pool_list_def pool_core_def pool_geometry_def)
    then have "pool_core m (set_pool_list c k (pool_list c k)) (F(k := F k)) (L - set [])"
      using Nil.prems(1) by simp
    then show ?case using Nil.prems(6) unfolding push_all_Nil prod.inject by (metis agree_refl)
  next
    case (Cons b bs)
    obtain m1 fl1 where s: "free_list_push m (pool_list c k) b = (m1, fl1)" by fastforce
    have bL: "b \<in> L" "page_class_of m c b = list_tag k" using Cons.prems by auto
    obtain ys where p: "pool_core m1 (set_pool_list c k fl1) (F(k := ys)) (L - {b})"
      "set ys = insert b (set (F k))" "agree m m1 (- area b 8)"
      "\<And>x. x \<in> free_blocks F \<union> L \<Longrightarrow> page_class_of m1 c x = page_class_of m c x"
      "\<And>x. x \<in> free_blocks F \<union> L \<Longrightarrow> block_bytes m1 c x = block_bytes m c x"
      using pool_core_put [OF Cons.prems(1,2) bL s] by blast
    have len: "length (cx_pools c) = 19"
      using Cons.prems(1) by (simp add: pool_core_def pool_geometry_def)
    have sub: "free_blocks F \<union> L = free_blocks (F(k := ys)) \<union> (L - {b})"
      using bL(1) free_blocks_insert [of k ys b F] Cons.prems(2) p(2) by auto
    have "(\<exists>zs. pool_core m' (set_pool_list (set_pool_list c k fl1) k fl) ((F(k := ys))(k := zs)) (L - {b} - set bs))
      \<and> agree m1 m' (- (\<Union>b \<in> set bs. area b 8))
      \<and> (\<forall>x \<in> free_blocks (F(k := ys)) \<union> (L - {b}).
           page_class_of m' (set_pool_list c k fl1) x = page_class_of m1 (set_pool_list c k fl1) x
           \<and> block_bytes m' (set_pool_list c k fl1) x = block_bytes m1 (set_pool_list c k fl1) x)"
    proof (rule Cons.IH [OF p(1) Cons.prems(2)])
      show "push_all free_list_push bs (m1, pool_list (set_pool_list c k fl1) k) = (m', fl)"
        using Cons.prems(2,6) s len by simp
      show "page_class_of m1 (set_pool_list c k fl1) x = list_tag k" if "x \<in> set bs" for x
        using Cons.prems(3,5) p(4) [of x] that by auto
    qed (use Cons.prems(3,4) in auto)
    then have ih: "\<exists>zs. pool_core m' (set_pool_list c k fl) (F(k := zs)) (L - {b} - set bs)"
      "agree m1 m' (- (\<Union>b \<in> set bs. area b 8))"
      "\<forall>x \<in> free_blocks F \<union> L. page_class_of m' c x = page_class_of m1 c x
         \<and> block_bytes m' c x = block_bytes m1 c x"
      unfolding sub set_pool_list_twice fun_upd_upd page_class_of_set block_bytes_set by blast+
    have rest: "L - {b} - set bs = L - set (b # bs)" by auto
    have "agree m m' (- (\<Union>b \<in> set (b # bs). area b 8))"
      using p(3) ih(2) by (auto simp: agree_def simp del: in_area)
    moreover have "\<forall>x \<in> free_blocks F \<union> L. page_class_of m' c x = page_class_of m c x
      \<and> block_bytes m' c x = block_bytes m c x"
      using ih(3) p(4,5) by auto
    ultimately show ?case using ih(1) unfolding rest by blast
  qed
  then show "\<exists>ys. pool_core m' (set_pool_list c k fl) (F(k := ys)) (L - set bs)"
    and "agree m m' (- (\<Union>b \<in> set bs. area b 8))"
    and "\<forall>x \<in> L. page_class_of m' c x = page_class_of m c x \<and> block_bytes m' c x = block_bytes m c x"
    by auto
qed

end
