(* ===== verification/BC_Pool_Ops.thy ===== *)
theory BC_Pool_Ops
  imports BC_Pool_Inv
begin

text \<open>
  What the client sees of a live block, what it means that an operation leaves the class, the extent
  and every byte of the live blocks as they were (\<open>live_kept\<close>), and the carving of fresh pages into
  the blocks of a class.
\<close>

lemma pool_coreD:
  assumes "pool_core m c F L"
  shows "pool_geometry c" "finite L" "free_blocks F \<inter> L = {}"
    "x \<in> free_blocks F \<union> L \<Longrightarrow> block_ok m c x"
    "x \<in> free_blocks F \<union> L \<Longrightarrow> y \<in> free_blocks F \<union> L \<Longrightarrow> x \<noteq> y \<Longrightarrow>
     apart x (block_bytes m c x) y (block_bytes m c y)"
  using assms by (auto simp: pool_core_def blocks_apart_def pairwise_def)

section \<open>Live blocks as the client sees them\<close>

definition user_ptr :: "mem \<Rightarrow> bc_context \<Rightarrow> u64 \<Rightarrow> u64" where
  "user_ptr m c b = (if block_class m c b < 19 then b else b + LARGE_META_SIZE)"

definition usable :: "mem \<Rightarrow> bc_context \<Rightarrow> u64 \<Rightarrow> nat" where
  "usable m c b =
     (if block_class m c b < 19 then class_bytes (block_class m c b)
      else unat (large_meta_user_size m b))"

definition sizes_fit :: "mem \<Rightarrow> bc_context \<Rightarrow> u64 set \<Rightarrow> bool" where
  "sizes_fit m c L \<longleftrightarrow>
     (\<forall>b \<in> L. 19 \<le> block_class m c b \<longrightarrow>
        unat (large_meta_user_size m b) + 16 \<le> block_bytes m c b)"

text \<open>
  The memory of the pool: its region and its page-tag table. No operation writes anywhere else, and none moves them.
\<close>

definition pool_area :: "bc_context \<Rightarrow> u64 set" where
  "pool_area c = area (rg_base (cx_region c)) (pool_total c) \<union> area (pool_table c) (pool_total c div pool_page c)"

definition pool_shape :: "bc_context \<Rightarrow> region \<times> u64" where
  "pool_shape c = ((cx_region c)\<lparr>rg_bump := 0\<rparr>, cx_page_size c)"

definition pool_frame :: "mem \<Rightarrow> bc_context \<Rightarrow> mem \<Rightarrow> bc_context \<Rightarrow> bool" where
  "pool_frame m c m' c' \<longleftrightarrow> agree m m' (- pool_area c) \<and> pool_shape c' = pool_shape c"

lemma pool_area_shape: "pool_shape c' = pool_shape c \<Longrightarrow> pool_area c' = pool_area c"
  by (cases "cx_region c"; cases "cx_region c'") (simp add: pool_shape_def pool_area_def)

lemma pool_frame_refl [simp]: "pool_frame m c m c"
  by (simp add: pool_frame_def)

lemma pool_frame_trans: "pool_frame m c m1 c1 \<Longrightarrow> pool_frame m1 c1 m2 c2 \<Longrightarrow> pool_frame m c m2 c2"
  unfolding pool_frame_def using pool_area_shape [of c1 c] agree_trans by auto

lemma pool_shape_set [simp]: "pool_shape (set_pool_list c k fl) = pool_shape c" "pool_shape (set_bump c v) = pool_shape c"
  by (simp_all add: pool_shape_def set_bump_def)

lemma pool_area_set [simp]: "pool_area (set_pool_list c k fl) = pool_area c" "pool_area (set_bump c v) = pool_area c"
  by (rule pool_area_shape, simp)+

lemma block_in_pool:
  assumes "pool_geometry c" "block_ok m c b"
  shows "area b (block_bytes m c b) \<subseteq> pool_area c" "area b 8 \<subseteq> pool_area c"
proof -
  have "pool_bump c \<le> pool_total c" using assms(1) by (simp add: pool_geometry_def)
  then show "area b (block_bytes m c b) \<subseteq> pool_area c"
    using block_ok_range(1,2) [OF assms] by (auto simp: pool_area_def)
  moreover have "8 \<le> block_bytes m c b" using block_bytes_ge_16 [OF assms] by simp
  ultimately show "area b 8 \<subseteq> pool_area c" using area_mono by blast
qed

definition live_kept :: "mem \<Rightarrow> bc_context \<Rightarrow> mem \<Rightarrow> bc_context \<Rightarrow> u64 set \<Rightarrow> bool" where
  "live_kept m c m' c' L \<longleftrightarrow> pool_frame m c m' c' \<and>
     (\<forall>b \<in> L. page_class_of m' c' b = page_class_of m c b \<and> block_bytes m' c' b = block_bytes m c b
        \<and> agree m m' (area b (block_bytes m c b)))"

lemma live_kept_refl [simp]: "live_kept m c m c L"
  by (simp add: live_kept_def)

lemma live_kept_trans:
  "live_kept m c m1 c1 L \<Longrightarrow> live_kept m1 c1 m2 c2 L \<Longrightarrow> live_kept m c m2 c2 L"
  unfolding live_kept_def using pool_frame_trans by (auto simp: agree_def)

lemma live_kept_subset: "live_kept m c m' c' L \<Longrightarrow> K \<subseteq> L \<Longrightarrow> live_kept m c m' c' K"
  by (auto simp: live_kept_def)

text \<open>What a live block's client relies on.\<close>

lemma live_kept_block:
  assumes "live_kept m c m' c' K" "b \<in> K" "pool_core m c F L" "b \<in> L"
  shows "block_class m' c' b = block_class m c b" "user_ptr m' c' b = user_ptr m c b"
    "load64 m' b = load64 m b" "usable m' c' b = usable m c b"
proof -
  from assms(3) have g: "pool_geometry c" and ok: "block_ok m c b"
    using assms(4) by (auto simp: pool_core_def)
  show cl: "block_class m' c' b = block_class m c b"
    using assms(1,2) by (simp add: live_kept_def block_class_def)
  then show "user_ptr m' c' b = user_ptr m c b" by (simp add: user_ptr_def)
  have "agree m m' (area b 8)"
    using assms(1,2) block_bytes_ge_16 [OF g ok] agree_subset [OF _ area_mono [of 8 "block_bytes m c b" b]]
    by (auto simp: live_kept_def)
  then show l: "load64 m' b = load64 m b"
    using block_ok_range(5) [OF g ok] by (intro load64_cong) auto
  show "usable m' c' b = usable m c b" using cl l by (simp add: usable_def)
qed

lemma sizes_fit_kept:
  assumes "sizes_fit m c L" "live_kept m c m' c' L" "pool_core m c F L"
  shows "sizes_fit m' c' L"
  using assms live_kept_block [OF assms(2) _ assms(3)]
  by (auto simp: sizes_fit_def live_kept_def)

section \<open>Fresh pages\<close>

lemma fresh_pages:
  assumes g: "pool_geometry c" and n: "pool_page c dvd unat n" "0 < unat n"
    "pool_bump c + unat n \<le> pool_total c"
    and c1: "c1 = set_bump c (rg_bump (cx_region c) + n)"
    and m1: "m1 = tag_page_class m c1 (rg_bump (cx_region c)) n v"
  shows "agree m m1 (used_tags c)" "agree m m1 (area (rg_base (cx_region c)) (pool_total c))"
    and "\<And>b. pool_base c + pool_bump c \<le> unat b \<Longrightarrow> unat b < pool_base c + pool_bump c + unat n
          \<Longrightarrow> page_class_of m1 c1 b = v"
    and "pool_frame m c m1 c1"
proof -
  define lo where "lo = pool_bump c div pool_page c"
  define k where "k = unat n div pool_page c"
  note gd = g [unfolded pool_geometry_def]
  have pg: "0 < pool_page c" using pool_page_pos [OF g] by simp
  have g1: "pool_geometry c1" using pool_geometry_bump [OF g n(1,3)] c1 by simp
  have app: "m1 a = (if a \<in> area (pool_table c + of_nat lo) k then v else m a)" for a
    using tag_page_class_apply [OF g1, of "rg_bump (cx_region c)" n m v a] gd n c1
    unfolding m1 lo_def k_def by (elim conjE) simp
  have end_le: "lo + k \<le> pool_total c div pool_page c"
  proof -
    have "lo + k = (pool_bump c + unat n) div pool_page c"
      using gd n(1) unfolding lo_def k_def by (elim conjE) (simp add: div_plus_div_distrib_dvd_left)
    then show ?thesis using n(3) by (simp add: div_le_mono)
  qed
  have tb: "unat (pool_table c + of_nat lo) = unat (pool_table c) + lo"
    using gd end_le by (intro unat_add_no_wrap [THEN trans]) (auto simp: no_wrap)
  show "agree m m1 (used_tags c)"
    using tb by (auto simp: agree_def app used_tags_def lo_def)
  show "agree m m1 (area (rg_base (cx_region c)) (pool_total c))"
    using gd tb end_le by (auto simp: agree_def app apart_def)
  have "area (pool_table c + of_nat lo) k \<subseteq> area (pool_table c) (pool_total c div pool_page c)"
    using tb end_le by auto
  then show "pool_frame m c m1 c1"
    unfolding pool_frame_def pool_area_def agree_def app c1 pool_shape_set by auto
  fix b :: u64
  assume b: "pool_base c + pool_bump c \<le> unat b" "unat b < pool_base c + pool_bump c + unat n"
  have "unat (tag_addr c1 b) = unat (pool_table c) + (unat b - pool_base c) div pool_page c"
    using unat_tag_addr [OF g1, of b] b n(3) c1 by simp
  moreover have "lo \<le> (unat b - pool_base c) div pool_page c"
    unfolding lo_def using b by (intro div_le_mono) simp
  moreover have "(unat b - pool_base c) div pool_page c < lo + k"
  proof -
    have "(unat b - pool_base c) div pool_page c < (pool_bump c + unat n) div pool_page c"
      using b gd n(1) by (intro div_less_div_dvd) auto
    moreover have "lo + k = (pool_bump c + unat n) div pool_page c"
      using gd n(1) unfolding lo_def k_def by (elim conjE) (simp add: div_plus_div_distrib_dvd_left)
    ultimately show ?thesis by simp
  qed
  ultimately have "tag_addr c1 b \<in> area (pool_table c + of_nat lo) k" using tb by simp
  then show "page_class_of m1 c1 b = v" by (simp add: page_class_of_tag app del: in_area)
qed

lemma live_kept_region:
  assumes core: "pool_core m c F L" and ag: "agree m m1 (area (rg_base (cx_region c)) (pool_bump c))"
    and cls: "\<And>x. x \<in> L \<Longrightarrow> page_class_of m1 c1 x = page_class_of m c x"
    and bytes: "\<And>x. x \<in> L \<Longrightarrow> block_bytes m1 c1 x = block_bytes m c x" and frame: "pool_frame m c m1 c1"
  shows "live_kept m c m1 c1 L"
proof -
  have "area x (block_bytes m c x) \<subseteq> area (rg_base (cx_region c)) (pool_bump c)" if "x \<in> L" for x
  proof -
    from core that have "pool_geometry c" "block_ok m c x" by (auto simp: pool_core_def)
    from block_ok_range(1,2) [OF this] show ?thesis by auto
  qed
  then show ?thesis using cls bytes frame agree_subset [OF ag] by (auto simp: live_kept_def)
qed

text \<open>The blocks of a fresh run of pages of class \<open>k\<close>, in the order the code pushes them.\<close>

definition run_blocks :: "u64 \<Rightarrow> u64 \<Rightarrow> nat \<Rightarrow> u64 list" where
  "run_blocks p cs num = map (\<lambda>i. p + of_nat i * cs) [0 ..< num]"

lemma run_blocks_unfold:
  "0 < num \<Longrightarrow> run_blocks p cs num = p # map (\<lambda>i. p + of_nat i * cs) [1 ..< num]"
  by (simp add: run_blocks_def upt_conv_Cons)

lemma unat_run_block:
  fixes p cs :: u64
  assumes "unat p + num * unat cs < 18446744073709551616" "i < num"
  shows "unat (p + of_nat i * cs) = unat p + i * unat cs"
proof (cases "unat cs = 0")
  case True
  then have "cs = 0" by (simp add: unat_eq_zero)
  then show ?thesis by simp
next
  case False
  have le: "i * unat cs \<le> num * unat cs" using assms(2) by simp
  have "i \<le> i * unat cs" using False by simp
  then have ui: "unat (of_nat i :: u64) = i" using le assms(1) by (intro unat_of_nat_no_wrap) linarith
  have um: "unat (of_nat i * cs) = i * unat cs"
    using unat_mult_no_wrap [of "of_nat i" cs] le assms(1) ui by simp
  show ?thesis using unat_add_no_wrap [of p "of_nat i * cs"] le assms(1) um by simp
qed

lemma run_blocks_props:
  fixes p cs :: u64
  assumes p: "unat p + num * unat cs < 18446744073709551616" and cs: "0 < unat cs"
  shows "distinct (run_blocks p cs num)"
    and "b \<in> set (run_blocks p cs num) \<Longrightarrow>
      unat p \<le> unat b \<and> unat b + unat cs \<le> unat p + num * unat cs \<and> (d dvd unat p \<longrightarrow> d dvd unat cs \<longrightarrow> d dvd unat b)"
    and "pairwise (\<lambda>x y. apart x (unat cs) y (unat cs)) (set (run_blocks p cs num))"
proof -
  note u = unat_run_block [OF p]
  have ap: "apart (p + of_nat i * cs) (unat cs) (p + of_nat j * cs) (unat cs)"
    if ij: "i < num" "j < num" "i \<noteq> j" for i j
  proof (cases "i < j")
    case True
    then have "Suc i * unat cs \<le> j * unat cs" by (intro mult_le_mono1) simp
    then show ?thesis using ij u by (simp add: apart_def)
  next
    case False
    then have "Suc j * unat cs \<le> i * unat cs" using ij by (intro mult_le_mono1) simp
    then show ?thesis using ij u by (simp add: apart_def)
  qed
  show "distinct (run_blocks p cs num)"
    unfolding run_blocks_def distinct_map
  proof (intro conjI inj_onI)
    fix i j assume "i \<in> set [0 ..< num]" "j \<in> set [0 ..< num]" "p + of_nat i * cs = p + of_nat j * cs"
    then show "i = j" using ap [of i j] cs by (auto simp: apart_def)
  qed simp
  show "pairwise (\<lambda>x y. apart x (unat cs) y (unat cs)) (set (run_blocks p cs num))"
    unfolding run_blocks_def pairwise_def using ap by (clarsimp, metis)
  assume "b \<in> set (run_blocks p cs num)"
  then obtain i where i: "i < num" "b = p + of_nat i * cs" by (auto simp: run_blocks_def)
  have "Suc i * unat cs \<le> num * unat cs" using i by (intro mult_le_mono1) simp
  then show "unat p \<le> unat b \<and> unat b + unat cs \<le> unat p + num * unat cs
    \<and> (d dvd unat p \<longrightarrow> d dvd unat cs \<longrightarrow> d dvd unat b)"
    using i u [OF i(1)] by simp
qed

text \<open>Blocks of class \<open>k\<close> on pages freshly tagged \<open>k\<close> satisfy the block invariant.\<close>

lemma fresh_run_blocks:
  assumes g: "pool_geometry c" and k: "k < 19" and n: "pool_page c dvd unat n" "0 < unat n"
    "pool_bump c + unat n \<le> pool_total c"
    and c1: "c1 = set_bump c (rg_bump (cx_region c) + n)"
    and m1: "m1 = tag_page_class m c1 (rg_bump (cx_region c)) n (of_nat k)"
    and p: "unat p = pool_base c + pool_bump c" and cs: "unat cs = class_bytes k"
    and num: "num * class_bytes k = unat n" and b: "b \<in> set (run_blocks p cs num)"
  shows "page_class_of m1 c1 b = of_nat k" "block_bytes m1 c1 b = class_bytes k" "block_ok m1 c1 b"
    "pool_base c + pool_bump c \<le> unat b"
proof -
  note gd = g [unfolded pool_geometry_def]
  have nw: "unat p + num * unat cs < 18446744073709551616" using p cs num n(3) gd by simp
  have r: "unat p \<le> unat b" "unat b + class_bytes k \<le> unat p + unat n"
    and dv: "\<And>d. d dvd unat p \<Longrightarrow> d dvd class_bytes k \<Longrightarrow> d dvd unat b"
    using run_blocks_props(2) [OF nw _ b] cs num by auto
  show "pool_base c + pool_bump c \<le> unat b" using r(1) p by simp
  have "(0::nat) < class_bytes k" by simp
  then have "unat b < pool_base c + pool_bump c + unat n" using r p by linarith
  then show cls: "page_class_of m1 c1 b = of_nat k"
    using fresh_pages(3) [OF g n c1 m1, of b] r p by simp
  then have bc: "block_class m1 c1 b = k" using k by (simp add: block_class_def unat_of_nat)
  then show bytes: "block_bytes m1 c1 b = class_bytes k" using k by (simp add: block_bytes_def)
  have "pool_page c dvd unat p" using gd p by (elim conjE) simp
  moreover obtain s where "pool_page c = 2 ^ s" using gd by blast
  ultimately have "min (class_bytes k) (pool_page c) dvd unat b"
    using min_power2_dvd [of "k + 4" s] by (intro dv) (auto intro: dvd_trans)
  then show "block_ok m1 c1 b"
    using r bc bytes p k pool_geometry_bump(4) [OF g n(1,3)] c1 by (auto simp: block_ok_def)
qed

text \<open>Threading fresh blocks onto a list touches no live block.\<close>

lemma pushes_keep_live:
  assumes core: "pool_core m1 c1 F (L \<union> N)" and k: "k < 20" and bs: "set bs \<subseteq> N" "distinct bs"
    and dis: "L \<inter> N = {}" and tag: "\<And>b. b \<in> set bs \<Longrightarrow> page_class_of m1 c1 b = list_tag k"
    and push: "push_all free_list_push bs (m1, pool_list c1 k) = (m2, fl)"
  shows "live_kept m1 c1 m2 (set_pool_list c1 k fl) L"
proof (unfold live_kept_def, intro ballI conjI)
  have "set bs \<subseteq> L \<union> N" using bs(1) by blast
  note put = pool_core_put_all [OF core k this bs(2) tag push]
  have "area b 8 \<subseteq> pool_area c1" if "b \<in> set bs" for b
    using core that bs(1) by (intro block_in_pool(2)) (auto simp: pool_core_def)
  then have "(\<Union>b \<in> set bs. area b 8) \<subseteq> pool_area c1" by blast
  from agree_subset [OF put(2) Compl_anti_mono [OF this]] have "agree m1 m2 (- pool_area c1)" .
  then show "pool_frame m1 c1 m2 (set_pool_list c1 k fl)" by (simp add: pool_frame_def)
next
  fix x assume x: "x \<in> L"
  have sub: "set bs \<subseteq> L \<union> N" using bs(1) by blast
  note put = pool_core_put_all [OF core k sub bs(2) tag push]
  show "page_class_of m2 (set_pool_list c1 k fl) x = page_class_of m1 c1 x"
    "block_bytes m2 (set_pool_list c1 k fl) x = block_bytes m1 c1 x"
    using put(3) x by auto
  have "area x (block_bytes m1 c1 x) \<inter> area b 8 = {}" if "b \<in> set bs" for b
  proof -
    have "pool_geometry c1" "block_ok m1 c1 b" using core sub that by (auto simp: pool_core_def)
    then have "8 \<le> block_bytes m1 c1 b" using block_bytes_ge_16 by fastforce
    moreover have "apart x (block_bytes m1 c1 x) b (block_bytes m1 c1 b)"
      using x that bs(1) dis by (intro pool_coreD(5) [OF core]) auto
    ultimately have "apart x (block_bytes m1 c1 x) b 8" by (elim apart_mono) auto
    then show ?thesis by (rule apart_disjoint)
  qed
  then have "area x (block_bytes m1 c1 x) \<inter> (\<Union>b \<in> set bs. area b 8) = {}" by blast
  then show "agree m1 m2 (area x (block_bytes m1 c1 x))"
    using put(2) unfolding agree_def by blast
qed

section \<open>Carving a page run into blocks\<close>

text \<open>The fresh pages cut into blocks of one class: all of them become live, apart from what there was.\<close>

lemma class_run_tagged:
  assumes core: "pool_core m c F L" and k: "k < 19"
    and n: "pool_page c dvd unat n" "class_bytes k dvd unat n" "0 < unat n"
    and fits: "pool_bump c + unat n \<le> pool_total c"
    and c1: "c1 = set_bump c (rg_bump (cx_region c) + n)"
    and m1: "m1 = tag_page_class m c1 (rg_bump (cx_region c)) n (of_nat k)"
    and q: "q = rg_base (cx_region c) + rg_bump (cx_region c)"
    and num: "num * class_bytes k = unat n" "0 < num"
  defines "N \<equiv> set (run_blocks q (bc_allocators_class_sizes ! k) num)"
  shows "pool_core m1 c1 F (L \<union> N)" "N \<inter> L = {}" "live_kept m c m1 c1 L"
    "\<And>b. b \<in> N \<Longrightarrow> page_class_of m1 c1 b = of_nat k"
    "distinct (run_blocks q (bc_allocators_class_sizes ! k) num)"
proof -
  have g: "pool_geometry c" using core by (rule pool_coreD)
  note gd = g [unfolded pool_geometry_def]
  have cs: "unat (bc_allocators_class_sizes ! k) = class_bytes k"
    and cs0: "0 < unat (bc_allocators_class_sizes ! k)" using k by simp_all
  note pb = pool_geometry_bump [OF g n(1) fits]
  have up: "unat q = pool_base c + pool_bump c" using pb(2) q by simp
  have nw: "unat q + num * unat (bc_allocators_class_sizes ! k) < 18446744073709551616"
    using up cs num(1) fits gd by simp
  show "distinct (run_blocks q (bc_allocators_class_sizes ! k) num)" by (rule run_blocks_props(1) [OF nw cs0])
  have ap: "pairwise (\<lambda>x y. apart x (class_bytes k) y (class_bytes k)) N"
    using run_blocks_props(3) [OF nw cs0] cs unfolding N_def by simp
  note fp = fresh_pages [OF g n(1,3) fits c1 m1]
  note fr = fresh_run_blocks [OF g k n(1,3) fits c1 m1 up cs num(1), folded N_def]
  have apN: "blocks_apart m1 c1 N" using ap fr(2) by (auto simp: blocks_apart_def pairwise_def)
  have "area (rg_base (cx_region c)) (pool_bump c) \<subseteq> area (rg_base (cx_region c)) (pool_total c)"
    using gd by (intro area_mono) simp
  note ag = agree_subset [OF fp(2) this]
  have fN: "finite N" and okN: "\<And>b. b \<in> N \<Longrightarrow> block_ok m1 c1 b \<and> pool_base c + pool_bump c \<le> unat b"
    using fr(3,4) by (auto simp: N_def)
  note ex = pool_core_extend [OF core n(1) fits c1 fp(1) ag fN okN apN]
  show "pool_core m1 c1 F (L \<union> N)" "N \<inter> L = {}" using ex(1,2) by auto
  show "live_kept m c m1 c1 L" using ex(3,4) by (intro live_kept_region [OF core ag _ _ fp(4)]) auto
  show "b \<in> N \<Longrightarrow> page_class_of m1 c1 b = of_nat k" for b by (rule fr(1))
qed

text \<open>All blocks but the first go on the list of the class.\<close>

lemma class_run_pushed:
  assumes core: "pool_core m c F L" and k: "k < 19"
    and n: "pool_page c dvd unat n" "class_bytes k dvd unat n" "0 < unat n"
    and fits: "pool_bump c + unat n \<le> pool_total c"
    and c1: "c1 = set_bump c (rg_bump (cx_region c) + n)"
    and m1: "m1 = tag_page_class m c1 (rg_bump (cx_region c)) n (of_nat k)"
    and q: "q = rg_base (cx_region c) + rg_bump (cx_region c)"
    and pa: "push_all free_list_push (map (\<lambda>i. q + of_nat i * (bc_allocators_class_sizes ! k))
        [1 ..< unat (n div bc_allocators_class_sizes ! k)]) (m1, pool_list c1 k) = (m2, fl)"
  shows "\<exists>F'. pool_core m2 (set_pool_list c1 k fl) F' (insert q L)" "q \<noteq> NULL" "q \<notin> L"
    "page_class_of m2 (set_pool_list c1 k fl) q = of_nat k"
    "live_kept m c m2 (set_pool_list c1 k fl) L"
proof -
  define num where "num = unat (n div bc_allocators_class_sizes ! k)"
  define bs where "bs = map (\<lambda>i. q + of_nat i * (bc_allocators_class_sizes ! k)) [1 ..< num]"
  have "num = unat n div class_bytes k" using k by (simp add: num_def unat_div)
  then have num: "num * class_bytes k = unat n" using n(2) by simp
  then have num0: "0 < num" using n(3) by (cases num) auto
  note tg = class_run_tagged [OF core k n fits c1 m1 q num num0,
      unfolded run_blocks_unfold [OF num0], folded bs_def]
  have bs: "q \<notin> set bs" "distinct bs" using tg(5) by auto
  have tag: "of_nat k = list_tag k" and k20: "k < 20" using k by (simp_all add: list_tag_def)
  have sub: "set bs \<subseteq> L \<union> set (q # bs)" "\<And>b. b \<in> set bs \<Longrightarrow> page_class_of m1 c1 b = list_tag k"
    using tg(4) tag by auto
  note pa' = pa [folded num_def, folded bs_def]
  note put = pool_core_put_all [OF tg(1) k20 sub(1) bs(2) sub(2) pa']
  have rest: "L \<union> set (q # bs) - set bs = insert q L" using bs(1) tg(2) by auto
  show "\<exists>F'. pool_core m2 (set_pool_list c1 k fl) F' (insert q L)" using put(1) unfolding rest by blast
  show "q \<noteq> NULL" using pool_geometry_bump(3) [OF pool_coreD(1) [OF core] n(1) fits] q by simp
  show "q \<notin> L" using tg(2) by auto
  show "page_class_of m2 (set_pool_list c1 k fl) q = of_nat k" using put(3) bs(1) tg(4) [of q] by auto
  have "live_kept m1 c1 m2 (set_pool_list c1 k fl) L"
    by (rule pushes_keep_live [OF tg(1) k20 _ bs(2) _ sub(2) pa']) (use tg(2) in auto)
  then show "live_kept m c m2 (set_pool_list c1 k fl) L" by (rule live_kept_trans [OF tg(3)])
qed

context bc_core
begin

lemma align_up_Some:
  assumes "unat a = 2 ^ k" "core_align_up E v a = Some r"
  shows "unat r = round_up (unat v) (unat a)"
proof -
  have "pow2 a" using assms(1) by (auto simp: pow2_def)
  then show ?thesis using assms(2) align_up [of a v] by (auto split: if_splits simp: no_wrap)
qed

text \<open>The number of bytes \<^verbatim>\<open>bump_allocate_class\<close> takes: a page, or the block when it is larger.\<close>

lemma class_bump_size:
  assumes g: "pool_geometry c" and k: "k < 19"
  obtains n where "(if bc_allocators_class_sizes ! k < cx_page_size c then Some (cx_page_size c)
      else core_align_up E (bc_allocators_class_sizes ! k) (cx_page_size c)) = Some n"
    "unat n = max (class_bytes k) (pool_page c)"
    "pool_page c dvd unat n" "class_bytes k dvd unat n" "0 < unat n" "unat n \<le> 4194304"
proof -
  define s where "s = unat (cx_page_shift c)"
  have s: "12 \<le> s" "s \<le> 20" "pool_page c = 2 ^ s" using g by (auto simp: pool_geometry_def s_def)
  have ps: "(2::nat) ^ s \<le> 4194304" using power_increasing [of s 22 "2 :: nat"] s by simp
  note le = class_bytes_le [OF k]
  show thesis
  proof (cases "k + 4 < s")
    case True
    then have lt: "class_bytes k < 2 ^ s" by simp
    then have "bc_allocators_class_sizes ! k < cx_page_size c" using s k by (simp add: word_less_nat_alt)
    moreover have "class_bytes k dvd 2 ^ s" using True by (intro le_imp_power_dvd) simp
    ultimately show thesis using lt s ps by (intro that [of "cx_page_size c"]) (simp_all add: max_def)
  next
    case False
    then have ge: "2 ^ s \<le> class_bytes k" by (intro power_increasing) auto
    have d: "2 ^ s dvd class_bytes k" using False by (intro le_imp_power_dvd) simp
    have nlt: "\<not> bc_allocators_class_sizes ! k < cx_page_size c"
      using ge s k by (simp add: word_less_nat_alt)
    have "pow2 (cx_page_size c)" using s by (auto simp: pow2_def)
    moreover have "round_up (class_bytes k) (2 ^ s) = class_bytes k" using d by simp
    ultimately have "core_align_up E (bc_allocators_class_sizes ! k) (cx_page_size c)
        = Some (of_nat (class_bytes k))"
      using align_up [of "cx_page_size c" "bc_allocators_class_sizes ! k"] s k le by simp
    moreover have "unat (of_nat (class_bytes k) :: u64) = class_bytes k"
      using le by (intro unat_of_nat_no_wrap) simp
    ultimately show thesis
      using nlt ge d s le by (intro that [of "of_nat (class_bytes k)"]) (simp_all add: max_def)
  qed
qed

lemma bump_allocate_class_ok:
  assumes core: "pool_core m c F L" and k: "k < 19"
    and run: "bump_allocate_class E m c k = (p, m', c')"
  shows "p = NULL \<Longrightarrow> m' = m \<and> c' = c"
    and "p \<noteq> NULL \<Longrightarrow> \<exists>F'. pool_core m' c' F' (insert p L) \<and> p \<notin> L
          \<and> page_class_of m' c' p = of_nat k \<and> live_kept m c m' c' L"
proof -
  define cs where "cs = bc_allocators_class_sizes ! k"
  have g: "pool_geometry c" using core by (rule pool_coreD)
  obtain n where n: "(if cs < cx_page_size c then Some (cx_page_size c)
      else core_align_up E cs (cx_page_size c)) = Some n"
    "unat n = max (class_bytes k) (pool_page c)" "pool_page c dvd unat n"
    "class_bytes k dvd unat n" "0 < unat n" "unat n \<le> 4194304"
    using class_bump_size [OF g k] unfolding cs_def .
  have raw: "bump_raw c n =
    (if pool_bump c + unat n \<le> pool_total c
     then (rg_base (cx_region c) + rg_bump (cx_region c), set_bump c (rg_bump (cx_region c) + n))
     else (NULL, c))"
    using g [unfolded pool_geometry_def] n(6) by (intro bump_raw_eq [OF g n(3)]) auto
  note run' = run [unfolded bump_allocate_class_def Let_def cs_def [symmetric] n(1) option.case raw]
  show "m' = m \<and> c' = c" if p: "p = NULL"
  proof (cases "pool_bump c + unat n \<le> pool_total c")
    case False
    then show ?thesis using run' by simp
  next
    case True
    then show ?thesis using p run' pool_geometry_bump(3) [OF g n(3) True] by (auto split: prod.splits)
  qed
  assume nn: "p \<noteq> NULL"
  have fits: "pool_bump c + unat n \<le> pool_total c"
    by (rule ccontr) (use nn run' in simp)
  define c1 where "c1 = set_bump c (rg_bump (cx_region c) + n)"
  define m1 where "m1 = tag_page_class m c1 (rg_bump (cx_region c)) n (of_nat k)"
  define q where "q = rg_base (cx_region c) + rg_bump (cx_region c)"
  obtain m2 fl where pa: "push_all free_list_push (map (\<lambda>i. q + of_nat i * cs) [1 ..< unat (n div cs)])
      (m1, cx_pools c ! k) = (m2, fl)" by fastforce
  have pl: "pool_list c1 k = cx_pools c ! k" using k by (simp add: c1_def pool_list_def)
  note cr = class_run_pushed [OF core k n(3-5) fits c1_def m1_def q_def, folded cs_def, unfolded pl, OF pa]
  have "p = q" "m' = m2" "c' = set_pool_list c1 k fl"
    using run' fits pa cr(2) k unfolding c1_def m1_def q_def
    by (simp_all add: set_pool_list_def)
  then show "\<exists>F'. pool_core m' c' F' (insert p L) \<and> p \<notin> L
      \<and> page_class_of m' c' p = of_nat k \<and> live_kept m c m' c' L"
    using cr(1,3-5) by simp
qed

end

end
