(* ===== verification/BC_Pool_Large.thy ===== *)
theory BC_Pool_Large
  imports BC_Pool_Ops
begin

text \<open>
  Writes into a live block, and large allocation: reuse of the top free large block, putting it back
  when it is too small, and carving fresh pages.
\<close>

section \<open>Writes into a live block\<close>

lemma write_keeps_live:
  assumes core: "pool_core m c F L" and b: "b \<in> L" and out: "agree m m' (- A)"
    and A: "A \<subseteq> area b (block_bytes m c b)"
    and large: "block_class m c b < 19 \<or> A \<inter> area (b + 8) 8 = {}"
  shows "live_kept m c m' c (L - {b})"
proof (unfold live_kept_def, intro ballI conjI)
  note w = pool_core_write [OF core b out A large]
  have "A \<subseteq> pool_area c"
    using A block_in_pool(1) [of c m b] core b by (auto simp: pool_core_def simp del: in_area)
  then show "pool_frame m c m' c" using out unfolding pool_frame_def agree_def by blast
  fix x assume x: "x \<in> L - {b}"
  then show "page_class_of m' c x = page_class_of m c x" "block_bytes m' c x = block_bytes m c x"
    using w(2,3) by auto
  have "apart x (block_bytes m c x) b (block_bytes m c b)"
    using x b by (intro pool_coreD(5) [OF core]) auto
  then have "area x (block_bytes m c x) \<inter> area b (block_bytes m c b) = {}" by (rule apart_disjoint)
  then show "agree m m' (area x (block_bytes m c x))"
    using out A unfolding agree_def by blast
qed

lemma block_head:
  assumes "pool_core m c F L" "b \<in> L"
  shows "area b 8 \<subseteq> area b (block_bytes m c b)" "area b 8 \<inter> area (b + 8) 8 = {}"
    "agree m (store64 m b v) (- area b 8)"
proof -
  have g: "pool_geometry c" and ok: "block_ok m c b" using assms pool_coreD by blast+
  show "area b 8 \<subseteq> area b (block_bytes m c b)"
    using block_bytes_ge_16 [OF g ok] by (intro area_mono) simp
  have "unat b + 16 \<le> 140737488355328" using block_ok_range(5) [OF g ok] .
  then show "area b 8 \<inter> area (b + 8) 8 = {}" "agree m (store64 m b v) (- area b 8)"
    by (auto simp: no_wrap simp del: in_area intro!: agree_store64) (auto simp: no_wrap)
qed

text \<open>Setting the recorded user size of a live large block.\<close>

lemma set_user_size:
  assumes core: "pool_core m c F L" and b: "b \<in> L"
  shows "pool_core (store64 m b v) c F L" "live_kept m c (store64 m b v) c (L - {b})"
    "page_class_of (store64 m b v) c b = page_class_of m c b"
    "block_bytes (store64 m b v) c b = block_bytes m c b"
proof -
  note h = block_head [OF core b]
  note w = pool_core_write [OF core b h(3) h(1) disjI2 [OF h(2)]]
  show "pool_core (store64 m b v) c F L" "page_class_of (store64 m b v) c b = page_class_of m c b"
    "block_bytes (store64 m b v) c b = block_bytes m c b"
    using w b by auto
  show "live_kept m c (store64 m b v) c (L - {b})"
    by (rule write_keeps_live [OF core b h(3) h(1) disjI2 [OF h(2)]])
qed

section \<open>Large blocks\<close>

lemma PAGE_CLASS_LARGE_class [simp]:
  "page_class_of m c b = PAGE_CLASS_LARGE \<Longrightarrow> block_class m c b = 254"
  by (simp add: block_class_def PAGE_CLASS_LARGE_def)

lemma block_class_large:
  assumes "block_ok m c b" "\<not> block_class m c b < 19"
  shows "page_class_of m c b = PAGE_CLASS_LARGE" "block_class m c b = 254"
  using assms by (auto simp: block_ok_def)

text \<open>The user pointer of a large block is never NULL.\<close>

lemma large_user_not_NULL:
  assumes "unat b + 16 \<le> 140737488355328"
  shows "b + LARGE_META_SIZE \<noteq> NULL"
proof -
  have "unat (b + LARGE_META_SIZE) = unat b + 16" using assms by (simp add: no_wrap LARGE_META_SIZE_def)
  then show ?thesis by auto
qed

text \<open>The two header words of a fresh large block: they change 16 bytes and read back.\<close>

lemma large_header_words:
  fixes m :: mem and b t sz :: u64
  assumes "unat b + 16 \<le> 140737488355328"
  defines "m' \<equiv> store64 (store64 m (b + 8) t) b sz"
  shows "agree m m' (- area b 16)" "load64 m' b = sz" "load64 m' (b + 8) = t"
proof -
  have b8: "unat (b + 8) = unat b + 8" using assms by (simp add: no_wrap)
  show "agree m m' (- area b 16)"
  proof (unfold agree_def, intro ballI)
    fix a assume "a \<in> - area b 16"
    then have "a \<notin> area b 8" "a \<notin> area (b + 8) 8" using b8 by auto
    then show "m' a = m a" using assms(1) b8 unfolding m'_def by (simp add: store64_other del: in_area)
  qed
  show "load64 m' b = sz" by (simp add: m'_def)
  show "load64 m' (b + 8) = t"
    using assms(1) b8 unfolding m'_def by (subst load_store_apart) (auto simp: apart_def)
qed

text \<open>Writing inside the fresh pages of a pool keeps its old tags, its bumped region and the new tags.\<close>

lemma fresh_write:
  assumes g: "pool_geometry c" and t: "pool_page c dvd unat t" "0 < unat t"
    and fits: "pool_bump c + unat t \<le> pool_total c"
    and c1: "c1 = set_bump c (rg_bump (cx_region c) + t)"
    and m1: "m1 = tag_page_class m c1 (rg_bump (cx_region c)) t v"
    and A: "\<And>a. a \<in> A \<Longrightarrow> pool_base c + pool_bump c \<le> unat a \<and> unat a < pool_base c + pool_total c"
    and m3: "agree m1 m3 (- A)"
  shows "agree m m3 (used_tags c)" "agree m m3 (area (rg_base (cx_region c)) (pool_bump c))"
    "agree m1 m3 (used_tags c1)" "pool_frame m c m3 c1"
proof -
  note fp = fresh_pages [OF g t fits c1 m1]
  note pb = pool_geometry_bump [OF g t(1) fits, folded c1]
  have reg: "a \<in> A \<Longrightarrow> pool_base c \<le> unat a \<and> unat a < pool_base c + pool_total c" for a
    using A [of a] by simp
  have nt0: "A \<inter> used_tags c = {}" using reg used_tags_outside_region [OF g] by blast
  have "a \<in> used_tags c1 \<Longrightarrow> \<not> (pool_base c \<le> unat a \<and> unat a < pool_base c + pool_total c)" for a
    using used_tags_outside_region [OF pb(1), of a] by (simp add: c1)
  then have "A \<inter> used_tags c1 = {}" using reg by blast
  then show "agree m1 m3 (used_tags c1)" using m3 by (auto simp: agree_def)
  show "agree m m3 (used_tags c)" using fp(1) m3 nt0 by (rule agree_step)
  have "area (rg_base (cx_region c)) (pool_bump c) \<subseteq> area (rg_base (cx_region c)) (pool_total c)"
    using g by (intro area_mono) (simp add: pool_geometry_def)
  moreover have "A \<inter> area (rg_base (cx_region c)) (pool_bump c) = {}" using A by fastforce
  ultimately show "agree m m3 (area (rg_base (cx_region c)) (pool_bump c))"
    using agree_step [OF agree_subset [OF fp(2)] m3] by blast
  have "A \<subseteq> pool_area c" using reg by (auto simp: pool_area_def)
  then have "agree m1 m3 (- pool_area c)" by (intro agree_subset [OF m3]) blast
  then show "pool_frame m c m3 c1" using fp(4) agree_trans unfolding pool_frame_def by blast
qed

text \<open>The pages of a large block carved from the region.\<close>

lemma bump_large_fits:
  fixes m :: mem and c :: bc_context and t sz :: u64
  assumes core: "pool_core m c F L" and t: "pool_page c dvd unat t" "0 < unat t" and t16: "16 \<le> unat t"
    and fits: "pool_bump c + unat t \<le> pool_total c"
  defines "b \<equiv> rg_base (cx_region c) + rg_bump (cx_region c)"
    and "c1 \<equiv> set_bump c (rg_bump (cx_region c) + t)"
  defines "m1 \<equiv> tag_page_class m c1 (rg_bump (cx_region c)) t PAGE_CLASS_LARGE"
  defines "m3 \<equiv> store64 (store64 m1 (b + 8) t) b sz"
  shows "pool_core m3 c1 F (insert b L)" "b \<notin> L" "b \<noteq> NULL" "b + LARGE_META_SIZE \<noteq> NULL"
    "page_class_of m3 c1 b = PAGE_CLASS_LARGE" "load64 m3 b = sz" "block_bytes m3 c1 b = unat t"
    "live_kept m c m3 c1 L"
proof -
  have g: "pool_geometry c" using core by (rule pool_coreD)
  note gd = g [unfolded pool_geometry_def]
  note pb = pool_geometry_bump [OF g t(1) fits, folded b_def c1_def]
  have hi: "unat b + 16 \<le> 140737488355328" using pb(2) fits gd t16 by linarith
  note hw = large_header_words [OF hi, of m1 t sz, folded m3_def]
  have b16: "a \<in> area b 16 \<Longrightarrow> pool_base c + pool_bump c \<le> unat a \<and> unat a < pool_base c + pool_total c" for a
    using pb(2) fits t16 by auto
  note fw = fresh_write [OF g t fits c1_def [THEN meta_eq_to_obj_eq] m1_def [THEN meta_eq_to_obj_eq] b16 hw(1)]
  note fp = fresh_pages [OF g t fits c1_def [THEN meta_eq_to_obj_eq] m1_def [THEN meta_eq_to_obj_eq]]
  have "page_class_of m3 c1 b = page_class_of m1 c1 b"
    using fw(3) pb(2,4) t(2) by (intro page_class_of_cong [OF pb(1)]) (auto simp: agree_def c1_def)
  then show cls: "page_class_of m3 c1 b = PAGE_CLASS_LARGE" using fp(3) [of b] pb(2) t(2) by simp
  show bytes: "block_bytes m3 c1 b = unat t" using cls hw(3) by (simp add: block_bytes_def)
  have "pool_page c \<le> unat t" using t by (simp add: dvd_imp_le)
  then have okb: "block_ok m3 c1 b \<and> pool_base c + pool_bump c \<le> unat b"
    using cls bytes pb(2,4) t(1) gd by (elim conjE) (simp add: block_ok_def c1_def)
  have ex: "pool_core m3 c1 F (L \<union> {b})" "{b} \<inter> (free_blocks F \<union> L) = {}"
    "\<And>x. x \<in> free_blocks F \<union> L \<Longrightarrow> page_class_of m3 c1 x = page_class_of m c x"
    "\<And>x. x \<in> free_blocks F \<union> L \<Longrightarrow> block_bytes m3 c1 x = block_bytes m c x"
    using okb by (intro pool_core_extend [OF core t(1) fits c1_def [THEN meta_eq_to_obj_eq] fw(1,2), of "{b}"];
        auto simp: blocks_apart_def)+
  then show "pool_core m3 c1 F (insert b L)" "b \<notin> L" by auto
  show "live_kept m c m3 c1 L" using ex(3,4) by (intro live_kept_region [OF core fw(2) _ _ fw(4)]) auto
  show "load64 m3 b = sz" "b \<noteq> NULL" using hw(2) pb(3) by auto
  show "b + LARGE_META_SIZE \<noteq> NULL" using hi by (rule large_user_not_NULL)
qed

lemma bump_large_ok:
  assumes core: "pool_core m c F L" and t: "pool_page c dvd unat t" "0 < unat t"
    "pool_bump c + unat t < 18446744073709551616" and sz: "unat sz + 16 \<le> unat t"
    and run: "bump_large m c sz t = (p, m', c')"
  shows "p = NULL \<Longrightarrow> m' = m \<and> c' = c"
    and "p \<noteq> NULL \<Longrightarrow> \<exists>b. pool_core m' c' F (insert b L) \<and> b \<notin> L \<and> p = b + LARGE_META_SIZE
      \<and> page_class_of m' c' b = PAGE_CLASS_LARGE \<and> load64 m' b = sz
      \<and> block_bytes m' c' b = unat t \<and> live_kept m c m' c' L"
proof -
  note raw = bump_raw_eq [OF pool_coreD(1) [OF core] t(1,3)]
  have sz16: "16 \<le> unat t" using sz by simp
  note run' = run [unfolded bump_large_def raw Let_def]
  note fit = bump_large_fits [OF core t(1,2) sz16]
  show "p = NULL \<Longrightarrow> m' = m \<and> c' = c"
    using run' fit(3,4) by (auto split: if_splits)
  assume "p \<noteq> NULL"
  then have fits: "pool_bump c + unat t \<le> pool_total c" using run' by (auto split: if_splits)
  then show "\<exists>b. pool_core m' c' F (insert b L) \<and> b \<notin> L \<and> p = b + LARGE_META_SIZE
      \<and> page_class_of m' c' b = PAGE_CLASS_LARGE \<and> load64 m' b = sz
      \<and> block_bytes m' c' b = unat t \<and> live_kept m c m' c' L"
    using run' fit [OF fits] by (intro exI [of _ "rg_base (cx_region c) + rg_bump (cx_region c)"]) auto
qed

text \<open>Context updates that no block attribute depends on.\<close>

lemma live_kept_set [simp]:
  "live_kept m c m' (set_pool_list c' k fl) L = live_kept m c m' c' L"
  "live_kept m (set_pool_list c k fl) m' c' L = live_kept m c m' c' L"
  by (simp_all add: live_kept_def pool_frame_def)

lemma put_keeps_live:
  assumes core: "pool_core m c F L" and b: "b \<in> L" and out: "agree m m' (- area b 8)"
  shows "live_kept m c m' (set_pool_list c k fl) (L - {b})"
proof -
  note h = block_head [OF core b]
  show ?thesis using write_keeps_live [OF core b out h(1) disjI2 [OF h(2)]] by simp
qed

lemma pop_NULL_same:
  assumes "pool_core m c F L" "k < 20" "free_list_pop m (pool_list c k) = (NULL, fl)"
  shows "set_pool_list c k fl = c" "F k = []"
proof -
  have rep: "magazine_rep m (pool_list c k) (F k)" and len: "length (cx_pools c) = 19"
    using assms(1,2) by (auto simp: pool_core_def pool_geometry_def)
  show "F k = []" using magazine.pop_NULL_iff [OF rep assms(3)] by simp
  then have "fl = pool_list c k" using magazine.pop_empty rep assms(3) by simp
  then show "set_pool_list c k fl = c" using assms(2) len by (auto simp: set_pool_list_def pool_list_def)
qed

lemma pool_list_large [simp]: "pool_list c 19 = cx_large_pool c"
  "c\<lparr>cx_large_pool := fl\<rparr> = set_pool_list c 19 fl"
  "cx_large_pool (set_pool_list c 19 fl) = fl"
  by (simp_all add: pool_list_def set_pool_list_def)

lemma list_tag_simps: "list_tag 19 = PAGE_CLASS_LARGE" "k < 19 \<Longrightarrow> list_tag k = of_nat k"
  by (simp_all add: list_tag_def)

lemma free_block_tag:
  "pool_core m c F L \<Longrightarrow> k < 20 \<Longrightarrow> b \<in> set (F k) \<Longrightarrow> page_class_of m c b = list_tag k"
  by (simp add: pool_core_def)

text \<open>Popping a large block that turns out too small and pushing it back.\<close>

lemma large_put_back:
  assumes core: "pool_core m c F L"
    and pop: "free_list_pop m (cx_large_pool c) = (b, fl)" "b \<noteq> NULL"
    and push: "free_list_push m fl b = (m1, fl1)"
  shows "\<exists>F'. pool_core m1 (set_pool_list c 19 fl1) F' L"
    and "live_kept m c m1 (set_pool_list c 19 fl1) L"
proof -
  have k: "(19::nat) < 20" and pop': "free_list_pop m (pool_list c 19) = (b, fl)" using pop by simp_all
  obtain ys where t: "pool_core m (set_pool_list c 19 fl) (F(19 := ys)) (insert b L)"
    "b \<in> set (F 19)" by (rule pool_core_take [OF core k pop' pop(2)])
  have tag: "page_class_of m (set_pool_list c 19 fl) b = list_tag 19"
    using core t(2) k by (auto simp: pool_core_def)
  have "b \<notin> L" using core free_blocksI [of b F 19] t(2) by (auto simp: pool_core_def)
  then have L: "insert b L - {b} = L" by simp
  have len: "length (cx_pools c) = 19" using core by (simp add: pool_core_def pool_geometry_def)
  have push': "free_list_push m (pool_list (set_pool_list c 19 fl) 19) b = (m1, fl1)"
    using push len by simp
  obtain zs where p: "pool_core m1 (set_pool_list (set_pool_list c 19 fl) 19 fl1) ((F(19 := ys))(19 := zs))
      (insert b L - {b})" "agree m m1 (- area b 8)"
    by (rule pool_core_put [OF t(1) k insertI1 tag push'])
  show "\<exists>F'. pool_core m1 (set_pool_list c 19 fl1) F' L" using p(1) unfolding L by auto
  show "live_kept m c m1 (set_pool_list c 19 fl1) L"
    using put_keeps_live [OF t(1) insertI1 p(2)] unfolding L by simp
qed

section \<open>Large allocation\<close>

text \<open>The top free large block is reused when it is large enough.\<close>

lemma large_reuse:
  fixes m :: mem and c :: bc_context and b sz :: u64
  assumes core: "pool_core m c F L" and pop: "free_list_pop m (cx_large_pool c) = (b, fl)" "b \<noteq> NULL"
  defines "m' \<equiv> store64 m b sz" and "c' \<equiv> set_pool_list c 19 fl"
  shows "\<exists>F'. pool_core m' c' F' (insert b L)" "b \<notin> L" "b + LARGE_META_SIZE \<noteq> NULL"
    "page_class_of m' c' b = PAGE_CLASS_LARGE" "load64 m' b = sz"
    "block_bytes m' c' b = unat (large_meta_total_size m b)" "live_kept m c m' c' L"
proof -
  have g: "pool_geometry c" using core by (rule pool_coreD)
  have k: "(19::nat) < 20" and pop': "free_list_pop m (pool_list c 19) = (b, fl)" using pop by simp_all
  obtain ys where tk: "pool_core m c' (F(19 := ys)) (insert b L)" "b \<in> set (F 19)"
    unfolding c'_def by (rule pool_core_take [OF core k pop' pop(2)])
  show bL: "b \<notin> L" using core free_blocksI [of b F 19] tk(2) by (auto simp: pool_core_def)
  have cls: "page_class_of m c b = PAGE_CLASS_LARGE"
    using free_block_tag [OF core k tk(2)] by (simp add: list_tag_simps)
  note us = set_user_size [OF tk(1) insertI1, of sz, folded m'_def]
  show "\<exists>F'. pool_core m' c' F' (insert b L)" using us(1) by blast
  show "page_class_of m' c' b = PAGE_CLASS_LARGE" "block_bytes m' c' b = unat (large_meta_total_size m b)"
    using us(3,4) cls by (simp_all add: c'_def block_bytes_def)
  show "load64 m' b = sz" by (simp add: m'_def)
  have "block_ok m c b" by (rule pool_coreD(4) [OF core]) (use tk(2) k free_blocksI in auto)
  then show "b + LARGE_META_SIZE \<noteq> NULL" by (intro large_user_not_NULL block_ok_range(5) [OF g])
  have "insert b L - {b} = L" using bL by simp
  then show "live_kept m c m' c' L" using us(2) by (simp add: c'_def)
qed

text \<open>What a large allocation leaves: the block with its header, or the pool with the same live blocks.\<close>

definition large_result :: "mem \<Rightarrow> bc_context \<Rightarrow> u64 set \<Rightarrow> u64 \<Rightarrow> u64 \<Rightarrow> mem \<Rightarrow> bc_context \<Rightarrow> bool" where
  "large_result m c L sz p m' c' =
     (if p = NULL then (\<exists>F'. pool_core m' c' F' L) \<and> live_kept m c m' c' L
      else \<exists>F' b. pool_core m' c' F' (insert b L) \<and> b \<notin> L \<and> p = b + LARGE_META_SIZE
        \<and> page_class_of m' c' b = PAGE_CLASS_LARGE \<and> load64 m' b = sz
        \<and> unat sz + 16 \<le> block_bytes m' c' b \<and> live_kept m c m' c' L)"

lemma bump_large_result:
  assumes "pool_core m c F L" "pool_page c dvd unat t" "0 < unat t"
    "pool_bump c + unat t < 18446744073709551616" "unat sz + 16 \<le> unat t"
    "bump_large m c sz t = (p, m', c')" "live_kept m0 c0 m c L"
  shows "large_result m0 c0 L sz p m' c'"
proof -
  note bl = bump_large_ok [OF assms(1-6)]
  show ?thesis
  proof (cases "p = NULL")
    case True
    then show ?thesis using bl(1) assms(1,7) by (auto simp: large_result_def)
  next
    case False
    from bl(2) [OF False] show ?thesis
      using False assms(5) live_kept_trans [OF assms(7)] unfolding large_result_def by fastforce
  qed
qed

context bc_core
begin

lemma large_total:
  assumes "pool_geometry c" "unat sz \<le> 9223372036854775808"
    "core_safe_add E LARGE_META_SIZE sz = Some r" "core_align_up E r (cx_page_size c) = Some t"
  shows "pool_page c dvd unat t" "0 < unat t" "unat sz + 16 \<le> unat t"
    "pool_bump c + unat t < 18446744073709551616"
proof -
  note gd = assms(1) [unfolded pool_geometry_def]
  have r: "unat r = unat sz + 16"
    using assms(2,3) safe_add [of LARGE_META_SIZE sz]
    by (auto simp: LARGE_META_SIZE_def no_wrap split: if_splits)
  have pg: "0 < pool_page c" using pool_page_pos [OF assms(1)] by simp
  obtain s where "pool_page c = 2 ^ s" using gd by blast
  then have t: "unat t = round_up (unat r) (pool_page c)" using align_up_Some assms(4) by blast
  show "pool_page c dvd unat t" using t by simp
  show le: "unat sz + 16 \<le> unat t" using round_up_ge [OF pg, of "unat r"] t r by simp
  then show "0 < unat t" by simp
  have "(2::nat) ^ unat (cx_page_shift c) \<le> 2 ^ 20" using gd by (intro power_increasing) auto
  then have "pool_page c \<le> 1048576" using gd by simp
  moreover have "pool_bump c \<le> 140737488355328" using gd by linarith
  ultimately show "pool_bump c + unat t < 18446744073709551616"
    using round_up_less [OF pg, of "unat r"] t r assms(2) by linarith
qed

lemma allocate_large_result:
  assumes core: "pool_core m c F L" and sz: "unat sz \<le> 9223372036854775808"
    and run: "allocate_large E m c sz = (p, m', c')"
  shows "large_result m c L sz p m' c'"
proof (cases "\<exists>r t. core_safe_add E LARGE_META_SIZE sz = Some r \<and> core_align_up E r (cx_page_size c) = Some t")
  case False
  then have "(p, m', c') = (NULL, m, c)" using run by (auto simp: allocate_large_def split: option.splits)
  then show ?thesis using core by (auto simp: large_result_def)
next
  case True
  then obtain r t where rt: "core_safe_add E LARGE_META_SIZE sz = Some r"
    "core_align_up E r (cx_page_size c) = Some t" by blast
  note lt = large_total [OF pool_coreD(1) [OF core] sz rt]
  obtain b fl where pop: "free_list_pop m (cx_large_pool c) = (b, fl)" by fastforce
  note run1 = run [unfolded allocate_large_def rt option.case pop prod.case, simplified]
  consider "b = NULL" | "b \<noteq> NULL" "t \<le> large_meta_total_size m b" | "b \<noteq> NULL" "\<not> t \<le> large_meta_total_size m b"
    by blast
  then show ?thesis
  proof cases
    case 1
    then have "set_pool_list c 19 fl = c" using pop_NULL_same [OF core, of 19 fl] pop by simp
    then have "bump_large m c sz t = (p, m', c')" using run1 1 by simp
    then show ?thesis by (intro bump_large_result [OF core lt(1,2,4,3)]) simp_all
  next
    case 2
    then have res: "p = b + LARGE_META_SIZE" "m' = store64 m b sz" "c' = set_pool_list c 19 fl"
      using run1 by simp_all
    note lr = large_reuse [OF core pop 2(1)]
    have "unat sz + 16 \<le> block_bytes m' c' b" using lr(6) [of sz] lt(3) 2(2) by (simp add: res word_le_nat_alt)
    then show ?thesis using lr(1,4,5,7) [of sz] lr(2,3) by (auto simp: large_result_def res)
  next
    case 3
    obtain m1 fl1 where push: "free_list_push m fl b = (m1, fl1)" by fastforce
    have run2: "bump_large m1 (set_pool_list c 19 fl1) sz t = (p, m', c')" using run1 3 push by simp
    note pb = large_put_back [OF core pop 3(1) push]
    obtain F1 where core1: "pool_core m1 (set_pool_list c 19 fl1) F1 L" using pb(1) by blast
    show ?thesis using lt by (intro bump_large_result [OF core1 _ _ _ _ run2 pb(2)]) simp_all
  qed
qed

lemma allocate_large_ok:
  assumes "pool_core m c F L" "unat sz \<le> 9223372036854775808" "allocate_large E m c sz = (p, m', c')"
  shows "p = NULL \<Longrightarrow> (\<exists>F'. pool_core m' c' F' L) \<and> live_kept m c m' c' L"
    and "p \<noteq> NULL \<Longrightarrow> \<exists>F' b. pool_core m' c' F' (insert b L) \<and> b \<notin> L \<and> p = b + LARGE_META_SIZE
      \<and> page_class_of m' c' b = PAGE_CLASS_LARGE \<and> load64 m' b = sz
      \<and> unat sz + 16 \<le> block_bytes m' c' b \<and> live_kept m c m' c' L"
  using allocate_large_result [OF assms] by (simp_all add: large_result_def)

end

declare pool_list_large(2) [simp del]

end
