(* ===== verification/BC_Pool_Spec.thy ===== *)
theory BC_Pool_Spec
  imports BC_Pool_Large
begin

text \<open>
  The specification of the public pool operations. \<open>pool_inv m c L\<close> says that the pool is well formed
  with live blocks \<open>L\<close>: \<open>pool_core\<close> for some contents of the free lists, the recorded size of every
  live large block fits it, and the statistics count the live blocks. Each operation keeps it, hands
  out a block that was not live, and leaves the class, extent and every byte of all other live blocks
  as they were.
\<close>

section \<open>The part of the context the pool reads\<close>

definition pool_view ::
  "bc_context \<Rightarrow> region \<times> u64 \<times> u64 \<times> free_list list \<times> free_list" where
  "pool_view c = (cx_region c, cx_page_size c, cx_page_shift c, cx_pools c, cx_large_pool c)"

lemma pool_view_cong:
  assumes "pool_view c' = pool_view c"
  shows "page_class_of m c' b = page_class_of m c b" "block_class m c' b = block_class m c b"
    "block_bytes m c' b = block_bytes m c b" "user_ptr m c' b = user_ptr m c b"
    "usable m c' b = usable m c b" "pool_core m c' F L = pool_core m c F L"
    "sizes_fit m c' L = sizes_fit m c L" "live_kept m1 c1 m c' L = live_kept m1 c1 m c L"
    "live_kept m c' m1 c1 L = live_kept m c m1 c1 L"
proof -
  have v: "cx_region c' = cx_region c" "cx_page_size c' = cx_page_size c"
    "cx_page_shift c' = cx_page_shift c" "cx_pools c' = cx_pools c" "cx_large_pool c' = cx_large_pool c"
    using assms by (auto simp: pool_view_def)
  have pc: "page_class_of m c' b = page_class_of m c b" for m b by (simp add: page_class_of_def v)
  then have bc: "block_class m c' b = block_class m c b" for m b by (simp add: block_class_def)
  then have bb: "block_bytes m c' b = block_bytes m c b" for m b by (simp add: block_bytes_def)
  have ok: "block_ok m c' b = block_ok m c b" for b by (simp add: block_ok_def v pc bc bb)
  have pl: "pool_list c' k = pool_list c k" for k by (simp add: pool_list_def v)
  have ps: "pool_shape c' = pool_shape c" by (simp add: pool_shape_def v)
  show "page_class_of m c' b = page_class_of m c b" "block_class m c' b = block_class m c b"
    "block_bytes m c' b = block_bytes m c b" by (fact pc bc bb)+
  show "user_ptr m c' b = user_ptr m c b" "usable m c' b = usable m c b"
    "sizes_fit m c' L = sizes_fit m c L" "live_kept m1 c1 m c' L = live_kept m1 c1 m c L"
    "live_kept m c' m1 c1 L = live_kept m c m1 c1 L"
    by (simp_all add: user_ptr_def usable_def sizes_fit_def live_kept_def pc bc bb pool_frame_def ps pool_area_shape [OF ps])
  show "pool_core m c' F L = pool_core m c F L"
    by (simp add: pool_core_def pool_geometry_def blocks_apart_def v pc bb ok pl)
qed

lemma pool_view_track [simp]:
  "pool_view (track_alloc c n) = pool_view c" "pool_view (track_free c n) = pool_view c"
  by (simp_all add: pool_view_def track_alloc_def track_free_def)

lemmas track_alloc_view [simp] = pool_view_cong [OF pool_view_track(1)]
lemmas track_free_view [simp] = pool_view_cong [OF pool_view_track(2)]

section \<open>The invariant and the statistics\<close>

definition pool_stats :: "mem \<Rightarrow> bc_context \<Rightarrow> u64 set \<Rightarrow> bool" where
  "pool_stats m c L \<longleftrightarrow>
     (cx_tracking_enabled c \<longrightarrow>
        cx_pool_alloc_count c = cx_pool_free_count c + of_nat (card L) \<and>
        cx_pool_active_bytes c = of_nat (\<Sum>b \<in> L. usable m c b))"

definition pool_inv :: "mem \<Rightarrow> bc_context \<Rightarrow> u64 set \<Rightarrow> bool" where
  "pool_inv m c L \<longleftrightarrow> (\<exists>F. pool_core m c F L) \<and> sizes_fit m c L \<and> pool_stats m c L"

text \<open>The counters and the tracking flag, which only the two \<^verbatim>\<open>track\<close> functions change.\<close>

definition stat_view :: "bc_context \<Rightarrow> bool \<times> u64 \<times> u64 \<times> u64" where
  "stat_view c =
     (cx_tracking_enabled c, cx_pool_alloc_count c, cx_pool_free_count c, cx_pool_active_bytes c)"

lemma pool_stats_kept:
  assumes "pool_stats m c L" "stat_view c' = stat_view c"
    and "\<And>b. b \<in> L \<Longrightarrow> usable m' c' b = usable m c b"
  shows "pool_stats m' c' L"
proof -
  have "(\<Sum>b \<in> L. usable m' c' b) = (\<Sum>b \<in> L. usable m c b)"
    using assms(3) by (intro sum.cong) auto
  then show ?thesis using assms(1,2) by (simp add: pool_stats_def stat_view_def)
qed

lemma pool_stats_alloc:
  assumes st: "pool_stats m c L" and L: "finite L" "b \<notin> L" and n: "unat n = usable m c b"
  shows "pool_stats m (track_alloc c n) (insert b L)"
proof -
  have "n = of_nat (usable m c b)" by (simp flip: n)
  moreover have "cx_tracking_enabled (track_alloc c n) = cx_tracking_enabled c"
    "cx_tracking_enabled c \<Longrightarrow> cx_pool_alloc_count (track_alloc c n) = cx_pool_alloc_count c + 1"
    "cx_pool_free_count (track_alloc c n) = cx_pool_free_count c"
    "cx_tracking_enabled c \<Longrightarrow> cx_pool_active_bytes (track_alloc c n) = cx_pool_active_bytes c + n"
    by (simp_all add: track_alloc_def)
  ultimately show ?thesis using st L by (simp add: pool_stats_def)
qed

lemma pool_stats_free:
  assumes st: "pool_stats m c L" and L: "finite L" "b \<in> L" and n: "unat n = usable m c b"
  shows "pool_stats m (track_free c n) (L - {b})"
proof -
  have "n = of_nat (usable m c b)" by (simp flip: n)
  moreover have "cx_tracking_enabled (track_free c n) = cx_tracking_enabled c"
    "cx_pool_alloc_count (track_free c n) = cx_pool_alloc_count c"
    "cx_tracking_enabled c \<Longrightarrow> cx_pool_free_count (track_free c n) = cx_pool_free_count c + 1"
    "cx_tracking_enabled c \<Longrightarrow> cx_pool_active_bytes (track_free c n) = cx_pool_active_bytes c - n"
    by (simp_all add: track_free_def)
  moreover obtain K where "L = insert b K" "b \<notin> K" using L(2) by (meson Set.set_insert)
  ultimately show ?thesis using st L by (auto simp: pool_stats_def)
qed

lemma stat_view_set [simp]: "stat_view (set_pool_list c k fl) = stat_view c"
  by (simp add: stat_view_def set_pool_list_def)

lemma stat_view_large [simp]: "stat_view (c\<lparr>cx_large_pool := fl\<rparr>) = stat_view c"
  by (simp add: stat_view_def)

lemma stat_view_bump_raw: "bump_raw c n = (p, c') \<Longrightarrow> stat_view c' = stat_view c"
  by (auto simp: bump_raw_def Let_def stat_view_def split: if_splits)

lemma stat_view_bump_large: "bump_large m c sz t = (p, m', c') \<Longrightarrow> stat_view c' = stat_view c"
proof -
  assume run: "bump_large m c sz t = (p, m', c')"
  obtain b c1 where r: "bump_raw c t = (b, c1)" by fastforce
  have "c' = c1" using run unfolding bump_large_def r prod.case Let_def by (cases "b = NULL") simp_all
  then show ?thesis using stat_view_bump_raw [OF r] by simp
qed

lemma stat_view_allocate_large: "allocate_large E m c sz = (p, m', c') \<Longrightarrow> stat_view c' = stat_view c"
  by (auto simp: allocate_large_def split: if_splits prod.splits option.splits
      dest!: stat_view_bump_large)

lemma stat_view_bump_class:
  "bump_allocate_class E m c k = (p, m', c') \<Longrightarrow> stat_view c' = stat_view c"
  by (auto simp: bump_allocate_class_def Let_def stat_view_def split: if_splits prod.splits option.splits
      dest!: stat_view_bump_raw)

section \<open>Live blocks and their user areas\<close>

definition user_area :: "mem \<Rightarrow> bc_context \<Rightarrow> u64 \<Rightarrow> u64 set" where
  "user_area m c b = area (user_ptr m c b) (usable m c b)"

lemma live_block_facts:
  assumes inv: "pool_inv m c L" and b: "b \<in> L"
  shows "pool_geometry c" "block_ok m c b"
    "unat (user_ptr m c b) = (if block_class m c b < 19 then unat b else unat b + 16)"
    "unat (user_ptr m c b) + usable m c b \<le> unat b + block_bytes m c b"
    "user_area m c b \<subseteq> area b (block_bytes m c b)"
    "block_class m c b < 19 \<or> user_area m c b \<inter> area b 16 = {}"
    "unat (user_ptr m c b) + usable m c b \<le> pool_base c + pool_total c" "user_ptr m c b \<noteq> NULL"
proof -
  obtain F where core: "pool_core m c F L" using inv by (auto simp: pool_inv_def)
  show g: "pool_geometry c" and ok: "block_ok m c b" using core b pool_coreD by blast+
  note r = block_ok_range [OF g ok] and gd = g [unfolded pool_geometry_def]
  show u: "unat (user_ptr m c b) = (if block_class m c b < 19 then unat b else unat b + 16)"
    using r(5) by (simp add: user_ptr_def LARGE_META_SIZE_def no_wrap)
  show le: "unat (user_ptr m c b) + usable m c b \<le> unat b + block_bytes m c b"
    using inv b u by (auto simp: pool_inv_def sizes_fit_def usable_def block_bytes_def)
  then show "user_area m c b \<subseteq> area b (block_bytes m c b)"
    using u unfolding user_area_def by (cases "block_class m c b < 19") auto
  show "block_class m c b < 19 \<or> user_area m c b \<inter> area b 16 = {}"
    using u by (auto simp: user_area_def)
  show "unat (user_ptr m c b) + usable m c b \<le> pool_base c + pool_total c"
    using le r(2) gd by linarith
  have "0 < unat (user_ptr m c b)" using u r(1) gd by simp
  then show "user_ptr m c b \<noteq> NULL" by auto
qed

text \<open>A client may write any byte of a block it holds: nothing else of the pool changes.\<close>

lemma client_write:
  assumes inv: "pool_inv m c L" and b: "b \<in> L" and out: "agree m m' (- user_area m c b)"
  shows "pool_inv m' c L" "live_kept m c m' c (L - {b})"
    "user_ptr m' c b = user_ptr m c b" "usable m' c b = usable m c b"
    "page_class_of m' c b = page_class_of m c b" "block_bytes m' c b = block_bytes m c b"
proof -
  obtain F where core: "pool_core m c F L" using inv by (auto simp: pool_inv_def)
  note f = live_block_facts [OF inv b]
  have b8: "area (b + 8) 8 \<subseteq> area b 16" "area b 8 \<subseteq> area b 16"
    using block_ok_range(5) [OF f(1,2)] by (auto simp: no_wrap)
  have large: "block_class m c b < 19 \<or> user_area m c b \<inter> area (b + 8) 8 = {}" using f(6) b8 by blast
  note w = pool_core_write [OF core b out f(5) large]
  show kept: "live_kept m c m' c (L - {b})" by (rule write_keeps_live [OF core b out f(5) large])
  show pc: "page_class_of m' c b = page_class_of m c b" and bb: "block_bytes m' c b = block_bytes m c b"
    using w(2,3) b by auto
  then have bc: "block_class m' c b = block_class m c b" by (simp add: block_class_def)
  then show up: "user_ptr m' c b = user_ptr m c b" by (simp add: user_ptr_def)
  have "load64 m' b = load64 m b" if "\<not> block_class m c b < 19"
  proof -
    have "area b 8 \<inter> user_area m c b = {}" using that f(6) b8 by blast
    then have "agree m m' (area b 8)" using out by (auto intro: agree_subset simp del: in_area)
    then show ?thesis using block_ok_range(5) [OF f(1,2)] by (intro load64_cong) auto
  qed
  then show us: "usable m' c b = usable m c b" using bc by (simp add: usable_def)
  have u: "usable m' c x = usable m c x" if "x \<in> L" for x
    using live_kept_block(4) [OF kept _ core that] that us by (cases "x = b") auto
  have "sizes_fit m' c L"
    using inv w(2,3) u by (fastforce simp: pool_inv_def sizes_fit_def usable_def block_class_def)
  then show "pool_inv m' c L"
    using inv w(1) pool_stats_kept [of m c L c m'] u by (auto simp: pool_inv_def)
qed

text \<open>The invariant after an operation that handed out a new block, and after one that did not.\<close>

lemma pool_inv_same:
  assumes inv: "pool_inv m c L" and core: "pool_core m' c' F' L" and kept: "live_kept m c m' c' L"
    and st: "stat_view c' = stat_view c"
  shows "pool_inv m' c' L"
proof -
  obtain F where F: "pool_core m c F L" using inv by (auto simp: pool_inv_def)
  note u = live_kept_block(4) [OF kept _ F]
  show ?thesis
    using inv core sizes_fit_kept [OF _ kept F] pool_stats_kept [OF _ st] u by (auto simp: pool_inv_def)
qed

lemma pool_inv_new:
  assumes inv: "pool_inv m c L" and core: "pool_core m' c' F' (insert b L)" and b: "b \<notin> L"
    and kept: "live_kept m c m' c' L" and st: "stat_view c' = stat_view c"
    and n: "unat n = usable m' c' b"
    and fit: "19 \<le> block_class m' c' b \<Longrightarrow> unat (load64 m' b) + 16 \<le> block_bytes m' c' b"
  shows "pool_inv m' (track_alloc c' n) (insert b L)"
proof -
  obtain F where F: "pool_core m c F L" using inv by (auto simp: pool_inv_def)
  note u = live_kept_block(4) [OF kept _ F]
  have "sizes_fit m' c' L" using inv sizes_fit_kept [OF _ kept F] by (simp add: pool_inv_def)
  then have "sizes_fit m' c' (insert b L)" using fit by (auto simp: sizes_fit_def)
  moreover have "pool_stats m' c' L"
    using inv pool_stats_kept [OF _ st] u by (auto simp: pool_inv_def)
  then have "pool_stats m' (track_alloc c' n) (insert b L)"
    using pool_coreD(2) [OF F] b n by (intro pool_stats_alloc)
  ultimately show ?thesis using core by (auto simp: pool_inv_def)
qed

lemma class_block_facts:
  assumes "page_class_of m c b = of_nat k" "k < 19"
  shows "block_class m c b = k" "user_ptr m c b = b" "usable m c b = class_bytes k"
    "block_bytes m c b = class_bytes k"
proof -
  show bc: "block_class m c b = k" using assms by (simp add: block_class_def unat_of_nat)
  then show "user_ptr m c b = b" "usable m c b = class_bytes k" "block_bytes m c b = class_bytes k"
    using assms(2) by (simp_all add: user_ptr_def usable_def block_bytes_def)
qed

lemma large_block_facts:
  assumes "page_class_of m c b = PAGE_CLASS_LARGE"
  shows "user_ptr m c b = b + LARGE_META_SIZE" "usable m c b = unat (load64 m b)"
    "block_class m c b = 254"
  using assms by (simp_all add: user_ptr_def usable_def)

lemma set_pools_eq: "k < 19 \<Longrightarrow> c\<lparr>cx_pools := (cx_pools c)[k := fl]\<rparr> = set_pool_list c k fl"
  and pools_nth_eq: "k < 19 \<Longrightarrow> cx_pools c ! k = pool_list c k"
  by (simp_all add: set_pool_list_def pool_list_def)

section \<open>Allocation\<close>

definition alloc_result ::
  "mem \<Rightarrow> bc_context \<Rightarrow> u64 set \<Rightarrow> u64 \<Rightarrow> u64 option \<Rightarrow> mem \<Rightarrow> bc_context \<Rightarrow> bool" where
  "alloc_result m c L sz r m' c' \<longleftrightarrow>
     live_kept m c m' c' L \<and>
     (case r of
        None \<Rightarrow> pool_inv m' c' L
      | Some p \<Rightarrow> \<exists>b. b \<notin> L \<and> pool_inv m' c' (insert b L) \<and> p = user_ptr m' c' b \<and>
                   unat sz \<le> usable m' c' b)"

lemma alloc_result_Some:
  assumes "live_kept m c m' c' L" "b \<notin> L" "pool_inv m' c' (insert b L)" "user_ptr m' c' b = p"
    "unat sz \<le> usable m' c' b"
  shows "alloc_result m c L sz (Some p) m' c'"
  using assms by (auto simp: alloc_result_def)

context bc_core
begin

lemma pool_allocate_class:
  assumes inv: "pool_inv m c L" and k: "size_class_for_size E sz = int k" "k < 19"
    "unat sz \<le> class_bytes k" and sz: "sz \<noteq> 0"
    and run: "bc_allocators_pool_allocate E m c sz = (r, m', c')"
  shows "alloc_result m c L sz r m' c'"
    and "r = Some p \<Longrightarrow> page_class_of m' c' p = of_nat k"
proof -
  obtain F where core: "pool_core m c F L" using inv by (auto simp: pool_inv_def)
  obtain b fl where pop: "free_list_pop m (pool_list c k) = (b, fl)" by fastforce
  define c1 where "c1 = set_pool_list c k fl"
  define cs where "cs = bc_allocators_class_sizes ! k"
  have cs: "unat cs = class_bytes k" using k(2) by (simp add: cs_def)
  have run1: "(if b \<noteq> NULL then (Some b, m, track_alloc c1 cs)
      else case bump_allocate_class E m c1 k of (block, m2, c2) \<Rightarrow>
        if block = NULL then (None, m2, c2) else (Some block, m2, track_alloc c2 cs)) = (r, m', c')"
    using run sz pop
    unfolding bc_allocators_pool_allocate_def Let_def cs_def c1_def set_pools_eq [OF k(2), symmetric]
      k(1) nat_int
    by (simp add: pools_nth_eq [OF k(2)])
  have "alloc_result m c L sz r m' c' \<and> (\<forall>p. r = Some p \<longrightarrow> page_class_of m' c' p = of_nat k)"
  proof (cases "b = NULL")
    case False
    have k20: "k < 20" using k(2) by simp
    obtain ys where tk: "pool_core m c1 (F(k := ys)) (insert b L)" "b \<in> set (F k)"
      unfolding c1_def by (rule pool_core_take [OF core k20 pop False])
    have bL: "b \<notin> L" using core free_blocksI [of b F k] tk(2) k20 by (auto simp: pool_core_def)
    have cls: "page_class_of m c1 b = of_nat k"
      using free_block_tag [OF core k20 tk(2)] k(2) by (simp add: c1_def list_tag_simps)
    note cf = class_block_facts [OF cls k(2)]
    have "pool_inv m (track_alloc c1 cs) (insert b L)"
      using cf k(2) cs by (intro pool_inv_new [OF inv tk(1) bL]) (simp_all add: c1_def)
    moreover have "live_kept m c m c1 L" by (simp add: c1_def)
    moreover have "r = Some b" "m' = m" "c' = track_alloc c1 cs" using run1 False by simp_all
    ultimately show ?thesis using cf cls bL k(3) alloc_result_Some [of m c m' c' L b b sz] by simp
  next
    case True
    have c1: "c1 = c" using pop_NULL_same [OF core, of k fl] pop True k(2) by (simp add: c1_def)
    obtain q m2 c2 where bu: "bump_allocate_class E m c k = (q, m2, c2)" by (metis prod_cases3)
    note ok = bump_allocate_class_ok [OF core k(2) bu]
    have res: "(if q = NULL then (None, m2, c2) else (Some q, m2, track_alloc c2 cs)) = (r, m', c')"
      using run1 True bu c1 by simp
    show ?thesis
    proof (cases "q = NULL")
      case True
      then show ?thesis using ok(1) res inv by (auto simp: alloc_result_def)
    next
      case False
      obtain F' where F': "pool_core m2 c2 F' (insert q L)" "q \<notin> L"
        "page_class_of m2 c2 q = of_nat k" "live_kept m c m2 c2 L" using ok(2) [OF False] by blast
      note cf = class_block_facts [OF F'(3) k(2)]
      have "pool_inv m2 (track_alloc c2 cs) (insert q L)"
        using cf k(2) cs stat_view_bump_class [OF bu] F'(4) by (intro pool_inv_new [OF inv F'(1,2)]) simp_all
      then show ?thesis
        using res False cf F' k(3) alloc_result_Some [of m c m' c' L q q sz] by auto
    qed
  qed
  then show "alloc_result m c L sz r m' c'"
    and "r = Some p \<Longrightarrow> page_class_of m' c' p = of_nat k" by blast+
qed

lemma pool_allocate_large:
  assumes inv: "pool_inv m c L" and sz: "4194304 < unat sz" "unat sz \<le> 9223372036854775808"
    and run: "bc_allocators_pool_allocate E m c sz = (r, m', c')"
  shows "alloc_result m c L sz r m' c'"
proof -
  obtain F where core: "pool_core m c F L" using inv by (auto simp: pool_inv_def)
  obtain q m2 c2 where al: "allocate_large E m c sz = (q, m2, c2)" by (metis prod_cases3)
  note ok = allocate_large_ok [OF core sz(2) al] and st = stat_view_allocate_large [OF al]
  have "sz \<noteq> 0" using sz(1) by auto
  then have res: "(if q = NULL then (None, m2, c2) else (Some q, m2, track_alloc c2 sz)) = (r, m', c')"
    using run al size_class_too_big [OF sz(1)] by (simp add: bc_allocators_pool_allocate_def Let_def)
  show ?thesis
  proof (cases "q = NULL")
    case True
    then show ?thesis using ok(1) res st pool_inv_same [OF inv] by (auto simp: alloc_result_def)
  next
    case False
    obtain F' b where F': "pool_core m2 c2 F' (insert b L)" "b \<notin> L" "q = b + LARGE_META_SIZE"
      "page_class_of m2 c2 b = PAGE_CLASS_LARGE" "load64 m2 b = sz"
      "unat sz + 16 \<le> block_bytes m2 c2 b" "live_kept m c m2 c2 L" using ok(2) [OF False] by blast
    note lf = large_block_facts [OF F'(4)]
    have "pool_inv m2 (track_alloc c2 sz) (insert b L)"
      using lf F' st by (intro pool_inv_new [OF inv F'(1,2)]) simp_all
    then have "alloc_result m c L sz (Some q) m2 (track_alloc c2 sz)"
      using lf F' by (intro alloc_result_Some [of _ _ _ _ _ b]) simp_all
    then show ?thesis using res False by simp
  qed
qed

lemma pool_allocate_ok:
  assumes inv: "pool_inv m c L" and sz: "unat sz \<le> 9223372036854775808"
    and run: "bc_allocators_pool_allocate E m c sz = (r, m', c')"
  shows "alloc_result m c L sz r m' c'"
proof (cases "sz = 0")
  case True
  then show ?thesis using run inv by (simp add: bc_allocators_pool_allocate_def alloc_result_def)
next
  case nz: False
  show ?thesis
  proof (cases "unat sz \<le> 4194304")
    case True
    obtain k where "size_class_for_size E sz = int k" "k < 19" "unat sz \<le> class_bytes k"
      using size_class_bounds [OF True] by metis
    then show ?thesis using pool_allocate_class(1) [OF inv _ _ _ nz run] by blast
  next
    case False
    then show ?thesis using pool_allocate_large [OF inv _ sz run] by simp
  qed
qed

end

section \<open>Freeing\<close>

lemma pool_inv_gone:
  assumes inv: "pool_inv m c L" and b: "b \<in> L" and core: "pool_core m' c' F' (L - {b})"
    and kept: "live_kept m c m' c' (L - {b})" and st: "stat_view c' = stat_view c"
    and n: "unat n = usable m c b"
  shows "pool_inv m' (track_free c' n) (L - {b})"
proof -
  obtain F where F: "pool_core m c F L" using inv by (auto simp: pool_inv_def)
  note u = live_kept_block(1,3,4) [OF kept _ F]
  have fit: "sizes_fit m' c' (L - {b})"
    using inv u kept by (auto simp: pool_inv_def sizes_fit_def live_kept_def)
  have sv: "stat_view (track_free c' n) = stat_view (track_free c n)"
    using st by (auto simp: stat_view_def track_free_def)
  have "pool_stats m (track_free c n) (L - {b})"
    using inv pool_coreD(2) [OF F] b n by (intro pool_stats_free) (auto simp: pool_inv_def)
  then have "pool_stats m' (track_free c' n) (L - {b})"
    using sv by (rule pool_stats_kept) (use u in auto)
  then show ?thesis using core fit by (auto simp: pool_inv_def)
qed

lemma user_ptr_lookup:
  assumes inv: "pool_inv m c L" and b: "b \<in> L"
  shows "page_class_of m c (user_ptr m c b) = page_class_of m c b" "ptr_in_region c (user_ptr m c b)"
    "\<not> block_class m c b < 19 \<Longrightarrow> user_ptr m c b - LARGE_META_SIZE = b"
proof -
  note f = live_block_facts [OF inv b] and r = block_ok_range [OF live_block_facts(1,2) [OF inv b]]
  note gd = f(1) [unfolded pool_geometry_def]
  have top: "unat (user_ptr m c b) < pool_base c + pool_total c"
  proof (cases "block_class m c b < 19")
    case True
    then show ?thesis using f(3) r(3) gd by simp
  next
    case False
    then have "4096 \<le> block_bytes m c b"
      using f(2) pool_page_pos [OF f(1)] by (auto simp: block_ok_def)
    then show ?thesis using False f(3) r(2) gd by (elim conjE) simp
  qed
  have lo: "pool_base c \<le> unat (user_ptr m c b)" using f(3) r(1) by (simp split: if_splits)
  show "ptr_in_region c (user_ptr m c b)"
    using top lo gd by (simp add: ptr_in_region_def Let_def word_le_nat_alt word_less_nat_alt no_wrap)
  show "user_ptr m c b - LARGE_META_SIZE = b" if "\<not> block_class m c b < 19"
    using that by (simp add: user_ptr_def)
  show "page_class_of m c (user_ptr m c b) = page_class_of m c b"
  proof (cases "block_class m c b < 19")
    case True
    then show ?thesis by (simp add: user_ptr_def)
  next
    case False
    then have "pool_page c dvd unat b" using f(2) by (simp add: block_ok_def)
    then have d: "pool_page c dvd unat b - pool_base c" using gd by (elim conjE) (simp add: dvd_diff_nat)
    then obtain q where q: "unat b - pool_base c = pool_page c * q" by (rule dvdE)
    have "unat b + 16 - pool_base c = pool_page c * q + 16" using q r(1) by linarith
    then have "(unat b + 16 - pool_base c) div pool_page c = (pool_page c * q + 16) div pool_page c"
      by (rule arg_cong)
    also have "\<dots> = q" using pool_page_pos [OF f(1)] by simp
    also have "\<dots> = (unat b - pool_base c) div pool_page c" using q pool_page_pos [OF f(1)] by simp
    finally have "unat (tag_addr c (user_ptr m c b)) = unat (tag_addr c b)"
      using False f(3) lo top r gd by (simp add: unat_tag_addr [OF f(1)])
    then have "tag_addr c (user_ptr m c b) = tag_addr c b" by (simp only: u64_eq_iff)
    then show ?thesis by (simp add: page_class_of_tag)
  qed
qed

lemma pool_free_ok:
  assumes inv: "pool_inv m c L" and b: "b \<in> L"
    and run: "bc_allocators_pool_free m c (user_ptr m c b) = (m', c')"
  shows "pool_inv m' c' (L - {b})" "live_kept m c m' c' (L - {b})"
proof -
  obtain F where core: "pool_core m c F L" using inv by (auto simp: pool_inv_def)
  note lk = user_ptr_lookup [OF inv b] and f = live_block_facts [OF inv b]
  have "pool_inv m' c' (L - {b}) \<and> live_kept m c m' c' (L - {b})"
  proof (cases "block_class m c b < 19")
    case True
    define k where "k = block_class m c b"
    have k: "k < 19" "k < 20" using True by (auto simp: k_def)
    have tag: "page_class_of m c b = list_tag k"
      using k by (simp add: list_tag_simps k_def block_class_def)
    obtain m1 fl where push: "free_list_push m (pool_list c k) b = (m1, fl)" by fastforce
    obtain ys where p: "pool_core m1 (set_pool_list c k fl) (F(k := ys)) (L - {b})" "agree m m1 (- area b 8)"
      by (rule pool_core_put [OF core k(2) b tag push])
    have "b = user_ptr m c b" using True by (simp add: user_ptr_def)
    then have res: "m' = m1" "c' = track_free (set_pool_list c k fl) (bc_allocators_class_sizes ! k)"
      using run lk(1,2) push True
      unfolding bc_allocators_pool_free_def Let_def k_def block_class_def [symmetric]
      by (simp_all add: NUM_CLASSES_def pools_nth_eq set_pools_eq block_class_def [symmetric])
    have kept: "live_kept m c m1 (set_pool_list c k fl) (L - {b})" by (rule put_keeps_live [OF core b p(2)])
    have "pool_inv m' c' (L - {b})"
      unfolding res using True k by (intro pool_inv_gone [OF inv b p(1) kept]) (simp_all add: usable_def k_def)
    then show ?thesis using kept by (simp add: res)
  next
    case False
    have cls: "page_class_of m c b = PAGE_CLASS_LARGE" using block_class_large [OF f(2) False] by simp
    note us = set_user_size [OF core b, of 0]
    obtain m1 fl where push: "free_list_push (store64 m b 0) (cx_large_pool c) b = (m1, fl)" by fastforce
    have tag: "page_class_of (store64 m b 0) c b = list_tag 19" using us(3) cls by (simp add: list_tag_simps)
    have k: "(19::nat) < 20" and push': "free_list_push (store64 m b 0) (pool_list c 19) b = (m1, fl)"
      using push by simp_all
    obtain ys where p: "pool_core m1 (set_pool_list c 19 fl) (F(19 := ys)) (L - {b})"
      "agree (store64 m b 0) m1 (- area b 8)"
      by (rule pool_core_put [OF us(1) k b tag push'])
    have kept: "live_kept m c m1 (set_pool_list c 19 fl) (L - {b})"
      using us(2) put_keeps_live [OF us(1) b p(2)] live_kept_trans by blast
    have "\<not> unat PAGE_CLASS_LARGE < NUM_CLASSES" by (simp add: pool_constants)
    then have res: "m' = m1" "c' = track_free (set_pool_list c 19 fl) (load64 m b)"
      using run lk(1,2) lk(3) [OF False] push cls
      by (simp_all add: bc_allocators_pool_free_def Let_def free_large_def pool_list_large(2))
    have "pool_inv m' c' (L - {b})"
      unfolding res using large_block_facts [OF cls] by (intro pool_inv_gone [OF inv b p(1) kept]) simp_all
    then show ?thesis using kept by (simp add: res)
  qed
  then show "pool_inv m' c' (L - {b})" "live_kept m c m' c' (L - {b})" by blast+
qed

end
