(* ===== verification/BC_Pool_Realloc.thy ===== *)
theory BC_Pool_Realloc
  imports BC_Pool_Spec
begin

text \<open>
  Reallocation: staying in place (same class, or a large block with room), and moving, where the new
  block is filled from the old one before the old one is freed.
\<close>

definition realloc_result ::
  "mem \<Rightarrow> bc_context \<Rightarrow> u64 set \<Rightarrow> u64 \<Rightarrow> u64 \<Rightarrow> u64 option \<Rightarrow> mem \<Rightarrow> bc_context \<Rightarrow> bool" where
  "realloc_result m c L b sz r m' c' \<longleftrightarrow>
     (case r of
        None \<Rightarrow> pool_inv m' c' L \<and> live_kept m c m' c' L
      | Some p \<Rightarrow> \<exists>b'. b' \<notin> L - {b} \<and> pool_inv m' c' (insert b' (L - {b})) \<and> p = user_ptr m' c' b' \<and>
          unat sz \<le> usable m' c' b' \<and> live_kept m c m' c' (L - {b}) \<and>
          (\<forall>i < min (unat sz) (usable m c b). m' (p + of_nat i) = m (user_ptr m c b + of_nat i)))"

lemma realloc_result_Some:
  assumes "b' \<notin> L - {b}" "pool_inv m' c' (insert b' (L - {b}))" "user_ptr m' c' b' = p"
    "unat sz \<le> usable m' c' b'" "live_kept m c m' c' (L - {b})"
    "\<And>i. i < min (unat sz) (usable m c b) \<Longrightarrow> m' (p + of_nat i) = m (user_ptr m c b + of_nat i)"
  shows "realloc_result m c L b sz (Some p) m' c'"
  using assms unfolding realloc_result_def by auto

lemma get_usable_size_live:
  assumes inv: "pool_inv m c L" and b: "b \<in> L"
  obtains u where "get_usable_size m c (user_ptr m c b) = (u, \<not> block_class m c b < 19)"
    "unat u = usable m c b"
proof -
  note lk = user_ptr_lookup [OF inv b]
  show thesis
  proof (cases "block_class m c b < 19")
    case True
    then show thesis
      using lk(1) that by (simp add: get_usable_size_def Let_def NUM_CLASSES_def usable_def block_class_def)
  next
    case False
    then show thesis
      using lk(1) lk(3) that
      by (simp add: get_usable_size_def Let_def NUM_CLASSES_def usable_def block_class_def)
  qed
qed

text \<open>The user areas of two live blocks are apart.\<close>

lemma user_areas_apart:
  assumes inv: "pool_inv m c L" and xy: "x \<in> L" "y \<in> L" "x \<noteq> y"
    and le: "n \<le> usable m c x" "k \<le> usable m c y"
  shows "apart (user_ptr m c x) n (user_ptr m c y) k"
proof -
  obtain F where "pool_core m c F L" using inv by (auto simp: pool_inv_def)
  then have "apart x (block_bytes m c x) y (block_bytes m c y)"
    using xy by (intro pool_coreD(5)) auto
  then show ?thesis
    using le live_block_facts(3,4) [OF inv xy(1)] live_block_facts(3,4) [OF inv xy(2)]
    unfolding apart_def by (auto split: if_splits)
qed

lemma copy_bytes_apply:
  assumes "unat d + unat n \<le> 18446744073709551616"
  shows "i < unat n \<Longrightarrow> copy_bytes m d s n (d + of_nat i) = m (s + of_nat i)"
    and "a \<notin> area d (unat n) \<Longrightarrow> copy_bytes m d s n a = m a"
proof -
  show "copy_bytes m d s n (d + of_nat i) = m (s + of_nat i)" if "i < unat n"
  proof -
    have "unat (of_nat i :: u64) = i" using that u64_max [of n] by (intro unat_of_nat_no_wrap) linarith
    then show ?thesis using that by (simp add: copy_bytes_def word_less_nat_alt)
  qed
  show "copy_bytes m d s n a = m a" if "a \<notin> area d (unat n)"
    using that in_area_offset [of d "unat n" a] assms by (auto simp: copy_bytes_def word_less_nat_alt)
qed

lemma in_user_area:
  assumes "pool_inv m c L" "b \<in> L" "i < usable m c b"
  shows "user_ptr m c b + of_nat i \<in> user_area m c b"
    "user_ptr m c b + of_nat i \<in> area b (block_bytes m c b)"
proof -
  note f = live_block_facts [OF assms(1,2)]
  note gd = f(1) [unfolded pool_geometry_def]
  have "unat (user_ptr m c b) + i < 18446744073709551616" using f(7) gd assms(3) by linarith
  then have "unat (user_ptr m c b + of_nat i) = unat (user_ptr m c b) + i" by (simp add: no_wrap)
  then show "user_ptr m c b + of_nat i \<in> user_area m c b" using assms(3) by (simp add: user_area_def)
  then show "user_ptr m c b + of_nat i \<in> area b (block_bytes m c b)" using f(5) by blast
qed

lemma live_bytes_kept:
  assumes "pool_inv m c L" "b \<in> L" "i < usable m c b" "live_kept m c m' c' K" "b \<in> K"
  shows "m' (user_ptr m c b + of_nat i) = m (user_ptr m c b + of_nat i)"
  using in_user_area(2) [OF assms(1-3)] assms(4,5) by (auto simp: live_kept_def agree_def simp del: in_area)

section \<open>Moving\<close>

context bc_core
begin

text \<open>The copy from the old block to the new one.\<close>

lemma move_copied:
  assumes inv: "pool_inv m1 c1 (insert b' L)" and b: "b \<in> L" "b' \<notin> L"
    and n: "unat n \<le> usable m1 c1 b'" "unat n \<le> usable m1 c1 b"
  defines "m2 \<equiv> core_copy E m1 (user_ptr m1 c1 b') (user_ptr m1 c1 b) n"
  shows "pool_inv m2 c1 (insert b' L)" "live_kept m1 c1 m2 c1 L"
    "user_ptr m2 c1 b' = user_ptr m1 c1 b'" "usable m2 c1 b' = usable m1 c1 b'"
    "i < unat n \<Longrightarrow> m2 (user_ptr m1 c1 b' + of_nat i) = m1 (user_ptr m1 c1 b + of_nat i)"
proof -
  have bin: "b \<in> insert b' L" "b' \<in> insert b' L" "b' \<noteq> b" using b by auto
  note f' = live_block_facts [OF inv bin(2)] and f = live_block_facts [OF inv bin(1)]
  note gd = f(1) [unfolded pool_geometry_def]
  have lim: "unat (user_ptr m1 c1 b') + unat n \<le> 18446744073709551616"
    "unat (user_ptr m1 c1 b) + unat n \<le> 18446744073709551616"
    using f'(7) f(7) gd n by linarith+
  have m2: "m2 = copy_bytes m1 (user_ptr m1 c1 b') (user_ptr m1 c1 b) n"
    unfolding m2_def by (rule copy [OF lim user_areas_apart [OF inv bin(2,1,3) n]])
  have out: "agree m1 m2 (- user_area m1 c1 b')"
  proof (unfold agree_def, intro ballI)
    fix a assume "a \<in> - user_area m1 c1 b'"
    then have "a \<notin> area (user_ptr m1 c1 b') (unat n)" using n(1) by (auto simp: user_area_def)
    then show "m2 a = m1 a" unfolding m2 by (rule copy_bytes_apply(2) [OF lim(1)])
  qed
  note cw = client_write [OF inv bin(2) out]
  then show "pool_inv m2 c1 (insert b' L)" "user_ptr m2 c1 b' = user_ptr m1 c1 b'"
    "usable m2 c1 b' = usable m1 c1 b'" by blast+
  have "insert b' L - {b'} = L" using b(2) by auto
  then show "live_kept m1 c1 m2 c1 L" using cw(2) by simp
  show "i < unat n \<Longrightarrow> m2 (user_ptr m1 c1 b' + of_nat i) = m1 (user_ptr m1 c1 b + of_nat i)"
    unfolding m2 by (rule copy_bytes_apply(1) [OF lim(1)])
qed

text \<open>Freeing the old block leaves the new one as it is.\<close>

lemma move_freed:
  assumes inv: "pool_inv m2 c1 (insert b' L)" and b: "b \<in> L" "b' \<notin> L"
    and fr: "bc_allocators_pool_free m2 c1 (user_ptr m2 c1 b) = (m3, c3)"
  shows "pool_inv m3 c3 (insert b' (L - {b}))" "live_kept m2 c1 m3 c3 (L - {b})"
    "user_ptr m3 c3 b' = user_ptr m2 c1 b'" "usable m3 c3 b' = usable m2 c1 b'"
    "i < usable m2 c1 b' \<Longrightarrow> m3 (user_ptr m2 c1 b' + of_nat i) = m2 (user_ptr m2 c1 b' + of_nat i)"
proof -
  have bin: "b \<in> insert b' L" "b' \<in> insert b' L" and b'in: "b' \<in> insert b' (L - {b})"
    and Lbb: "insert b' L - {b} = insert b' (L - {b})" using b by auto
  note pf = pool_free_ok [OF inv bin(1) fr, unfolded Lbb]
  obtain F where core: "pool_core m2 c1 F (insert b' L)" using inv by (auto simp: pool_inv_def)
  note kb = live_kept_block [OF pf(2) b'in core bin(2)]
  show "pool_inv m3 c3 (insert b' (L - {b}))" by (rule pf(1))
  show "live_kept m2 c1 m3 c3 (L - {b})" using pf(2) by (rule live_kept_subset) auto
  show "user_ptr m3 c3 b' = user_ptr m2 c1 b'" "usable m3 c3 b' = usable m2 c1 b'" using kb by simp_all
  show "i < usable m2 c1 b' \<Longrightarrow> m3 (user_ptr m2 c1 b' + of_nat i) = m2 (user_ptr m2 c1 b' + of_nat i)"
    by (rule live_bytes_kept [OF inv bin(2) _ pf(2) b'in])
qed

lemma reallocate_move_ok:
  assumes inv: "pool_inv m c L" and b: "b \<in> L" and sz: "unat sz \<le> 9223372036854775808"
    and u: "unat old = usable m c b"
    and run: "reallocate_move E m c (user_ptr m c b) old sz = (r, m', c')"
  shows "realloc_result m c L b sz r m' c'"
proof -
  obtain F where core: "pool_core m c F L" using inv by (auto simp: pool_inv_def)
  obtain r1 m1 c1 where al: "bc_allocators_pool_allocate E m c sz = (r1, m1, c1)" by (metis prod_cases3)
  note ar = pool_allocate_ok [OF inv sz al]
  show ?thesis
  proof (cases r1)
    case None
    then have "r = None" "m' = m1" "c' = c1" using run al by (simp_all add: reallocate_move_def)
    then show ?thesis using ar None by (simp add: alloc_result_def realloc_result_def)
  next
    case (Some p)
    then obtain b' where b': "b' \<notin> L" "pool_inv m1 c1 (insert b' L)" "p = user_ptr m1 c1 b'"
      "unat sz \<le> usable m1 c1 b'" and kept1: "live_kept m c m1 c1 L"
      using ar by (auto simp: alloc_result_def)
    define n where "n = (if old < sz then old else sz)"
    have n: "unat n = min (unat sz) (usable m c b)" using u by (auto simp: n_def word_less_nat_alt)
    have ptr1: "user_ptr m1 c1 b = user_ptr m c b" and us1: "usable m1 c1 b = usable m c b"
      using live_kept_block [OF kept1 b core b] by auto
    have np: "unat n \<le> usable m1 c1 b'" "unat n \<le> usable m1 c1 b" using n b'(4) us1 by auto
    define m2 where "m2 = core_copy E m1 (user_ptr m1 c1 b') (user_ptr m1 c1 b) n"
    note mc = move_copied [OF b'(2) b b'(1) np, folded m2_def]
    obtain F2 where core1: "pool_core m1 c1 F2 (insert b' L)" using b'(2) by (auto simp: pool_inv_def)
    have ptr2: "user_ptr m2 c1 b = user_ptr m c b"
      using live_kept_block(2) [OF mc(2) b core1 insertI2 [OF b]] ptr1 by simp
    obtain m3 c3 where fr: "bc_allocators_pool_free m2 c1 (user_ptr m2 c1 b) = (m3, c3)" by fastforce
    note mf = move_freed [OF mc(1) b b'(1) fr]
    have res: "r = Some p" "m' = m3" "c' = c3"
      using run al Some fr unfolding ptr2 by (simp_all add: reallocate_move_def Let_def n_def m2_def ptr1 b'(3))
    show ?thesis unfolding res
    proof (rule realloc_result_Some)
      show "b' \<notin> L - {b}" using b'(1) by simp
      show "pool_inv m3 c3 (insert b' (L - {b}))" by (rule mf(1))
      show "user_ptr m3 c3 b' = p" "unat sz \<le> usable m3 c3 b'" using mf(3,4) mc(3,4) b'(3,4) by simp_all
      have "live_kept m c m2 c1 (L - {b})"
        using live_kept_trans [OF kept1 mc(2)] by (rule live_kept_subset) auto
      then show "live_kept m c m3 c3 (L - {b})" using mf(2) by (rule live_kept_trans)
      fix i assume i: "i < min (unat sz) (usable m c b)"
      then have "m3 (p + of_nat i) = m1 (user_ptr m c b + of_nat i)"
        using mf(5) [of i] mc(3,4) mc(5) [of i] b'(3,4) n ptr1 by simp
      also have "\<dots> = m (user_ptr m c b + of_nat i)"
        using i by (intro live_bytes_kept [OF inv b _ kept1 b]) simp
      finally show "m3 (p + of_nat i) = m (user_ptr m c b + of_nat i)" .
    qed
  qed
qed

section \<open>Staying in place\<close>

lemma reallocate_in_place_class:
  assumes inv: "pool_inv m c L" and b: "b \<in> L" and nc: "0 \<le> size_class_for_size E sz"
    and eq: "page_class_of m c (user_ptr m c b) = of_int (size_class_for_size E sz)"
  shows "realloc_result m c L b sz (Some (user_ptr m c b)) m c"
proof -
  have small: "unat sz \<le> 4194304"
  proof (rule ccontr)
    assume "\<not> ?thesis"
    then show False using nc size_class_too_big [of sz] by simp
  qed
  obtain k where k: "size_class_for_size E sz = int k" "k < 19" "unat sz \<le> class_bytes k"
    using size_class_bounds [OF small] by metis
  have "page_class_of m c b = of_nat k" using eq k(1) user_ptr_lookup(1) [OF inv b] by simp
  note cf = class_block_facts [OF this k(2)]
  have "insert b (L - {b}) = L" using b by blast
  then show ?thesis using inv k(3) cf by (intro realloc_result_Some [of b]) simp_all
qed

definition resize_active :: "bc_context \<Rightarrow> u64 \<Rightarrow> u64 \<Rightarrow> bc_context" where
  "resize_active c old new =
     (if cx_tracking_enabled c
      then c\<lparr>cx_pool_active_bytes := cx_pool_active_bytes c - old + new\<rparr> else c)"

lemma pool_view_resize [simp]: "pool_view (resize_active c old new) = pool_view c"
  by (simp add: pool_view_def resize_active_def)

lemmas resize_view [simp] = pool_view_cong [OF pool_view_resize]

lemma pool_stats_resize:
  assumes st: "pool_stats m c L" and L: "finite L" "b \<in> L"
    and old: "unat old = usable m c b" and new: "unat new = usable m' c b"
    and same: "\<And>x. x \<in> L - {b} \<Longrightarrow> usable m' c x = usable m c x"
  shows "pool_stats m' (resize_active c old new) L"
proof -
  obtain K where K: "L = insert b K" "b \<notin> K" "finite K" using L by (metis Set.set_insert finite_insert)
  have s: "(\<Sum>x \<in> K. usable m' c x) = (\<Sum>x \<in> K. usable m c x)"
    using same K by (intro sum.cong) auto
  have o: "old = of_nat (usable m c b)" "new = of_nat (usable m' c b)" by (simp_all flip: old new)
  have "cx_tracking_enabled (resize_active c old new) = cx_tracking_enabled c"
    "cx_pool_alloc_count (resize_active c old new) = cx_pool_alloc_count c"
    "cx_pool_free_count (resize_active c old new) = cx_pool_free_count c"
    "cx_tracking_enabled c \<Longrightarrow>
       cx_pool_active_bytes (resize_active c old new) = cx_pool_active_bytes c - old + new"
    by (simp_all add: resize_active_def)
  then show ?thesis using st K s o by (simp add: pool_stats_def)
qed

lemma reallocate_in_place_large:
  assumes inv: "pool_inv m c L" and b: "b \<in> L" and cls: "\<not> block_class m c b < 19"
    and fit: "unat sz + 16 \<le> block_bytes m c b"
  shows "realloc_result m c L b sz (Some (user_ptr m c b)) (store64 m b sz)
    (resize_active c (load64 m b) sz)"
proof -
  obtain F where core: "pool_core m c F L" using inv by (auto simp: pool_inv_def)
  note f = live_block_facts [OF inv b] and us = set_user_size [OF core b, of sz]
  have large: "page_class_of m c b = PAGE_CLASS_LARGE" using block_class_large [OF f(2) cls] by simp
  then have large': "page_class_of (store64 m b sz) c b = PAGE_CLASS_LARGE" using us(3) by simp
  note lf = large_block_facts [OF large] and lf' = large_block_facts [OF large']
  have u: "usable (store64 m b sz) c x = usable m c x" if "x \<in> L - {b}" for x
    using live_kept_block(4) [OF us(2) that core] that by simp
  have "pool_stats (store64 m b sz) (resize_active c (load64 m b) sz) L"
    using inv pool_coreD(2) [OF core] b u lf lf'
    by (intro pool_stats_resize [of m]) (auto simp: pool_inv_def)
  moreover have "sizes_fit (store64 m b sz) c L"
  proof (unfold sizes_fit_def, intro ballI impI)
    fix x assume x: "x \<in> L" "19 \<le> block_class (store64 m b sz) c x"
    show "unat (load64 (store64 m b sz) x) + 16 \<le> block_bytes (store64 m b sz) c x"
    proof (cases "x = b")
      case True
      then show ?thesis using fit us(4) by simp
    next
      case False
      then have "x \<in> L - {b}" using x by simp
      note kb = live_kept_block(1,3) [OF us(2) this core x(1)]
      then show ?thesis using inv x False us(2) by (auto simp: pool_inv_def sizes_fit_def live_kept_def)
    qed
  qed
  ultimately have inv': "pool_inv (store64 m b sz) (resize_active c (load64 m b) sz) L"
    using us(1) by (auto simp: pool_inv_def)
  have Lb: "insert b (L - {b}) = L" using b by blast
  have hi: "unat b + 16 \<le> 140737488355328" using block_ok_range(5) [OF f(1,2)] .
  show ?thesis
  proof (rule realloc_result_Some [of b])
    fix i assume i: "i < min (unat sz) (usable m c b)"
    have "user_ptr m c b + of_nat i \<in> user_area m c b"
      using in_user_area(1) [OF inv b] i by simp
    then have "user_ptr m c b + of_nat i \<notin> area b 8" using f(3) cls by (auto simp: user_area_def)
    then show "store64 m b sz (user_ptr m c b + of_nat i) = m (user_ptr m c b + of_nat i)"
      using hi by (intro store64_other) auto
  qed (use inv' Lb us(2) lf lf' in simp_all)
qed

section \<open>The whole operation\<close>

text \<open>A large block: stay in place when the rounded size fits, move when it does not or a class is enough.\<close>

lemma pool_reallocate_large:
  assumes inv: "pool_inv m c L" and b: "b \<in> L" and sz: "unat sz \<le> 9223372036854775808" "sz \<noteq> 0"
    and large: "\<not> block_class m c b < 19"
    and run: "bc_allocators_pool_reallocate E m c (user_ptr m c b) sz = (r, m', c')"
  shows "realloc_result m c L b sz r m' c'"
proof -
  define ptr where "ptr = user_ptr m c b"
  obtain u where u: "get_usable_size m c ptr = (u, \<not> block_class m c b < 19)" "unat u = usable m c b"
    using get_usable_size_live [OF inv b] unfolding ptr_def by metis
  note f = live_block_facts [OF inv b] and lk = user_ptr_lookup [OF inv b, folded ptr_def]
  have np: "ptr \<noteq> NULL" using f(8) by (simp add: ptr_def)
  note mv = reallocate_move_ok [OF inv b sz(1) u(2), folded ptr_def]
  note run' = run [folded ptr_def, unfolded bc_allocators_pool_reallocate_def u(1) Let_def prod.case,
      folded resize_active_def, unfolded lk(3) [OF large]]
  consider "size_class_for_size E sz \<noteq> -1"
    | "size_class_for_size E sz = -1"
      "\<not> (\<exists>x t. core_safe_add E LARGE_META_SIZE sz = Some x \<and> core_align_up E x (cx_page_size c) = Some t)"
    | x t where "size_class_for_size E sz = -1" "core_safe_add E LARGE_META_SIZE sz = Some x"
      "core_align_up E x (cx_page_size c) = Some t" by blast
  then show ?thesis
  proof cases
    case 1
    then have "reallocate_move E m c ptr u sz = (r, m', c')" using run' sz(2) np large by simp
    then show ?thesis by (rule mv)
  next
    case 2
    then have "(r, m', c') = (None, m, c)" using run' sz(2) np large by (auto split: option.splits)
    then show ?thesis using inv by (simp add: realloc_result_def)
  next
    case 3
    show ?thesis
    proof (cases "t \<le> load64 m (b + 8)")
      case False
      then have "reallocate_move E m c ptr u sz = (r, m', c')" using run' sz(2) np large 3 by simp
      then show ?thesis by (rule mv)
    next
      case fits: True
      have "unat sz + 16 \<le> block_bytes m c b"
        using large_total(3) [OF f(1) sz(1) 3(2,3)] fits large by (simp add: block_bytes_def word_le_nat_alt)
      moreover have "r = Some ptr" "m' = store64 m b sz" "c' = resize_active c (load64 m b) sz"
        using run' sz(2) np large 3 fits by simp_all
      ultimately show ?thesis using reallocate_in_place_large [OF inv b large] by (simp add: ptr_def)
    qed
  qed
qed

text \<open>A class block stays in place when the class is the same, and moves otherwise.\<close>

lemma pool_reallocate_class:
  assumes inv: "pool_inv m c L" and b: "b \<in> L" and sz: "unat sz \<le> 9223372036854775808" "sz \<noteq> 0"
    and cls: "block_class m c b < 19"
    and run: "bc_allocators_pool_reallocate E m c (user_ptr m c b) sz = (r, m', c')"
  shows "realloc_result m c L b sz r m' c'"
proof -
  define ptr where "ptr = user_ptr m c b"
  obtain u where u: "get_usable_size m c ptr = (u, \<not> block_class m c b < 19)" "unat u = usable m c b"
    using get_usable_size_live [OF inv b] unfolding ptr_def by metis
  have np: "ptr \<noteq> NULL" using live_block_facts(8) [OF inv b] by (simp add: ptr_def)
  note run' = run [folded ptr_def, unfolded bc_allocators_pool_reallocate_def u(1) Let_def prod.case]
  show ?thesis
  proof (cases "0 \<le> size_class_for_size E sz \<and> page_class_of m c ptr = of_int (size_class_for_size E sz)")
    case True
    then have "r = Some ptr" "m' = m" "c' = c" using run' sz(2) np cls by simp_all
    then show ?thesis using reallocate_in_place_class [OF inv b] True by (simp add: ptr_def)
  next
    case False
    then have "reallocate_move E m c ptr u sz = (r, m', c')" using run' sz(2) np cls by auto
    then show ?thesis by (rule reallocate_move_ok [OF inv b sz(1) u(2), folded ptr_def])
  qed
qed

lemma pool_reallocate_ok:
  assumes inv: "pool_inv m c L" and b: "b \<in> L" and sz: "unat sz \<le> 9223372036854775808"
    and run: "bc_allocators_pool_reallocate E m c (user_ptr m c b) sz = (r, m', c')"
  shows "realloc_result m c L b sz r m' c'"
proof (cases "sz = 0")
  case True
  then show ?thesis using run inv by (simp add: bc_allocators_pool_reallocate_def realloc_result_def)
next
  case False
  then show ?thesis
    using pool_reallocate_class [OF inv b sz _ _ run] pool_reallocate_large [OF inv b sz _ _ run] by blast
qed

end

end
