(* ===== verification/BC_Context.thy ===== *)
theory BC_Context
  imports BC_Pool_Realloc
begin

text \<open>
  \<^verbatim>\<open>src/context/bc_allocators_context.c\<close> and the inline allocators of
  \<^verbatim>\<open>include/public/bc_allocators_context.h\<close>: creation with its three mappings and failure paths,
  destruction with the leak reports, the statistics and the safe size computation.
\<close>

record context_config =
  cf_max_pool_memory :: u64
  cf_tracking_enabled :: bool
  cf_leak_callback :: u64
  cf_leak_callback_argument :: u64

record stats =
  st_pool_alloc_count :: u64
  st_pool_free_count :: u64
  st_pool_active_bytes :: u64
  st_arena_create_count :: u64
  st_arena_destroy_count :: u64
  st_arena_active_count :: u64
  st_arena_total_bytes :: u64
  st_total_mapped_bytes :: u64
  st_peak_mapped_bytes :: u64

text \<open>The struct in freshly mapped, zeroed memory.\<close>

definition zeroed_context :: "u64 \<Rightarrow> bc_context" where
  "zeroed_context p = \<lparr>
     cx_self = p, cx_page_size = 0, cx_page_shift = 0, cx_cache_line_size = 0,
     cx_tracking_enabled = False,
     cx_region = \<lparr>rg_base = NULL, rg_total_size = 0, rg_page_class_size = 0, rg_bump = 0,
                  rg_page_class = NULL\<rparr>,
     cx_context_mmap_size = 0,
     cx_pools = replicate 19 empty_free_list, cx_large_pool = empty_free_list,
     cx_max_pool_memory = 0, cx_pool_alloc_count = 0, cx_pool_free_count = 0,
     cx_pool_active_bytes = 0, cx_arena_create_count = 0, cx_arena_destroy_count = 0,
     cx_arena_total_bytes = 0, cx_total_mapped_bytes = 0, cx_peak_mapped_bytes = 0,
     cx_leak_callback = NULL, cx_leak_callback_argument = NULL,
     cx_arena_cache = replicate 4 \<lparr>ace_block = NULL, ace_mmap_size = 0\<rparr>,
     cx_arena_cache_count = 0\<rparr>"

section \<open>Creation\<close>

text \<open>The sizes of the three mappings: region, tag table, context struct.\<close>

definition context_sizes :: "env \<Rightarrow> u64 \<Rightarrow> u64 \<Rightarrow> (u64 \<times> u64 \<times> u64) option" where
  "context_sizes E max_memory page_size =
     (case core_align_up E max_memory page_size of None \<Rightarrow> None
      | Some aligned_max \<Rightarrow>
          (let num_pages = aligned_max div page_size
           in case core_align_up E num_pages page_size of None \<Rightarrow> None
              | Some page_class_size \<Rightarrow>
                  (case core_align_up E sizeof_context page_size of None \<Rightarrow> None
                   | Some context_alloc_size \<Rightarrow>
                       Some (aligned_max, page_class_size, context_alloc_size))))"

definition fill_context ::
  "env \<Rightarrow> u64 \<Rightarrow> u64 \<times> u64 \<times> u64 \<Rightarrow> u64 \<Rightarrow> u64 \<Rightarrow> u64 \<Rightarrow> u64 \<Rightarrow> bool \<times> u64 \<times> u64 \<Rightarrow> bc_context" where
  "fill_context E page_size = (\<lambda>(aligned_max, page_class_size, context_alloc_size) cache_line_size
       ctx base page_class_mem (tracking, leak_callback, leak_callback_argument).
     let z = zeroed_context ctx;
         z1 = z\<lparr>cx_page_size := page_size,
                cx_page_shift := of_nat (core_ctz_u64 E page_size),
                cx_cache_line_size := cache_line_size,
                cx_context_mmap_size := context_alloc_size,
                cx_region := \<lparr>rg_base = base, rg_total_size = aligned_max,
                  rg_page_class_size = page_class_size, rg_bump = 0, rg_page_class = page_class_mem\<rparr>,
                cx_pools := map (\<lambda>fl. fl\<lparr>fl_head := NULL\<rparr>) (cx_pools z),
                cx_large_pool := (cx_large_pool z)\<lparr>fl_head := NULL\<rparr>\<rparr>
     in z1\<lparr>cx_max_pool_memory := aligned_max, cx_tracking_enabled := tracking,
           cx_pool_alloc_count := 0, cx_pool_free_count := 0, cx_pool_active_bytes := 0,
           cx_arena_create_count := 0, cx_arena_destroy_count := 0, cx_arena_total_bytes := 0,
           cx_total_mapped_bytes := 0, cx_peak_mapped_bytes := 0,
           cx_leak_callback := leak_callback, cx_leak_callback_argument := leak_callback_argument\<rparr>)"

definition bc_allocators_context_create ::
  "env \<Rightarrow> machine \<Rightarrow> context_config option \<Rightarrow> bc_context option \<times> machine" where
  "bc_allocators_context_create E w config =
     (let (max_memory0, opts) =
            (case config of None \<Rightarrow> (DEFAULT_MAX, (True, NULL, NULL))
             | Some cf \<Rightarrow> (cf_max_pool_memory cf,
                 (cf_tracking_enabled cf, cf_leak_callback cf, cf_leak_callback_argument cf)));
          max_memory = (if max_memory0 = 0 then DEFAULT_MAX else max_memory0)
      in case platform_get_page_size E of None \<Rightarrow> (None, w)
         | Some page_size \<Rightarrow>
           (let cache_line_size = (case platform_get_cache_line_size E of None \<Rightarrow> 64 | Some n \<Rightarrow> n)
            in case context_sizes E max_memory page_size of None \<Rightarrow> (None, w)
               | Some (aligned_max, page_class_size, context_alloc_size) \<Rightarrow>
                 (case platform_map E w context_alloc_size of
                    (None, w1) \<Rightarrow> (None, w1)
                  | (Some ctx, w1) \<Rightarrow>
                    (case platform_map E w1 aligned_max of
                       (None, w2) \<Rightarrow> (None, snd (platform_unmap E w2 ctx context_alloc_size))
                     | (Some base, w2) \<Rightarrow>
                       (case platform_map E w2 page_class_size of
                          (None, w3) \<Rightarrow>
                            (let w4 = snd (platform_unmap E w3 base aligned_max)
                             in (None, snd (platform_unmap E w4 ctx context_alloc_size)))
                        | (Some page_class_mem, w3) \<Rightarrow>
                            (let w4 = w3\<lparr>mc_mem :=
                                   core_fill E (mc_mem w3) page_class_mem page_class_size 0xFF\<rparr>;
                                 c = fill_context E page_size
                                   (aligned_max, page_class_size, context_alloc_size)
                                   cache_line_size ctx base page_class_mem opts
                             in (Some c, snd (platform_advise E w4 base aligned_max MADV_HUGEPAGE))))))))"

section \<open>Destruction\<close>

definition deliver_leak :: "machine \<Rightarrow> u64 \<Rightarrow> string \<Rightarrow> u64 \<Rightarrow> machine" where
  "deliver_leak w callback message argument =
     w\<lparr>mc_leaks := mc_leaks w @ [(callback, message, argument)]\<rparr>"

definition report_leaks :: "machine \<Rightarrow> bc_context \<Rightarrow> machine" where
  "report_leaks w c =
     (if cx_tracking_enabled c \<and> cx_leak_callback c \<noteq> NULL then
        let w1 = (if cx_pool_alloc_count c \<noteq> cx_pool_free_count c
                  then deliver_leak w (cx_leak_callback c) ''bc-allocators: pool leak detected''
                         (cx_leak_callback_argument c) else w)
        in if cx_arena_create_count c \<noteq> cx_arena_destroy_count c
           then deliver_leak w1 (cx_leak_callback c) ''bc-allocators: arena leak detected''
                  (cx_leak_callback_argument c) else w1
      else w)"

definition bc_allocators_context_destroy :: "env \<Rightarrow> machine \<Rightarrow> bc_context \<Rightarrow> machine" where
  "bc_allocators_context_destroy E w c =
     (let w1 = report_leaks w c;
          w2 = fold (\<lambda>i w. snd (platform_unmap E w (ace_block (cx_arena_cache c ! i))
                                   (ace_mmap_size (cx_arena_cache c ! i))))
                 [0 ..< unat (cx_arena_cache_count c)] w1;
          w3 = snd (platform_unmap E w2 (rg_page_class (cx_region c)) (rg_page_class_size (cx_region c)));
          w4 = snd (platform_unmap E w3 (rg_base (cx_region c)) (rg_total_size (cx_region c)))
      in snd (platform_unmap E w4 (cx_self c) (cx_context_mmap_size c)))"

section \<open>Queries\<close>

definition bc_allocators_context_page_size :: "bc_context \<Rightarrow> bool \<times> u64" where
  "bc_allocators_context_page_size c = (True, cx_page_size c)"

definition bc_allocators_context_cache_line_size :: "bc_context \<Rightarrow> bool \<times> u64" where
  "bc_allocators_context_cache_line_size c = (True, cx_cache_line_size c)"

definition zero_stats :: stats where
  "zero_stats = \<lparr>st_pool_alloc_count = 0, st_pool_free_count = 0, st_pool_active_bytes = 0,
     st_arena_create_count = 0, st_arena_destroy_count = 0, st_arena_active_count = 0,
     st_arena_total_bytes = 0, st_total_mapped_bytes = 0, st_peak_mapped_bytes = 0\<rparr>"

definition bc_allocators_context_get_stats :: "bc_context \<Rightarrow> bool \<times> stats" where
  "bc_allocators_context_get_stats c =
     (if \<not> cx_tracking_enabled c then (True, zero_stats)
      else (True, zero_stats\<lparr>
        st_pool_alloc_count := cx_pool_alloc_count c,
        st_pool_free_count := cx_pool_free_count c,
        st_pool_active_bytes := cx_pool_active_bytes c,
        st_arena_create_count := cx_arena_create_count c,
        st_arena_destroy_count := cx_arena_destroy_count c,
        st_arena_active_count :=
          (if cx_arena_create_count c \<ge> cx_arena_destroy_count c
           then cx_arena_create_count c - cx_arena_destroy_count c else 0),
        st_arena_total_bytes := cx_arena_total_bytes c,
        st_total_mapped_bytes := cx_total_mapped_bytes c,
        st_peak_mapped_bytes := cx_peak_mapped_bytes c\<rparr>))"

definition bc_allocators_compute_alloc_size :: "env \<Rightarrow> bc_context \<Rightarrow> u64 \<Rightarrow> u64 \<Rightarrow> u64 option" where
  "bc_allocators_compute_alloc_size E c element_size num =
     (if element_size = 0 \<or> num = 0 then None
      else case core_safe_multiply E element_size num of
             None \<Rightarrow> None
           | Some product \<Rightarrow> core_align_up E product (cx_page_size c))"

section \<open>Aligned and huge-page allocation\<close>

definition bc_allocators_aligned_allocate :: "env \<Rightarrow> machine \<Rightarrow> u64 \<Rightarrow> u64 \<Rightarrow> u64 option \<times> machine" where
  "bc_allocators_aligned_allocate E w sz alignment =
     (if sz = 0 then (None, w)
      else if alignment < 8 then (None, w)
      else if alignment AND (alignment - 1) \<noteq> 0 then (None, w)
      else case libc_posix_memalign E (mc_clock w) (mc_maps w) (mc_heap w) alignment sz of
             None \<Rightarrow> (None, w\<lparr>mc_clock := mc_clock w + 1\<rparr>)
           | Some ptr \<Rightarrow>
               (Some ptr, w\<lparr>mc_heap := mc_heap w @ [(ptr, sz)], mc_clock := mc_clock w + 1\<rparr>))"

definition bc_allocators_aligned_free :: "env \<Rightarrow> machine \<Rightarrow> u64 \<Rightarrow> machine" where
  "bc_allocators_aligned_free E w ptr = w\<lparr>mc_heap := libc_free E (mc_heap w) ptr\<rparr>"

definition bc_allocators_huge_page_allocate :: "env \<Rightarrow> machine \<Rightarrow> u64 \<Rightarrow> u64 option \<times> machine" where
  "bc_allocators_huge_page_allocate E w sz =
     (if sz = 0 then (None, w)
      else
        let w1 = w\<lparr>mc_clock := mc_clock w + 1\<rparr>
        in case os_mmap_hugetlb E (mc_clock w) (mc_maps w) (mc_mem w) sz of
             Some (mapped, m') \<Rightarrow>
               (Some mapped, w1\<lparr>mc_mem := m', mc_maps := mc_maps w @ [(mapped, sz)]\<rparr>)
           | None \<Rightarrow>
               (case platform_map E w1 sz of
                  (None, w2) \<Rightarrow> (None, w2)
                | (Some fallback, w2) \<Rightarrow>
                    (Some fallback, snd (platform_advise E w2 fallback sz MADV_HUGEPAGE))))"

definition bc_allocators_huge_page_free :: "env \<Rightarrow> machine \<Rightarrow> u64 \<Rightarrow> u64 \<Rightarrow> machine" where
  "bc_allocators_huge_page_free E w ptr sz = snd (platform_unmap E w ptr sz)"

end
