(* ===== verification/BC_Context_Spec.thy ===== *)
theory BC_Context_Spec
  imports BC_Context
begin

text \<open>
  What context creation establishes (the pool invariant with no live block, three fresh mappings) and
  releases on failure, and what destruction unmaps and reports.
\<close>

section \<open>Mappings given back\<close>

definition ctx_mappings :: "bc_context \<Rightarrow> maps" where
  "ctx_mappings c =
     map (\<lambda>i. (ace_block (cx_arena_cache c ! i), ace_mmap_size (cx_arena_cache c ! i)))
       [0 ..< unat (cx_arena_cache_count c)]
     @ [(rg_page_class (cx_region c), rg_page_class_size (cx_region c)),
        (rg_base (cx_region c), rg_total_size (cx_region c)), (cx_self c, cx_context_mmap_size c)]"

definition unmap_all :: "env \<Rightarrow> maps \<Rightarrow> machine \<Rightarrow> machine" where
  "unmap_all E es w = fold (\<lambda>(p, n) w. snd (platform_unmap E w p n)) es w"

lemma destroy_unmap_all:
  "bc_allocators_context_destroy E w c = unmap_all E (ctx_mappings c) (report_leaks w c)"
  by (simp add: bc_allocators_context_destroy_def unmap_all_def ctx_mappings_def Let_def fold_map comp_def)

lemma report_leaks_sel [simp]:
  "mc_mem (report_leaks w c) = mc_mem w" "mc_maps (report_leaks w c) = mc_maps w"
  "mc_heap (report_leaks w c) = mc_heap w"
  by (simp_all add: report_leaks_def deliver_leak_def Let_def)

context bc_os
begin

lemma unmap_all_maps:
  assumes "mset es \<subseteq># mset (mc_maps w)"
  shows "mset (mc_maps (unmap_all E es w)) = mset (mc_maps w) - mset es"
    and "mc_mem (unmap_all E es w) = mc_mem w" "mc_leaks (unmap_all E es w) = mc_leaks w"
proof -
  have "mset (mc_maps (unmap_all E es w)) = mset (mc_maps w) - mset es
    \<and> mc_mem (unmap_all E es w) = mc_mem w \<and> mc_leaks (unmap_all E es w) = mc_leaks w"
    using assms
  proof (induction es arbitrary: w)
    case (Cons e es)
    obtain p n where e: "e = (p, n)" by fastforce
    have "(p, n) \<in># mset (mc_maps w)" using Cons.prems e by (auto dest: mset_subset_eqD)
    then have un: "platform_unmap E w p n =
        (True, w\<lparr>mc_maps := remove1 (p, n) (mc_maps w), mc_clock := mc_clock w + 1\<rparr>)" (is "_ = (True, ?w1)")
      by (intro platform_unmap_mapped) simp
    have "mset es \<subseteq># mset (mc_maps ?w1)" using Cons.prems e by (simp add: insert_subset_eq_iff)
    from Cons.IH [OF this] show ?case using e un by (simp add: unmap_all_def)
  qed (simp add: unmap_all_def)
  then show "mset (mc_maps (unmap_all E es w)) = mset (mc_maps w) - mset es"
    and "mc_mem (unmap_all E es w) = mc_mem w" "mc_leaks (unmap_all E es w) = mc_leaks w" by auto
qed

text \<open>Unmapping what was mapped last restores the list of mappings.\<close>

lemma unmap_last:
  assumes "platform_map E w n = (Some p, w1)" "0 < unat n" "mc_maps w2 = mc_maps w1"
  shows "mc_maps (snd (platform_unmap E w2 p n)) = mc_maps w"
proof -
  note m = platform_map_Some [OF assms(1)]
  have "(p, n) \<notin> set (mc_maps w)" using m(4) assms(2) by (auto simp: apart_def)
  then have "remove1 (p, n) (mc_maps w @ [(p, n)]) = mc_maps w" by (simp add: remove1_append)
  moreover have "mc_maps w2 = mc_maps w @ [(p, n)]" using assms(3) m(5) by simp
  ultimately show ?thesis by (simp add: platform_unmap_mapped)
qed

section \<open>Creation\<close>

lemma context_sizes_Some:
  assumes ps: "platform_get_page_size E = Some ps" and mx: "0 < unat mx"
    and cs: "context_sizes E mx ps = Some (am, pcs, cas)"
  shows "unat am = round_up (unat mx) (unat ps)" "unat pcs = round_up (unat am div unat ps) (unat ps)"
    "unat cas = round_up 2880 (unat ps)" "unat ps dvd unat am" "0 < unat am" "0 < unat pcs" "0 < unat cas"
proof -
  obtain k where k: "12 \<le> k" "unat ps = 2 ^ k" using page_size_pow2 [OF ps] by metis
  have a: "core_align_up E mx ps = Some am" "core_align_up E (am div ps) ps = Some pcs"
    "core_align_up E sizeof_context ps = Some cas"
    using cs by (auto simp: context_sizes_def Let_def split: option.splits)
  note au = align_up_Some [OF k(2)]
  show am: "unat am = round_up (unat mx) (unat ps)" using au [OF a(1)] .
  show pcs: "unat pcs = round_up (unat am div unat ps) (unat ps)" using au [OF a(2)] by (simp add: unat_div)
  show cas: "unat cas = round_up 2880 (unat ps)" using au [OF a(3)] by (simp add: sizeof_context_def)
  have p: "0 < unat ps" using k by simp
  show "unat ps dvd unat am" using am by simp
  show "0 < unat am" using am mx p round_up_pos by simp
  then have "0 < unat am div unat ps" using \<open>unat ps dvd unat am\<close> p by (auto elim: dvdE)
  then show "0 < unat pcs" using pcs p round_up_pos by simp
  show "0 < unat cas" using cas p round_up_pos by simp
qed

text \<open>The geometry of a fresh context.\<close>

lemma fill_context_geometry:
  assumes ps: "platform_get_page_size E = Some ps" and am: "unat ps dvd unat am"
    and base: "4096 \<le> unat base" "unat base + unat am \<le> 2 ^ 47" "unat ps dvd unat base"
    and tab: "unat tab + unat pcs \<le> 2 ^ 47" "unat am div unat ps \<le> unat pcs"
    and ap: "apart tab (unat pcs) base (unat am)"
  shows "pool_geometry (fill_context E ps (am, pcs, cas) cls p base tab opts)"
proof -
  obtain k where k: "12 \<le> k" "k \<le> 20" "unat ps = 2 ^ k" using page_size_pow2 [OF ps] by metis
  have "apart tab (unat am div unat ps) base (unat am)" using ap tab(2) by (rule apart_mono) simp
  then have "apart base (unat am) tab (unat am div unat ps)" using apart_sym by blast
  moreover have "unat (of_nat (core_ctz_u64 E ps) :: u64) = k"
    using ctz [OF k(3)] k(2) by (simp add: unat_of_nat)
  moreover obtain tr cb arg where "opts = (tr, cb, arg)" by (metis prod_cases3)
  ultimately show ?thesis
    using k base tab am by (simp add: pool_geometry_def fill_context_def zeroed_context_def Let_def)
qed

lemma fill_context_lists:
  "pool_list (fill_context E ps (am, pcs, cas) cls p base tab opts) j = empty_free_list" if "j < 20"
proof -
  obtain tr cb arg where o: "opts = (tr, cb, arg)" by (metis prod_cases3)
  show ?thesis using that
    by (auto simp: pool_list_def fill_context_def zeroed_context_def Let_def empty_free_list_def o)
qed

lemma fill_context_inv:
  assumes "pool_geometry (fill_context E ps (am, pcs, cas) cls p base tab opts)" (is "pool_geometry ?c")
  shows "pool_inv m ?c {}"
proof -
  obtain tr cb arg where o: "opts = (tr, cb, arg)" by (metis prod_cases3)
  have "pool_core m ?c (\<lambda>_. []) {}"
    using assms fill_context_lists by (simp add: pool_core_def free_blocks_def blocks_apart_def)
  moreover have "pool_stats m ?c {}"
    by (simp add: pool_stats_def fill_context_def zeroed_context_def Let_def o)
  ultimately show ?thesis by (auto simp: pool_inv_def sizes_fit_def)
qed

lemma platform_advise_hugepage:
  "mc_mem (snd (platform_advise E w p n MADV_HUGEPAGE)) = mc_mem w"
  "mc_maps (snd (platform_advise E w p n MADV_HUGEPAGE)) = mc_maps w"
  "mc_leaks (snd (platform_advise E w p n MADV_HUGEPAGE)) = mc_leaks w"
  "mc_heap (snd (platform_advise E w p n MADV_HUGEPAGE)) = mc_heap w"
  using madvise_hugepage [of "mc_clock w" "mc_maps w" "mc_mem w" p n]
  by (auto simp: platform_advise_def split: prod.splits)

end

lemma fill_bytes_apply:
  assumes "unat p + unat n \<le> 18446744073709551616"
  shows "fill_bytes m p n v a = (if a \<in> area p (unat n) then v else m a)"
  using in_area_offset [of p "unat n" a] assms by (auto simp: fill_bytes_def word_less_nat_alt)

text \<open>The areas of the mappings of a machine.\<close>

definition mapped_bytes :: "maps \<Rightarrow> u64 set" where
  "mapped_bytes ms = (\<Union>(q, k) \<in> set ms. area q (unat k))"

lemma fill_fresh_agree:
  assumes "\<forall>(q, k) \<in> set ms. apart p (unat n) q (unat k)" "unat p + unat n \<le> 2 ^ 47"
  shows "agree m (fill_bytes m p n v) (mapped_bytes ms)"
proof (unfold agree_def, intro ballI)
  fix a assume "a \<in> mapped_bytes ms"
  then obtain q k where "(q, k) \<in> set ms" "a \<in> area q (unat k)" by (auto simp: mapped_bytes_def)
  then have "a \<notin> area p (unat n)" using assms(1) apart_disjoint by blast
  then show "fill_bytes m p n v a = m a" using assms(2) by (auto simp: fill_bytes_apply)
qed

definition config_values :: "context_config option \<Rightarrow> u64 \<times> bool \<times> u64 \<times> u64" where
  "config_values config =
     (case config of None \<Rightarrow> (DEFAULT_MAX, (True, NULL, NULL))
      | Some cf \<Rightarrow> (if cf_max_pool_memory cf = 0 then DEFAULT_MAX else cf_max_pool_memory cf,
          (cf_tracking_enabled cf, cf_leak_callback cf, cf_leak_callback_argument cf)))"

lemma config_values_pos: "0 < unat (fst (config_values config))"
  by (auto simp: config_values_def DEFAULT_MAX_def unat_gt_0 split: option.splits)

text \<open>Creation, phase by phase: sizes, then the three mappings, then initialisation.\<close>

definition create_mapped ::
  "env \<Rightarrow> machine \<Rightarrow> u64 \<Rightarrow> u64 \<times> u64 \<times> u64 \<Rightarrow> bool \<times> u64 \<times> u64 \<Rightarrow> bc_context option \<times> machine" where
  "create_mapped E w page_size sizes opts =
     (case sizes of (aligned_max, page_class_size, context_alloc_size) \<Rightarrow>
        (case platform_map E w context_alloc_size of
           (None, w1) \<Rightarrow> (None, w1)
         | (Some ctx, w1) \<Rightarrow>
           (case platform_map E w1 aligned_max of
              (None, w2) \<Rightarrow> (None, snd (platform_unmap E w2 ctx context_alloc_size))
            | (Some base, w2) \<Rightarrow>
              (case platform_map E w2 page_class_size of
                 (None, w3) \<Rightarrow>
                   (None, snd (platform_unmap E (snd (platform_unmap E w3 base aligned_max))
                            ctx context_alloc_size))
               | (Some page_class_mem, w3) \<Rightarrow>
                   (Some (fill_context E page_size sizes
                      (case platform_get_cache_line_size E of None \<Rightarrow> 64 | Some n \<Rightarrow> n)
                      ctx base page_class_mem opts),
                    snd (platform_advise E
                      (w3\<lparr>mc_mem := core_fill E (mc_mem w3) page_class_mem page_class_size 0xFF\<rparr>)
                      base aligned_max MADV_HUGEPAGE))))))"

lemma context_create_phases:
  "bc_allocators_context_create E w config =
     (case platform_get_page_size E of None \<Rightarrow> (None, w)
      | Some page_size \<Rightarrow>
          (case context_sizes E (fst (config_values config)) page_size of None \<Rightarrow> (None, w)
           | Some sizes \<Rightarrow> create_mapped E w page_size sizes (snd (config_values config))))"
  by (cases config)
    (auto simp: bc_allocators_context_create_def create_mapped_def config_values_def Let_def DEFAULT_MAX_def
      split: option.split prod.split)

context bc_os
begin

lemma create_mapped_None:
  assumes run: "create_mapped E w ps (am, pcs, cas) opts = (None, w')"
    and pos: "0 < unat am" "0 < unat cas"
  shows "mc_maps w' = mc_maps w"
proof -
  obtain r1 w1 where s1: "platform_map E w cas = (r1, w1)" by fastforce
  show ?thesis
  proof (cases r1)
    case None
    then show ?thesis using run s1 platform_map_None [of E w cas w1] by (simp add: create_mapped_def)
  next
    case (Some ctx)
    obtain r2 w2 where s2: "platform_map E w1 am = (r2, w2)" by fastforce
    show ?thesis
    proof (cases r2)
      case None
      then have "mc_maps w2 = mc_maps w1" using platform_map_None [of E w1 am w2] s2 by simp
      then show ?thesis using run s1 s2 Some None unmap_last [of w cas ctx w1 w2] pos
        by (auto simp: create_mapped_def)
    next
      case (Some base)
      obtain r3 w3 where s3: "platform_map E w2 pcs = (r3, w3)" by fastforce
      have r3: "r3 = None" using run s1 s2 s3 \<open>r1 = Some ctx\<close> Some
        by (auto simp: create_mapped_def split: option.splits)
      then have "mc_maps w3 = mc_maps w2" using platform_map_None [of E w2 pcs w3] s3 by simp
      then have "mc_maps (snd (platform_unmap E w3 base am)) = mc_maps w1"
        using unmap_last [of w1 am base w2 w3] s2 Some pos by simp
      then show ?thesis
        using run s1 s2 s3 \<open>r1 = Some ctx\<close> Some r3 pos unmap_last [of w cas ctx w1]
        by (auto simp: create_mapped_def)
    qed
  qed
qed

lemma create_mapped_Some:
  assumes run: "create_mapped E w ps (am, pcs, cas) opts = (Some c, w')"
    and ps: "platform_get_page_size E = Some ps" "unat ps dvd unat am" "unat am div unat ps \<le> unat pcs"
  obtains ctx base tab where
    "mc_maps w' = mc_maps w @ [(ctx, cas), (base, am), (tab, pcs)]" "pool_inv (mc_mem w') c {}"
    "agree (mc_mem w) (mc_mem w') (mapped_bytes (mc_maps w))"
    "\<forall>a \<in> area tab (unat pcs). mc_mem w' a = 0xFF" "unat tab + unat pcs \<le> 2 ^ 47"
    "c = fill_context E ps (am, pcs, cas)
       (case platform_get_cache_line_size E of None \<Rightarrow> 64 | Some n \<Rightarrow> n) ctx base tab opts"
    "mc_leaks w' = mc_leaks w"
proof -
  obtain ctx w1 where s1: "platform_map E w cas = (Some ctx, w1)"
    using run by (auto simp: create_mapped_def split: prod.splits option.splits)
  obtain base w2 where s2: "platform_map E w1 am = (Some base, w2)"
    using run s1 by (auto simp: create_mapped_def split: prod.splits option.splits)
  obtain tab w3 where s3: "platform_map E w2 pcs = (Some tab, w3)"
    using run s1 s2 by (auto simp: create_mapped_def split: prod.splits option.splits)
  note m1 = platform_map_Some [OF s1] and m2 = platform_map_Some [OF s2] and m3 = platform_map_Some [OF s3]
  define cls where "cls = (case platform_get_cache_line_size E of None \<Rightarrow> 64 | Some n \<Rightarrow> n)"
  define c0 where "c0 = fill_context E ps (am, pcs, cas) cls ctx base tab opts"
  define w4 where "w4 = w3\<lparr>mc_mem := core_fill E (mc_mem w3) tab pcs 0xFF\<rparr>"
  have res: "c = c0" "w' = snd (platform_advise E w4 base am MADV_HUGEPAGE)"
    using run s1 s2 s3 by (auto simp: create_mapped_def c0_def cls_def w4_def)
  note adv = platform_advise_hugepage [of w4 base am]
  have mem: "mc_mem w' = fill_bytes (fill_bytes (fill_bytes (fill_bytes (mc_mem w) ctx cas 0) base am 0)
      tab pcs 0) tab pcs 0xFF"
    using m1(5) m2(5) m3(5) adv(1) by (simp add: res w4_def fill)
  have maps: "mc_maps w' = mc_maps w @ [(ctx, cas), (base, am), (tab, pcs)]"
    using m1(5) m2(5) m3(5) adv(2) by (simp add: res w4_def)
  have "unat ps = nat (os_sysconf_pagesize E)" using page_size_pow2 [OF ps(1)] by metis
  then have al: "unat ps dvd unat base" using m2(3) by simp
  have ap: "apart tab (unat pcs) base (unat am)" using m3(4) m2(5) by simp
  have "pool_geometry c0" unfolding c0_def
    by (rule fill_context_geometry [OF ps(1,2) m2(1,2) al m3(2) ps(3) ap])
  then have inv: "pool_inv (mc_mem w') c {}" using fill_context_inv unfolding res c0_def by blast
  have sub: "\<forall>(q, k) \<in> set (mc_maps w). apart ctx (unat cas) q (unat k)"
    "\<forall>(q, k) \<in> set (mc_maps w). apart base (unat am) q (unat k)"
    "\<forall>(q, k) \<in> set (mc_maps w). apart tab (unat pcs) q (unat k)"
    using m1(4) m2(4) m3(4) m1(5) m2(5) by auto
  have ag: "agree (mc_mem w) (mc_mem w') (mapped_bytes (mc_maps w))"
    unfolding mem
    using fill_fresh_agree [OF sub(1) m1(2)] fill_fresh_agree [OF sub(2) m2(2)]
      fill_fresh_agree [OF sub(3) m3(2)] agree_trans by meson
  have tags: "\<forall>a \<in> area tab (unat pcs). mc_mem w' a = 0xFF"
    unfolding mem using m3(2) by (simp add: fill_bytes_apply)
  have "mc_leaks w' = mc_leaks w" using m1(5) m2(5) m3(5) adv(3) by (simp add: res w4_def)
  then show thesis using that maps inv ag tags m3(2) res(1) by (simp add: c0_def cls_def)
qed

lemma context_create_None:
  assumes "bc_allocators_context_create E w config = (None, w')"
  shows "mc_maps w' = mc_maps w"
proof (cases "platform_get_page_size E")
  case None
  then show ?thesis using assms by (simp add: context_create_phases)
next
  case (Some ps)
  show ?thesis
  proof (cases "context_sizes E (fst (config_values config)) ps")
    case None
    then show ?thesis using assms Some by (simp add: context_create_phases)
  next
    case s: (Some sizes)
    obtain am pcs cas where sz: "sizes = (am, pcs, cas)" by (metis prod_cases3)
    note cs = context_sizes_Some [OF Some config_values_pos s [unfolded sz]]
    have "create_mapped E w ps (am, pcs, cas) (snd (config_values config)) = (None, w')"
      using assms Some s sz by (simp add: context_create_phases)
    then show ?thesis by (rule create_mapped_None [OF _ cs(5,7)])
  qed
qed

lemma context_create_Some:
  assumes "bc_allocators_context_create E w config = (Some c, w')"
  shows "pool_inv (mc_mem w') c {}" "mc_maps w' = mc_maps w @ rev (ctx_mappings c)"
    "agree (mc_mem w) (mc_mem w') (mapped_bytes (mc_maps w))"
    "\<forall>a \<in> area (rg_page_class (cx_region c)) (unat (rg_page_class_size (cx_region c))).
       mc_mem w' a = PAGE_CLASS_UNASSIGNED"
    "pool_total c = round_up (unat (fst (config_values config))) (pool_page c)"
    "platform_get_page_size E = Some (cx_page_size c)"
    "(cx_tracking_enabled c, cx_leak_callback c, cx_leak_callback_argument c) = snd (config_values config)"
    "cx_arena_create_count c = 0" "cx_arena_destroy_count c = 0" "cx_arena_cache_count c = 0"
    "length (cx_arena_cache c) = 4" "cx_total_mapped_bytes c = 0" "cx_peak_mapped_bytes c = 0"
    "cx_pool_alloc_count c = 0" "cx_pool_free_count c = 0" "cx_pool_active_bytes c = 0"
    "cx_arena_total_bytes c = 0" "mc_leaks w' = mc_leaks w"
proof -
  obtain ps am pcs cas where s: "platform_get_page_size E = Some ps"
    "context_sizes E (fst (config_values config)) ps = Some (am, pcs, cas)"
    using assms by (auto simp: context_create_phases split: option.splits)
  note cs = context_sizes_Some [OF s(1) config_values_pos s(2)]
  have run: "create_mapped E w ps (am, pcs, cas) (snd (config_values config)) = (Some c, w')"
    using assms s by (simp add: context_create_phases)
  obtain k where "unat ps = 2 ^ k" using page_size_pow2 [OF s(1)] by metis
  then have fit: "unat am div unat ps \<le> unat pcs" using cs(2) round_up_ge by simp
  obtain ctx base tab where c: "mc_maps w' = mc_maps w @ [(ctx, cas), (base, am), (tab, pcs)]"
    "pool_inv (mc_mem w') c {}" "agree (mc_mem w) (mc_mem w') (mapped_bytes (mc_maps w))"
    "\<forall>a \<in> area tab (unat pcs). mc_mem w' a = 0xFF"
    "c = fill_context E ps (am, pcs, cas)
       (case platform_get_cache_line_size E of None \<Rightarrow> 64 | Some n \<Rightarrow> n) ctx base tab
       (snd (config_values config))" "mc_leaks w' = mc_leaks w"
    by (rule create_mapped_Some [OF run s(1) cs(4) fit])
  obtain tr cb arg where o: "snd (config_values config) = (tr, cb, arg)" by (metis prod_cases3)
  have sel: "cx_self c = ctx" "cx_region c = \<lparr>rg_base = base, rg_total_size = am, rg_page_class_size = pcs,
      rg_bump = 0, rg_page_class = tab\<rparr>" "cx_context_mmap_size c = cas" "cx_page_size c = ps"
    by (simp_all add: c(5) fill_context_def zeroed_context_def Let_def o)
  show "(cx_tracking_enabled c, cx_leak_callback c, cx_leak_callback_argument c) = snd (config_values config)"
    "cx_arena_create_count c = 0" "cx_arena_destroy_count c = 0" and cc: "cx_arena_cache_count c = 0"
    and "length (cx_arena_cache c) = 4" "cx_total_mapped_bytes c = 0" "cx_peak_mapped_bytes c = 0"
    "cx_pool_alloc_count c = 0" "cx_pool_free_count c = 0" "cx_pool_active_bytes c = 0"
    "cx_arena_total_bytes c = 0"
    by (simp_all add: c(5) fill_context_def zeroed_context_def Let_def o)
  show "mc_maps w' = mc_maps w @ rev (ctx_mappings c)" using c(1) sel cc by (simp add: ctx_mappings_def)
  show "pool_inv (mc_mem w') c {}" "agree (mc_mem w) (mc_mem w') (mapped_bytes (mc_maps w))"
    "mc_leaks w' = mc_leaks w" by (fact c(2) c(3) c(6))+
  show "\<forall>a \<in> area (rg_page_class (cx_region c)) (unat (rg_page_class_size (cx_region c))).
       mc_mem w' a = PAGE_CLASS_UNASSIGNED" using c(4) sel by (simp add: PAGE_CLASS_UNASSIGNED_def)
  show "pool_total c = round_up (unat (fst (config_values config))) (pool_page c)" using sel cs(1) by simp
  show "platform_get_page_size E = Some (cx_page_size c)" using s(1) sel by simp
qed

section \<open>Destruction\<close>

lemma platform_unmap_mem [simp]: "mc_mem (snd (platform_unmap E w p n)) = mc_mem w"
  by (simp add: platform_unmap_def split: option.splits)

lemma platform_map_agree:
  assumes "platform_map E w n = (r, w')"
  shows "agree (mc_mem w) (mc_mem w') (mapped_bytes (mc_maps w))" "mapped_bytes (mc_maps w) \<subseteq> mapped_bytes (mc_maps w')"
proof -
  have "agree (mc_mem w) (mc_mem w') (mapped_bytes (mc_maps w)) \<and> mapped_bytes (mc_maps w) \<subseteq> mapped_bytes (mc_maps w')"
  proof (cases r)
    case None
    then show ?thesis using platform_map_None [of E w n w'] assms by simp
  next
    case (Some p)
    note m = platform_map_Some [OF assms [unfolded Some]]
    show ?thesis using fill_fresh_agree [OF m(4,2), of "mc_mem w" 0] m(5) by (auto simp: mapped_bytes_def simp del: in_area)
  qed
  then show "agree (mc_mem w) (mc_mem w') (mapped_bytes (mc_maps w))" "mapped_bytes (mc_maps w) \<subseteq> mapped_bytes (mc_maps w')"
    by blast+
qed

lemma create_mapped_None_agree:
  assumes run: "create_mapped E w ps (am, pcs, cas) opts = (None, w')"
  shows "agree (mc_mem w) (mc_mem w') (mapped_bytes (mc_maps w))"
proof -
  obtain r1 w1 where s1: "platform_map E w cas = (r1, w1)" by fastforce
  obtain r2 w2 where s2: "platform_map E w1 am = (r2, w2)" by fastforce
  obtain r3 w3 where s3: "platform_map E w2 pcs = (r3, w3)" by fastforce
  note a1 = platform_map_agree [OF s1] and a2 = platform_map_agree [OF s2] and a3 = platform_map_agree [OF s3]
  have a12: "agree (mc_mem w) (mc_mem w2) (mapped_bytes (mc_maps w))"
    using a1 a2 by (blast intro: agree_trans agree_subset)
  then have a13: "agree (mc_mem w) (mc_mem w3) (mapped_bytes (mc_maps w))"
    using a1 a2 a3 by (blast intro: agree_trans agree_subset)
  have "mc_mem w' \<in> {mc_mem w1, mc_mem w2, mc_mem w3}"
    using run s1 s2 s3 by (auto simp: create_mapped_def split: option.splits)
  then show ?thesis using a1(1) a12 a13 by auto
qed

lemma context_create_agree:
  assumes "bc_allocators_context_create E w config = (r, w')"
  shows "agree (mc_mem w) (mc_mem w') (mapped_bytes (mc_maps w))"
proof (cases r)
  case None
  then show ?thesis using assms create_mapped_None_agree [of w _ _ _ _ _ w']
    by (cases "snd (config_values config)") (auto simp: context_create_phases split: option.splits)
qed (use context_create_Some(3) assms in blast)

lemma context_destroy_maps:
  assumes "mset (ctx_mappings c) \<subseteq># mset (mc_maps w)"
  shows "mset (mc_maps (bc_allocators_context_destroy E w c)) = mset (mc_maps w) - mset (ctx_mappings c)"
    "mc_mem (bc_allocators_context_destroy E w c) = mc_mem w"
    "mc_leaks (bc_allocators_context_destroy E w c) = mc_leaks (report_leaks w c)"
  using unmap_all_maps [of "ctx_mappings c" "report_leaks w c"] assms by (simp_all add: destroy_unmap_all)

end

section \<open>Leak reports\<close>

lemma pool_card_bound:
  assumes "pool_inv m c L"
  shows "finite L" "card L < 18446744073709551616"
proof -
  obtain F where core: "pool_core m c F L" using assms by (auto simp: pool_inv_def)
  show "finite L" using core by (rule pool_coreD)
  have "unat ` L \<subseteq> {..< 140737488355328}"
    using live_block_facts(1,2) [OF assms] block_ok_range(5) by fastforce
  then have "card (unat ` L) \<le> 140737488355328" by (metis card_lessThan card_mono finite_lessThan)
  moreover have "card (unat ` L) = card L" by (intro card_image inj_onI) (simp add: u64_eq_iff)
  ultimately show "card L < 18446744073709551616" by simp
qed

lemma leak_iff_live:
  assumes inv: "pool_inv m c L" and tr: "cx_tracking_enabled c"
  shows "cx_pool_alloc_count c \<noteq> cx_pool_free_count c \<longleftrightarrow> L \<noteq> {}"
proof -
  note b = pool_card_bound [OF inv]
  have "cx_pool_alloc_count c = cx_pool_free_count c + of_nat (card L)"
    using inv tr by (simp add: pool_inv_def pool_stats_def)
  moreover have "unat (of_nat (card L) :: u64) = card L" using b(2) by (rule unat_of_nat_no_wrap)
  moreover have "card L = 0 \<longleftrightarrow> L = {}" using b(1) by simp
  ultimately show ?thesis by (metis add.right_neutral add_left_cancel unat_eq_zero)
qed

text \<open>The live blocks are disjoint pieces of the region, so their bytes never exceed it.\<close>

lemma live_bytes_bound:
  assumes inv: "pool_inv m c L"
  shows "(\<Sum>b \<in> L. usable m c b) \<le> pool_total c" "pool_total c \<le> 140737488355328"
proof -
  obtain F where core: "pool_core m c F L" using inv by (auto simp: pool_inv_def)
  have g: "pool_geometry c" using core by (rule pool_coreD)
  show "pool_total c \<le> 140737488355328" using g by (simp add: pool_geometry_def)
  define I where "I b = {unat (user_ptr m c b) ..< unat (user_ptr m c b) + usable m c b}" for b
  have dis: "\<forall>x \<in> L. \<forall>y \<in> L. x \<noteq> y \<longrightarrow> I x \<inter> I y = {}"
    using user_areas_apart [OF inv] by (fastforce simp: I_def apart_def)
  have fin: "finite L" using pool_card_bound [OF inv] by simp
  have "(\<Sum>b \<in> L. usable m c b) = (\<Sum>b \<in> L. card (I b))" by (simp add: I_def)
  also have "\<dots> = card (\<Union>b \<in> L. I b)"
    using fin dis by (intro card_UN_disjoint [symmetric]) (auto simp: I_def)
  also have "\<dots> \<le> card {pool_base c ..< pool_base c + pool_total c}"
  proof (intro card_mono UN_least subsetI)
    fix b x assume b: "b \<in> L" "x \<in> I b"
    note f = live_block_facts [OF inv b(1)]
    have "pool_base c \<le> unat (user_ptr m c b)" using f(3) block_ok_range(1) [OF f(1,2)] by (simp split: if_splits)
    then show "x \<in> {pool_base c ..< pool_base c + pool_total c}" using f(7) b(2) by (auto simp: I_def)
  qed simp
  finally show "(\<Sum>b \<in> L. usable m c b) \<le> pool_total c" by simp
qed

lemma stats_of_pool:
  assumes inv: "pool_inv m c L" and tr: "cx_tracking_enabled c"
    and st: "bc_allocators_context_get_stats c = (r, s)"
  shows "r" "unat (st_pool_alloc_count s - st_pool_free_count s) = card L"
    "unat (st_pool_active_bytes s) = (\<Sum>b \<in> L. usable m c b)"
proof -
  have s: "st_pool_alloc_count s = st_pool_free_count s + of_nat (card L)"
    "st_pool_active_bytes s = of_nat (sum (usable m c) L)" and r: "r"
    using inv tr st by (auto simp: bc_allocators_context_get_stats_def pool_inv_def pool_stats_def)
  show "r" by (fact r)
  show "unat (st_pool_alloc_count s - st_pool_free_count s) = card L"
    using pool_card_bound(2) [OF inv] s(1) by (simp add: no_wrap)
  have "sum (usable m c) L < 18446744073709551616" using live_bytes_bound [OF inv] by linarith
  then show "unat (st_pool_active_bytes s) = sum (usable m c) L"
    unfolding s(2) by (rule unat_of_nat_no_wrap)
qed

end
