(* ===== verification/BC_Pool_More.thy ===== *)
theory BC_Pool_More
  imports BC_Pool_Realloc
begin

text \<open>
  When the pool succeeds and when it refuses: allocation succeeds whenever the region has room for one
  more run of pages, a refusal leaves the state alone, a freed block is the next one handed out while the
  magazine has room, and the unchecked addition in \<^verbatim>\<open>bump_raw\<close> that takes an absurd
  request for one that fits.
\<close>

context bc_core
begin

lemma bump_allocate_class_fits:
  assumes core: "pool_core m c F L" and k: "k < 19"
    and room: "pool_bump c + max (class_bytes k) (pool_page c) \<le> pool_total c"
    and run: "bump_allocate_class E m c k = (p, m', c')"
  shows "p = rg_base (cx_region c) + rg_bump (cx_region c)" "p \<noteq> NULL"
proof -
  have g: "pool_geometry c" using core by (rule pool_coreD)
  obtain n where n: "(if bc_allocators_class_sizes ! k < cx_page_size c then Some (cx_page_size c)
      else core_align_up E (bc_allocators_class_sizes ! k) (cx_page_size c)) = Some n"
    "unat n = max (class_bytes k) (pool_page c)" "pool_page c dvd unat n"
    using class_bump_size [OF g k] by metis
  have fits: "pool_bump c + unat n \<le> pool_total c" using room n(2) by simp
  then have "pool_bump c + unat n < 18446744073709551616"
    using u64_max [of "rg_total_size (cx_region c)"] by linarith
  note raw = bump_raw_eq [OF g n(3) this]
  show nn: "p \<noteq> NULL" and "p = rg_base (cx_region c) + rg_bump (cx_region c)"
    using run raw n(1) fits pool_geometry_bump(3) [OF g n(3) fits]
    unfolding bump_allocate_class_def Let_def by (auto split: prod.splits)
qed

lemma pool_allocate_class_refusal:
  assumes inv: "pool_inv m c L" and k: "size_class_for_size E sz = int k" "k < 19"
    and sz: "unat sz \<le> class_bytes k" "sz \<noteq> 0"
    and run: "bc_allocators_pool_allocate E m c sz = (None, m', c')"
  shows "m' = m \<and> c' = c" "pool_total c < pool_bump c + max (class_bytes k) (pool_page c)"
    "fl_mag_count (cx_pools c ! k) = 0" "fl_head (cx_pools c ! k) = NULL"
proof -
  obtain F where core: "pool_core m c F L" using inv by (auto simp: pool_inv_def)
  have k20: "k < 20" using k(2) by simp
  have len: "length (cx_pools c) = 19" using core by (simp add: pool_core_def pool_geometry_def)
  obtain b fl where pop: "free_list_pop m (pool_list c k) = (b, fl)" by fastforce
  have b: "b = NULL"
    using run sz k(1) pop
    by (auto simp: bc_allocators_pool_allocate_def Let_def pools_nth_eq [OF k(2)] split: if_splits)
  have same: "set_pool_list c k fl = c" and Fk: "F k = []"
    using pop_NULL_same [OF core k20] pop b by auto
  have flc: "fl = cx_pools c ! k"
    using same k(2) len by (metis nth_list_update_eq pool_list_set k20 pools_nth_eq)
  have c1: "c\<lparr>cx_pools := (cx_pools c)[k := fl]\<rparr> = c" using same k(2) by (simp add: set_pool_list_def)
  obtain q m2 c2 where bu: "bump_allocate_class E m c k = (q, m2, c2)" by (metis prod_cases3)
  have res: "(if q = NULL then (None, m2, c2)
      else (Some q, m2, track_alloc c2 (bc_allocators_class_sizes ! k))) = (None, m', c')"
    using run sz pop b c1 bu unfolding bc_allocators_pool_allocate_def Let_def k(1) nat_int
    by (simp add: pools_nth_eq [OF k(2)])
  then have q: "q = NULL" "m' = m2" "c' = c2" by (auto split: if_splits)
  then show "m' = m \<and> c' = c" using bump_allocate_class_ok(1) [OF core k(2) bu] by simp
  show "pool_total c < pool_bump c + max (class_bytes k) (pool_page c)"
  proof (rule ccontr)
    assume "\<not> ?thesis"
    then show False using bump_allocate_class_fits(2) [OF core k(2) _ bu] q by simp
  qed
  have rep: "magazine_rep m (cx_pools c ! k) []"
    using core k20 Fk pools_nth_eq [OF k(2)] by (metis pool_core_def)
  then have "unat (fl_mag_count (cx_pools c ! k)) = 0"
    by (auto simp: magazine_rep_def)
  then show "fl_mag_count (cx_pools c ! k) = 0" by (simp add: unat_eq_zero)
  show "fl_head (cx_pools c ! k) = NULL" using rep by (auto simp: magazine_rep_def intrusive_rep_def)
qed

text \<open>Too big for a word with the 16-byte header: refused before anything is touched.\<close>

lemma pool_allocate_overflow:
  assumes "18446744073709551600 \<le> unat sz"
  shows "bc_allocators_pool_allocate E m c sz = (None, m, c)"
proof -
  have "core_safe_add E LARGE_META_SIZE sz = None"
    using assms safe_add [of LARGE_META_SIZE sz] by (simp add: LARGE_META_SIZE_def)
  moreover have "size_class_for_size E sz = -1" using size_class_too_big [of sz] assms by simp
  ultimately show ?thesis by (simp add: bc_allocators_pool_allocate_def allocate_large_def)
qed

text \<open>A freed class block is handed out again by the next request of its class, and no byte is written.\<close>

lemma free_then_allocate:
  assumes inv: "pool_inv m c L" and b: "b \<in> L" and cls: "block_class m c b = k" "k < 19"
    and room: "fl_mag_count (cx_pools c ! k) < MAG_SIZE"
    and sz: "size_class_for_size E sz = int k" "sz \<noteq> 0"
    and fr: "bc_allocators_pool_free m c (user_ptr m c b) = (m1, c1)"
    and al: "bc_allocators_pool_allocate E m1 c1 sz = (r, m2, c2)"
  shows "r = Some (user_ptr m c b)" "m2 = m"
proof -
  obtain F where core: "pool_core m c F L" using inv by (auto simp: pool_inv_def)
  have len: "length (cx_pools c) = 19" and rep: "magazine_rep m (cx_pools c ! k) (F k)"
    using core cls(2) pools_nth_eq [OF cls(2), of c] by (auto simp: pool_core_def pool_geometry_def)
  note lk = user_ptr_lookup [OF inv b]
  have bp: "user_ptr m c b = b" using cls by (simp add: user_ptr_def)
  obtain m1' fl where push: "free_list_push m (cx_pools c ! k) b = (m1', fl)" by fastforce
  have m1': "m1' = m" using push room by (auto simp: free_list_push_def)
  have res: "m1 = m" "c1 = track_free (c\<lparr>cx_pools := (cx_pools c)[k := fl]\<rparr>) (bc_allocators_class_sizes ! k)"
    using fr lk(1,2) push cls m1' unfolding bc_allocators_pool_free_def Let_def bp
    by (simp_all add: NUM_CLASSES_def block_class_def)
  have pl: "cx_pools c1 ! k = fl" using res(2) len cls(2) by (simp add: track_free_def)
  obtain b' fl' where pop: "free_list_pop m fl = (b', fl')" by fastforce
  have "b' = b" using magazine_pop_push [OF room _ push] rep pop m1' by (simp add: magazine_rep_def)
  moreover have "b \<noteq> NULL" using live_block_facts(8) [OF inv b] bp by simp
  ultimately show "r = Some (user_ptr m c b)" "m2 = m"
    using al sz pop pl res(1) bp unfolding bc_allocators_pool_allocate_def Let_def by simp_all
qed

text \<open>
  The guard of \<^verbatim>\<open>bump_raw\<close> adds the two sizes without a check: a page-aligned request of
  \<open>2 ^ 64 - bump\<close> bytes wraps to zero, passes, and resets the bump pointer to the start of the region.
\<close>

lemma bump_raw_wraps:
  assumes "rg_bump (cx_region c) \<noteq> 0"
  shows "bump_raw c (0 - rg_bump (cx_region c)) =
    (rg_base (cx_region c) + rg_bump (cx_region c), set_bump c 0)"
  by (simp add: bump_raw_def Let_def set_bump_def)

text \<open>The sizes of that request: it has no class, and neither the header nor the rounding is refused.\<close>

lemma wrapped_request:
  assumes g: "pool_geometry c" and bump: "0 < pool_bump c"
  defines "t \<equiv> 0 - rg_bump (cx_region c)"
  shows "size_class_for_size E (t - LARGE_META_SIZE) = -1" "t - LARGE_META_SIZE \<noteq> 0"
    "core_safe_add E LARGE_META_SIZE (t - LARGE_META_SIZE) = Some t" "core_align_up E t (cx_page_size c) = Some t"
proof -
  note gd = g [unfolded pool_geometry_def]
  have le: "pool_bump c \<le> 140737488355328" using gd by linarith
  obtain s where s: "pool_page c = 2 ^ s" "s \<le> 20" using gd by blast
  have t: "unat t = 18446744073709551616 - pool_bump c"
    using bump unat_sub_if_size [of 0 "rg_bump (cx_region c)"] by (simp add: t_def word_size word_le_nat_alt)
  then have sz: "unat (t - LARGE_META_SIZE) = 18446744073709551616 - pool_bump c - 16"
    using le by (simp add: LARGE_META_SIZE_def no_wrap)
  show "size_class_for_size E (t - LARGE_META_SIZE) = -1" using sz le by (intro size_class_too_big) simp
  show "t - LARGE_META_SIZE \<noteq> 0"
  proof
    assume "t - LARGE_META_SIZE = 0"
    then show False using sz le by simp
  qed
  show "core_safe_add E LARGE_META_SIZE (t - LARGE_META_SIZE) = Some t"
    using safe_add [of LARGE_META_SIZE "t - LARGE_META_SIZE"] sz bump le by (simp add: LARGE_META_SIZE_def)
  have "pool_page c dvd 18446744073709551616" using le_imp_power_dvd [of s 64 "2 :: nat"] s by simp
  moreover have "pool_page c dvd pool_bump c" using gd by blast
  ultimately have "pool_page c dvd unat t" unfolding t by (rule dvd_diff_nat)
  then have "round_up (unat t) (pool_page c) = unat t" using pool_page_pos [OF g] by simp
  moreover have "pow2 (cx_page_size c)" using s by (auto simp: pow2_def)
  ultimately show "core_align_up E t (cx_page_size c) = Some t"
    using align_up [of "cx_page_size c" t] by simp
qed

lemma pool_inv_bump_pos:
  assumes "pool_inv m c L" "L \<noteq> {}"
  shows "0 < pool_bump c"
proof -
  obtain b where "b \<in> L" using assms(2) by blast
  note f = live_block_facts [OF assms(1) this]
  show ?thesis using block_ok_range(1,3) [OF f(1,2)] by linarith
qed

text \<open>The pages it would tag: all up to the last one of the address space.\<close>

lemma wrapped_pages:
  assumes g: "pool_geometry c" and bump: "0 < pool_bump c" and c1: "cx_page_shift c1 = cx_page_shift c"
  defines "t \<equiv> 0 - rg_bump (cx_region c)"
  shows "tagged_pages c1 (rg_bump (cx_region c)) t = [pool_bump c div pool_page c ..< 18446744073709551616 div pool_page c]"
    "pool_total c div pool_page c < 18446744073709551616 div pool_page c"
proof -
  define s where "s = unat (cx_page_shift c)"
  have s: "s \<le> 20" "pool_page c = 2 ^ s" "pool_total c \<le> 140737488355328" using g by (auto simp: pool_geometry_def s_def)
  have full: "(18446744073709551616 :: nat) = 2 ^ (64 - s) * 2 ^ s" using s(1) by (simp flip: power_add)
  have "rg_bump (cx_region c) + t - 1 = - 1" by (simp add: t_def)
  moreover have "unat (- 1 :: u64) = 18446744073709551615" using unat_sub_if_size [of 0 "1 :: u64"] by (simp add: word_size)
  moreover have "(18446744073709551615 :: nat) div 2 ^ s = 2 ^ (64 - s) - 1"
  proof (rule div_nat_eqI)
    have "2 ^ s * (2 ^ (64 - s) - 1) = (18446744073709551616 :: nat) - 2 ^ s"
      using full by (simp add: diff_mult_distrib2 mult.commute)
    moreover have "(1 :: nat) \<le> 2 ^ s" by simp
    ultimately show "2 ^ s * (2 ^ (64 - s) - 1) \<le> (18446744073709551615 :: nat)" by linarith
    show "(18446744073709551615 :: nat) < 2 ^ s * Suc (2 ^ (64 - s) - 1)" using full by (simp add: mult.commute)
  qed
  ultimately have e: "unat (drop_bit s (rg_bump (cx_region c) + t - 1)) = 2 ^ (64 - s) - 1"
    by (simp only: unat_drop_bit_u64)
  have d: "18446744073709551616 div pool_page c = 2 ^ (64 - s)" unfolding s(2) full by simp
  have "unat (drop_bit s (rg_bump (cx_region c))) = pool_bump c div pool_page c" by (simp only: unat_drop_bit_u64 s(2))
  then show "tagged_pages c1 (rg_bump (cx_region c)) t = [pool_bump c div pool_page c ..< 18446744073709551616 div pool_page c]"
    using e by (simp add: tagged_pages_def c1 d Let_def del: upt_Suc flip: s_def)
  have "(2 :: nat) ^ 44 * 2 ^ 20 \<le> 2 ^ (64 - s) * 2 ^ s" by (simp flip: full)
  then have "pool_total c < 2 ^ (64 - s) * 2 ^ s" using s(3) by simp
  then show "pool_total c div pool_page c < 18446744073709551616 div pool_page c"
    unfolding d unfolding s(2) by (rule less_mult_imp_div_less)
qed

lemma pool_request_wraps:
  assumes inv: "pool_inv m c L" and L: "L \<noteq> {}" and lp: "free_list_pop m (cx_large_pool c) = (NULL, fl)"
  defines "t \<equiv> 0 - rg_bump (cx_region c)"
  shows "t - LARGE_META_SIZE \<noteq> 0" "size_class_for_size E (t - LARGE_META_SIZE) = -1"
    "allocate_large E m c (t - LARGE_META_SIZE) = bump_large m c (t - LARGE_META_SIZE) t"
    "pool_total c < pool_bump c + unat t"
    "bump_raw c t = (rg_base (cx_region c) + rg_bump (cx_region c), set_bump c 0)"
    "rg_base (cx_region c) + rg_bump (cx_region c) \<noteq> NULL"
proof -
  obtain F where core: "pool_core m c F L" using inv by (auto simp: pool_inv_def)
  have g: "pool_geometry c" using core by (rule pool_coreD)
  note gd = g [unfolded pool_geometry_def]
  have bp: "0 < pool_bump c" by (rule pool_inv_bump_pos [OF inv L])
  note wr = wrapped_request [OF g bp, folded t_def]
  have same: "c\<lparr>cx_large_pool := fl\<rparr> = c"
    using pop_NULL_same(1) [OF core, of 19 fl] lp by (simp add: pool_list_large(2))
  show "t - LARGE_META_SIZE \<noteq> 0" "size_class_for_size E (t - LARGE_META_SIZE) = -1" using wr(1,2) by simp_all
  show "allocate_large E m c (t - LARGE_META_SIZE) = bump_large m c (t - LARGE_META_SIZE) t"
    using wr(3,4) lp same by (simp add: allocate_large_def)
  have "unat t = 18446744073709551616 - pool_bump c"
    using bp unat_sub_if_size [of 0 "rg_bump (cx_region c)"] by (simp add: t_def word_size word_le_nat_alt)
  then show "pool_total c < pool_bump c + unat t" using gd by linarith
  show "bump_raw c t = (rg_base (cx_region c) + rg_bump (cx_region c), set_bump c 0)"
    using bump_raw_wraps [of c] bp unfolding t_def by force
  have "unat (rg_base (cx_region c) + rg_bump (cx_region c)) = pool_base c + pool_bump c"
    using gd by (intro unat_add_no_wrap) linarith
  then show "rg_base (cx_region c) + rg_bump (cx_region c) \<noteq> NULL" using bp by auto
qed

end

text \<open>A pointer outside the region is ignored by \<^verbatim>\<open>free\<close>; \<open>NULL\<close> always is.\<close>

lemma free_outside:
  assumes "pool_geometry c" "\<not> (pool_base c \<le> unat p \<and> unat p < pool_base c + pool_total c)"
  shows "bc_allocators_pool_free m c p = (m, c)"
proof -
  have "unat (rg_base (cx_region c) + rg_total_size (cx_region c)) = pool_base c + pool_total c"
    using assms(1) unfolding pool_geometry_def by (intro unat_add_no_wrap) linarith
  then have "\<not> ptr_in_region c p" using assms(2)
    by (auto simp: ptr_in_region_def Let_def word_le_nat_alt word_less_nat_alt)
  then show ?thesis by (simp add: bc_allocators_pool_free_def)
qed

end
