(* ===== verification/BC_Demo.thy ===== *)
theory BC_Demo
  imports BC_Context_Spec BC_Pool_More
begin

text \<open>
  A concrete run on the environment \<^const>\<open>std_env\<close>: a machine with no mapping, the context it creates
  with a region of 16 pages, tracking and a leak callback, and the contexts after one and after two pool
  allocations. The witnesses
  of the properties are instances at these states.
\<close>

definition boot :: machine where
  "boot = \<lparr>mc_mem = (\<lambda>_. 0), mc_maps = [], mc_heap = [], mc_clock = 0, mc_leaks = []\<rparr>"

definition demo_config :: context_config where
  "demo_config = \<lparr>cf_max_pool_memory = 65536, cf_tracking_enabled = True, cf_leak_callback = 7,
     cf_leak_callback_argument = 8\<rparr>"

lemma std_core_simps:
  "core_safe_add std_env a b = (if unat a + unat b < 18446744073709551616 then Some (a + b) else None)"
  "core_safe_multiply std_env a b =
     (if unat a * unat b < 18446744073709551616 then Some (a * b) else None)"
  "core_align_up std_env v a = (if round_up (unat v) (unat a) < 18446744073709551616
     then Some (of_nat (round_up (unat v) (unat a))) else None)"
  "core_copy std_env = copy_bytes" "core_memcpy std_env = copy_bytes" "core_fill std_env = fill_bytes"
  "core_cache_line_size std_env = Some 64" "os_sysconf_pagesize std_env = 4096"
  "os_mmap std_env = std_mmap"
  by (simp_all add: std_env_def)

lemma std_sizes: "context_sizes std_env 65536 4096 = Some (65536, 4096, 4096)"
  by (simp add: context_sizes_def std_core_simps round_up_def sizeof_context_def)

lemma std_ctz: "core_ctz_u64 std_env 4096 = 12"
  using ctz_nat_pow2 [of 12] by (simp add: std_env_def)

lemma std_page: "platform_get_page_size std_env = Some 4096"
  by (simp add: platform_get_page_size_def std_core_simps)

lemma std_map:
  "mc_maps w = [] \<Longrightarrow> platform_map std_env w 4096 =
     (Some 65536, w\<lparr>mc_mem := fill_bytes (mc_mem w) 65536 4096 0,
        mc_maps := [(65536, 4096)], mc_clock := mc_clock w + 1\<rparr>)"
  "mc_maps w = [(65536, 4096)] \<Longrightarrow> platform_map std_env w 65536 =
     (Some 69632, w\<lparr>mc_mem := fill_bytes (mc_mem w) 69632 65536 0,
        mc_maps := [(65536, 4096), (69632, 65536)], mc_clock := mc_clock w + 1\<rparr>)"
  "mc_maps w = [(65536, 4096), (69632, 65536)] \<Longrightarrow> platform_map std_env w 4096 =
     (Some 135168, w\<lparr>mc_mem := fill_bytes (mc_mem w) 135168 4096 0,
        mc_maps := [(65536, 4096), (69632, 65536), (135168, 4096)],
        mc_clock := mc_clock w + 1\<rparr>)"
  by (simp_all add: platform_map_def std_core_simps std_mmap_def round_up_def)

definition demo_ctx :: bc_context where
  "demo_ctx = fill_context std_env 4096 (65536, 4096, 4096) 64 65536 69632 135168 (True, 7, 8)"

definition demo_machine :: machine where
  "demo_machine = snd (bc_allocators_context_create std_env boot (Some demo_config))"

lemma demo_create: "bc_allocators_context_create std_env boot (Some demo_config) = (Some demo_ctx, demo_machine)"
proof -
  have "fst (bc_allocators_context_create std_env boot (Some demo_config)) = Some demo_ctx"
    by (simp add: context_create_phases std_page config_values_def demo_config_def std_sizes create_mapped_def
      std_map boot_def platform_get_cache_line_size_def std_core_simps demo_ctx_def)
  then show ?thesis by (simp add: demo_machine_def prod_eq_iff)
qed

lemmas demo_facts = std.context_create_Some [OF demo_create]

lemma demo_inv: "pool_inv (mc_mem demo_machine) demo_ctx {}"
  by (rule demo_facts(1))

lemma demo_sel:
  "cx_page_size demo_ctx = 4096" "cx_page_shift demo_ctx = 12" "cx_self demo_ctx = 65536"
  "cx_region demo_ctx = \<lparr>rg_base = 69632, rg_total_size = 65536, rg_page_class_size = 4096,
     rg_bump = 0, rg_page_class = 135168\<rparr>"
  "cx_pools demo_ctx = replicate 19 empty_free_list" "cx_large_pool demo_ctx = empty_free_list"
  "cx_tracking_enabled demo_ctx" "cx_arena_cache_count demo_ctx = 0"
  "cx_arena_cache demo_ctx = replicate 4 \<lparr>ace_block = NULL, ace_mmap_size = 0\<rparr>"
  "cx_context_mmap_size demo_ctx = 4096"
  by (simp_all add: demo_ctx_def fill_context_def zeroed_context_def Let_def std_ctz empty_free_list_def)

section \<open>After allocating 4000 bytes\<close>

lemma std_class:
  "size_class_for_size std_env 100 = 3" "size_class_for_size std_env 4000 = 8"
  "size_class_for_size std_env 4194304 = 18"
proof -
  have f: "first_fit_class 100 = 3" "first_fit_class 4000 = 8" "first_fit_class 4194304 = 18"
    by (rule first_fit_class_eqI; simp)+
  show "size_class_for_size std_env 100 = 3" "size_class_for_size std_env 4000 = 8"
    "size_class_for_size std_env 4194304 = 18"
    using std.size_class_first_fit by (simp_all add: f NUM_CLASSES_def)
qed

definition demo1_ctx :: bc_context where
  "demo1_ctx = snd (snd (bc_allocators_pool_allocate std_env (mc_mem demo_machine) demo_ctx 4000))"

definition demo1_mem :: mem where
  "demo1_mem = fst (snd (bc_allocators_pool_allocate std_env (mc_mem demo_machine) demo_ctx 4000))"

lemma demo_pop: "k < 19 \<Longrightarrow> free_list_pop m (cx_pools demo_ctx ! k) = (NULL, empty_free_list)"
  by (simp add: demo_sel free_list_pop_def empty_free_list_def)

lemma demo_pools_upd: "k < 19 \<Longrightarrow> (cx_pools demo_ctx)[k := empty_free_list] = cx_pools demo_ctx"
  by (metis demo_sel(5) list_update_id nth_replicate)

lemma demo1_allocate:
    "bc_allocators_pool_allocate std_env (mc_mem demo_machine) demo_ctx 4000 = (Some 69632, demo1_mem, demo1_ctx)"
  and demo1_ctx_eq: "demo1_ctx = track_alloc (set_bump demo_ctx 4096) 4096"
proof -
  have cls: "bc_allocators_class_sizes ! 8 = 4096" by (simp add: bc_allocators_class_sizes_def)
  have "bump_raw demo_ctx 4096 = (69632, set_bump demo_ctx 4096)"
    by (simp add: bump_raw_def demo_sel set_bump_def)
  moreover have "demo_ctx\<lparr>cx_pools := cx_pools demo_ctx\<rparr> = demo_ctx" by simp
  moreover have "(set_bump demo_ctx 4096)\<lparr>cx_pools := cx_pools demo_ctx\<rparr> = set_bump demo_ctx 4096"
    by (simp add: set_bump_def)
  moreover have "cx_pools demo_ctx ! 8 = empty_free_list" by (simp add: demo_sel)
  ultimately obtain m2 where b: "bump_allocate_class std_env (mc_mem demo_machine) demo_ctx 8 =
      (69632, m2, set_bump demo_ctx 4096)"
    using demo_pools_upd [of 8]
    by (simp add: bump_allocate_class_def cls demo_sel(1,4) std_core_simps round_up_def)
  have al: "bc_allocators_pool_allocate std_env (mc_mem demo_machine) demo_ctx 4000 = (Some 69632, m2,
      track_alloc (set_bump demo_ctx 4096) 4096)"
    using demo_pop [of 8] demo_pools_upd [of 8] b
    by (simp add: bc_allocators_pool_allocate_def std_class cls)
  then show "bc_allocators_pool_allocate std_env (mc_mem demo_machine) demo_ctx 4000 =
      (Some 69632, demo1_mem, demo1_ctx)" by (simp add: demo1_mem_def demo1_ctx_def)
  show "demo1_ctx = track_alloc (set_bump demo_ctx 4096) 4096" using al by (simp add: demo1_ctx_def)
qed

lemma demo1_sel:
  "cx_region demo1_ctx = \<lparr>rg_base = 69632, rg_total_size = 65536,
      rg_page_class_size = 4096, rg_bump = 4096, rg_page_class = 135168\<rparr>"
  "cx_page_size demo1_ctx = 4096" "cx_page_shift demo1_ctx = 12"
  "cx_large_pool demo1_ctx = empty_free_list" "cx_tracking_enabled demo1_ctx"
  "cx_pools demo1_ctx = replicate 19 empty_free_list"
  by (simp_all add: demo1_ctx_eq track_alloc_def set_bump_def demo_sel)

lemma demo1_class: "page_class_of demo1_mem demo1_ctx 69632 = 8"
proof -
  have "page_class_of demo1_mem demo1_ctx 69632 = of_nat 8"
    using std_class demo1_allocate
    by (intro std.pool_allocate_class(2) [OF demo_inv, of 4000 8 _ demo1_mem demo1_ctx]) simp_all
  then show ?thesis by simp
qed

lemma demo1_inv: "pool_inv demo1_mem demo1_ctx {69632}"
  and demo1_ptr: "user_ptr demo1_mem demo1_ctx 69632 = 69632"
  and demo1_usable: "usable demo1_mem demo1_ctx 69632 = 4096"
proof -
  have c: "page_class_of demo1_mem demo1_ctx 69632 = of_nat 8" using demo1_class by simp
  note cf = class_block_facts [OF c]
  obtain b where b: "pool_inv demo1_mem demo1_ctx {b}" "69632 = user_ptr demo1_mem demo1_ctx b"
    using std.pool_allocate_ok [OF demo_inv _ demo1_allocate] by (auto simp: alloc_result_def)
  have "block_class demo1_mem demo1_ctx b < 19"
  proof (rule ccontr)
    assume n: "\<not> ?thesis"
    have "page_class_of demo1_mem demo1_ctx (user_ptr demo1_mem demo1_ctx b) = page_class_of demo1_mem demo1_ctx b"
      using user_ptr_lookup(1) [OF b(1)] by simp
    then have "block_class demo1_mem demo1_ctx b = 8" using demo1_class b(2) by (simp add: block_class_def)
    then show False using n by simp
  qed
  then have "b = 69632" using b(2) by (simp add: user_ptr_def)
  then show "pool_inv demo1_mem demo1_ctx {69632}" using b(1) by simp
  show "user_ptr demo1_mem demo1_ctx 69632 = 69632" "usable demo1_mem demo1_ctx 69632 = 4096"
    using cf by simp_all
qed

section \<open>After a second allocation\<close>

definition demo2_ctx :: bc_context where
  "demo2_ctx = snd (snd (bc_allocators_pool_allocate std_env demo1_mem demo1_ctx 100))"

definition demo2_mem :: mem where
  "demo2_mem = fst (snd (bc_allocators_pool_allocate std_env demo1_mem demo1_ctx 100))"

lemma demo2_live:
  obtains b where "b \<noteq> 69632" "pool_inv demo2_mem demo2_ctx {b, 69632}"
    "fst (bc_allocators_pool_allocate std_env demo1_mem demo1_ctx 100) = Some (user_ptr demo2_mem demo2_ctx b)"
proof -
  obtain r where run: "bc_allocators_pool_allocate std_env demo1_mem demo1_ctx 100 = (r, demo2_mem, demo2_ctx)"
    by (metis demo2_mem_def demo2_ctx_def prod.collapse)
  have ar: "alloc_result demo1_mem demo1_ctx {69632} 100 r demo2_mem demo2_ctx"
    by (rule std.pool_allocate_ok [OF demo1_inv _ run]) simp
  have "r \<noteq> None"
  proof
    assume n: "r = None"
    have "pool_total demo1_ctx < pool_bump demo1_ctx + max (class_bytes 3) (pool_page demo1_ctx)"
      using run n std_class
      by (intro std.pool_allocate_class_refusal(2) [OF demo1_inv, of 100 3 demo2_mem demo2_ctx]) simp_all
    then show False by (simp add: demo1_sel)
  qed
  then show thesis using ar that run by (auto simp: alloc_result_def)
qed

end
