(* ===== verification/BC_Object_Store.thy ===== *)
theory BC_Object_Store
  imports BC_Pool_More
begin

text \<open>
  The pool as its clients see it: a store of objects. \<open>holds m c S\<close> says that the objects \<open>S\<close>, given by address and
  length, are handed out; \<open>alloc\<close> adds one, \<open>release\<close> takes one away, \<open>resize\<close> replaces one and keeps its contents,
  and a write inside an object disturbs nothing else. The slab and the typed array are verified against this contract, which
  the pool meets.
\<close>

type_synonym objects = "(u64 \<times> nat) set"

definition kept_objects :: "mem \<Rightarrow> mem \<Rightarrow> objects \<Rightarrow> bool" where
  "kept_objects m m' S \<longleftrightarrow> (\<forall>(p, n) \<in> S. agree m m' (area p n))"

lemma kept_objects_refl [simp]: "kept_objects m m S"
  by (simp add: kept_objects_def)

lemma kept_objects_trans: "kept_objects m m' S \<Longrightarrow> kept_objects m' m'' S \<Longrightarrow> kept_objects m m'' S"
  by (auto simp: kept_objects_def intro: agree_trans)

lemma kept_objects_subset: "kept_objects m m' S \<Longrightarrow> T \<subseteq> S \<Longrightarrow> kept_objects m m' T"
  by (auto simp: kept_objects_def)

lemma kept_objectsD: "kept_objects m m' S \<Longrightarrow> (p, n) \<in> S \<Longrightarrow> agree m m' (area p n)"
  by (auto simp: kept_objects_def)

section \<open>The contract\<close>

locale block_store =
  fixes alloc :: "mem \<Rightarrow> 'c \<Rightarrow> u64 \<Rightarrow> u64 option \<times> mem \<times> 'c"
    and release :: "mem \<Rightarrow> 'c \<Rightarrow> u64 \<Rightarrow> mem \<times> 'c"
    and resize :: "mem \<Rightarrow> 'c \<Rightarrow> u64 \<Rightarrow> u64 \<Rightarrow> u64 option \<times> mem \<times> 'c"
    and holds :: "mem \<Rightarrow> 'c \<Rightarrow> objects \<Rightarrow> bool"
  assumes holds_bounds: "holds m c S \<Longrightarrow> (p, n) \<in> S \<Longrightarrow> p \<noteq> NULL \<and> unat p + n \<le> 140737488355328"
    and holds_apart: "holds m c S \<Longrightarrow> (p, n) \<in> S \<Longrightarrow> (q, k) \<in> S \<Longrightarrow> (p, n) \<noteq> (q, k) \<Longrightarrow>
      p \<noteq> q \<and> apart p n q k"
    and holds_write: "holds m c S \<Longrightarrow> (p, n) \<in> S \<Longrightarrow> agree m m' (- area p n) \<Longrightarrow> holds m' c S"
    and alloc_Some: "holds m c S \<Longrightarrow> unat sz \<le> 9223372036854775808 \<Longrightarrow> alloc m c sz = (Some p, m', c') \<Longrightarrow>
      \<exists>n. unat sz \<le> n \<and> p \<notin> fst ` S \<and> holds m' c' (insert (p, n) S) \<and> kept_objects m m' S"
    and alloc_None: "holds m c S \<Longrightarrow> unat sz \<le> 9223372036854775808 \<Longrightarrow> alloc m c sz = (None, m', c') \<Longrightarrow>
      holds m' c' S \<and> kept_objects m m' S"
    and release: "holds m c S \<Longrightarrow> (p, n) \<in> S \<Longrightarrow> release m c p = (m', c') \<Longrightarrow>
      holds m' c' (S - {(p, n)}) \<and> kept_objects m m' (S - {(p, n)})"
    and release_NULL: "holds m c S \<Longrightarrow> release m c NULL = (m, c)"
    and resize_Some: "holds m c S \<Longrightarrow> (p, n) \<in> S \<Longrightarrow> unat sz \<le> 9223372036854775808 \<Longrightarrow>
      resize m c p sz = (Some q, m', c') \<Longrightarrow>
      \<exists>k. unat sz \<le> k \<and> q \<notin> fst ` (S - {(p, n)}) \<and> holds m' c' (insert (q, k) (S - {(p, n)}))
        \<and> kept_objects m m' (S - {(p, n)})
        \<and> (\<forall>i < min (unat sz) n. m' (q + of_nat i) = m (p + of_nat i))"
    and resize_None: "holds m c S \<Longrightarrow> (p, n) \<in> S \<Longrightarrow> unat sz \<le> 9223372036854775808 \<Longrightarrow>
      resize m c p sz = (None, m', c') \<Longrightarrow> holds m' c' S \<and> kept_objects m m' S"

context block_store
begin

lemma write_keeps:
  assumes "holds m c S" "(p, n) \<in> S" "agree m m' (- area p n)"
  shows "holds m' c S" "kept_objects m m' (S - {(p, n)})"
proof -
  show "holds m' c S" by (rule holds_write [OF assms])
  have "agree m m' (area q k)" if q: "(q, k) \<in> S" "(p, n) \<noteq> (q, k)" for q k
  proof (rule agree_off [OF assms(3)])
    show "area p n \<inter> area q k = {}" using holds_apart [OF assms(1,2) q] apart_disjoint by blast
  qed
  then show "kept_objects m m' (S - {(p, n)})" by (auto simp: kept_objects_def)
qed

text \<open>Any write inside the union of the objects \<open>T\<close> keeps the other objects.\<close>

lemma objects_outside:
  assumes "holds m c (T \<union> R)" "T \<inter> R = {}" "A \<subseteq> (\<Union>(p, n) \<in> T. area p n)" "agree m m' (- A)"
  shows "kept_objects m m' R"
  unfolding kept_objects_def
proof clarify
  fix q k assume q: "(q, k) \<in> R"
  have "area p n \<inter> area q k = {}" if "(p, n) \<in> T" for p n
    using holds_apart [OF assms(1), of p n q k] that q assms(2) by (intro apart_disjoint) blast
  then have "A \<inter> area q k = {}" using assms(3) by blast
  then show "agree m m' (area q k)" by (rule agree_off [OF assms(4)])
qed

lemma write_many:
  assumes "finite T"
  shows "holds m c S \<Longrightarrow> T \<subseteq> S \<Longrightarrow> A \<subseteq> (\<Union>(p, n) \<in> T. area p n) \<Longrightarrow> agree m m' (- A) \<Longrightarrow> holds m' c S"
  using assms
proof (induction T arbitrary: m A rule: finite_induct)
  case empty
  then have "m' = m" by (auto simp: agree_def)
  then show ?case using empty.prems(1) by simp
next
  case (insert e T)
  obtain p n where e: "e = (p, n)" by fastforce
  define m1 where "m1 = (\<lambda>a. if a \<in> area p n then m' a else m a)"
  have "agree m m1 (- area p n)" by (simp add: agree_def m1_def del: in_area)
  then have "holds m1 c S" using holds_write [OF insert.prems(1), of p n] insert.prems(2) e by simp
  moreover have "agree m1 m' (- (A - area p n))"
    using insert.prems(4) by (auto simp: agree_def m1_def simp del: in_area)
  moreover have "A - area p n \<subseteq> (\<Union>(p, n) \<in> T. area p n)" using insert.prems(3) e by auto
  ultimately show ?case using insert.IH insert.prems(2) by blast
qed

text \<open>Two allocations of which the second may fail and then undoes the first.\<close>

lemma alloc_twice:
  assumes h: "holds m c S" and sz: "unat a \<le> 9223372036854775808" "unat b \<le> 9223372036854775808"
    and r1: "alloc m c a = (Some p, m1, c1)" and r2: "alloc m1 c1 b = (r, m2, c2)"
  obtains n where "unat a \<le> n" "p \<notin> fst ` S" "kept_objects m m2 S" "kept_objects m1 m2 {(p, n)}"
    "holds m2 c2 (insert (p, n) S) \<or> r \<noteq> None"
    "\<And>m3 c3. r = None \<Longrightarrow> release m2 c2 p = (m3, c3) \<Longrightarrow> holds m3 c3 S \<and> kept_objects m m3 S"
    "\<And>q. r = Some q \<Longrightarrow> \<exists>k. unat b \<le> k \<and> q \<noteq> p \<and> q \<notin> fst ` S \<and> holds m2 c2 (insert (q, k) (insert (p, n) S))"
proof -
  obtain n where n: "unat a \<le> n" "p \<notin> fst ` S" "holds m1 c1 (insert (p, n) S)" "kept_objects m m1 S"
    using alloc_Some [OF h sz(1) r1] by blast
  have pS: "(p, n) \<notin> S" using n(2) by force
  show thesis
  proof (cases r)
    case None
    note f = alloc_None [OF n(3) sz(2) r2 [unfolded None]]
    then have k2: "kept_objects m1 m2 S" "kept_objects m1 m2 {(p, n)}" by (auto intro: kept_objects_subset)
    have "holds m3 c3 S \<and> kept_objects m m3 S" if r3: "release m2 c2 p = (m3, c3)" for m3 c3
    proof -
      have "insert (p, n) S - {(p, n)} = S" using pS by simp
      then show ?thesis
        using release [OF conjunct1 [OF f] insertI1 r3] k2 n(4) by (auto intro: kept_objects_trans)
    qed
    then show thesis using that [of n] n(1,2,4) k2 f None by (auto intro: kept_objects_trans)
  next
    case (Some q)
    obtain k where k: "unat b \<le> k" "q \<notin> fst ` insert (p, n) S" "holds m2 c2 (insert (q, k) (insert (p, n) S))"
      "kept_objects m1 m2 (insert (p, n) S)"
      using alloc_Some [OF n(3) sz(2) r2 [unfolded Some]] by blast
    then have k2: "kept_objects m1 m2 S" "kept_objects m1 m2 {(p, n)}" by (auto intro: kept_objects_subset)
    then show thesis using that [of n] n(1,2,4) k Some by (auto intro: kept_objects_trans)
  qed
qed

end

section \<open>The pool meets it\<close>

definition pool_object :: "mem \<Rightarrow> bc_context \<Rightarrow> u64 \<Rightarrow> u64 \<times> nat" where
  "pool_object m c b = (user_ptr m c b, usable m c b)"

definition pool_objects :: "mem \<Rightarrow> bc_context \<Rightarrow> objects \<Rightarrow> bool" where
  "pool_objects m c S \<longleftrightarrow> (\<exists>L. pool_inv m c L \<and> S = pool_object m c ` L)"

lemma user_ptr_inj:
  assumes inv: "pool_inv m c L" and xy: "x \<in> L" "y \<in> L" "user_ptr m c x = user_ptr m c y"
  shows "x = y"
proof (rule ccontr)
  assume ne: "x \<noteq> y"
  obtain F where core: "pool_core m c F L" using inv by (auto simp: pool_inv_def)
  then have ap: "apart x (block_bytes m c x) y (block_bytes m c y)"
    using xy ne by (intro pool_coreD(5)) auto
  have inside: "user_ptr m c b \<in> area b (block_bytes m c b)" if b: "b \<in> L" for b
  proof (cases "block_class m c b < 19")
    case True
    then show ?thesis
      using live_block_facts(2,3) [OF inv b] block_bytes_ge_16 [OF live_block_facts(1,2) [OF inv b]] by simp
  next
    case False
    then have "4096 \<le> block_bytes m c b"
      using live_block_facts(2) [OF inv b] pool_page_pos [OF live_block_facts(1) [OF inv b]] by (auto simp: block_ok_def)
    then show ?thesis using False live_block_facts(3) [OF inv b] by simp
  qed
  show False using inside [OF xy(1)] inside [OF xy(2)] xy(3) apart_disjoint [OF ap] by auto
qed

lemma pool_object_inj: "pool_inv m c L \<Longrightarrow> inj_on (pool_object m c) L"
  by (auto simp: inj_on_def pool_object_def intro: user_ptr_inj)

lemma pool_object_kept:
  assumes inv: "pool_inv m c L" and kept: "live_kept m c m' c' K" and b: "b \<in> K" "b \<in> L"
  shows "pool_object m' c' b = pool_object m c b" "agree m m' (user_area m c b)"
proof -
  obtain F where core: "pool_core m c F L" using inv by (auto simp: pool_inv_def)
  show "pool_object m' c' b = pool_object m c b"
    using live_kept_block(2,4) [OF kept b(1) core b(2)] by (simp add: pool_object_def)
  have "agree m m' (area b (block_bytes m c b))" using kept b(1) by (simp add: live_kept_def)
  then show "agree m m' (user_area m c b)" by (rule agree_subset [OF _ live_block_facts(5) [OF inv b(2)]])
qed

lemma pool_objects_kept:
  assumes "pool_inv m c L" "live_kept m c m' c' K" "K \<subseteq> L"
  shows "pool_object m' c' ` K = pool_object m c ` K" "kept_objects m m' (pool_object m c ` K)"
proof -
  note k = pool_object_kept [OF assms(1,2)]
  show "pool_object m' c' ` K = pool_object m c ` K" using k(1) assms(3) by (intro image_cong) auto
  show "kept_objects m m' (pool_object m c ` K)"
    using k(2) assms(3) by (auto simp: kept_objects_def pool_object_def user_area_def)
qed

lemma pool_objectsE:
  assumes "pool_objects m c S" "(p, n) \<in> S"
  obtains L b where "pool_inv m c L" "S = pool_object m c ` L" "b \<in> L" "p = user_ptr m c b" "n = usable m c b"
    "S - {(p, n)} = pool_object m c ` (L - {b})"
proof -
  obtain L where L: "pool_inv m c L" "S = pool_object m c ` L" using assms(1) by (auto simp: pool_objects_def)
  then obtain b where b: "b \<in> L" "p = user_ptr m c b" "n = usable m c b" using assms(2) by (auto simp: pool_object_def)
  have "S - {(p, n)} = pool_object m c ` (L - {b})"
    using L b pool_object_inj [OF L(1)] by (auto simp: pool_object_def inj_on_def)
  then show thesis using that L b by blast
qed

context bc_core
begin

lemma pool_store_alloc:
  assumes h: "pool_objects m c S" and sz: "unat sz \<le> 9223372036854775808"
    and run: "bc_allocators_pool_allocate E m c sz = (r, m', c')"
  shows "r = Some p \<Longrightarrow> \<exists>n. unat sz \<le> n \<and> p \<notin> fst ` S \<and> pool_objects m' c' (insert (p, n) S) \<and> kept_objects m m' S"
    "r = None \<Longrightarrow> pool_objects m' c' S \<and> kept_objects m m' S"
proof -
  obtain L where L: "pool_inv m c L" "S = pool_object m c ` L" using h by (auto simp: pool_objects_def)
  note ar = pool_allocate_ok [OF L(1) sz run, unfolded alloc_result_def]
  then have kept: "live_kept m c m' c' L" by simp
  note k = pool_objects_kept [OF L(1) kept subset_refl, folded L(2)]
  show "\<exists>n. unat sz \<le> n \<and> p \<notin> fst ` S \<and> pool_objects m' c' (insert (p, n) S) \<and> kept_objects m m' S"
    if "r = Some p"
  proof -
    obtain b where b: "b \<notin> L" "pool_inv m' c' (insert b L)" "p = user_ptr m' c' b" "unat sz \<le> usable m' c' b"
      using ar \<open>r = Some p\<close> by auto
    have im: "pool_object m' c' ` insert b L = insert (p, usable m' c' b) S" using k(1) b(3) by (simp add: pool_object_def)
    have "\<forall>x \<in> L. p \<noteq> user_ptr m' c' x" using user_ptr_inj [OF b(2), of b] b(1,3) by auto
    then have "p \<notin> fst ` S" unfolding k(1) [symmetric] by (auto simp: pool_object_def)
    moreover have "pool_objects m' c' (insert (p, usable m' c' b) S)" unfolding pool_objects_def using b(2) im by blast
    ultimately show ?thesis using b(4) k(2) by blast
  qed
  show "pool_objects m' c' S \<and> kept_objects m m' S" if "r = None"
    using ar k that unfolding pool_objects_def by auto
qed

lemma pool_store_release:
  assumes "pool_objects m c S" "(p, n) \<in> S" "bc_allocators_pool_free m c p = (m', c')"
  shows "pool_objects m' c' (S - {(p, n)}) \<and> kept_objects m m' (S - {(p, n)})"
proof -
  obtain L b where L: "pool_inv m c L" "S = pool_object m c ` L" "b \<in> L" "p = user_ptr m c b"
    "S - {(p, n)} = pool_object m c ` (L - {b})" using pool_objectsE [OF assms(1,2)] by metis
  note f = pool_free_ok [OF L(1,3) assms(3) [unfolded L(4)]]
  note k = pool_objects_kept [OF L(1) f(2)]
  then show ?thesis using f(1) L(5) unfolding pool_objects_def by (metis Diff_subset)
qed

lemma pool_store_resize:
  assumes h: "pool_objects m c S" "(p, n) \<in> S" and sz: "unat sz \<le> 9223372036854775808"
    and run: "bc_allocators_pool_reallocate E m c p sz = (r, m', c')"
  shows "r = Some q \<Longrightarrow> \<exists>k. unat sz \<le> k \<and> q \<notin> fst ` (S - {(p, n)}) \<and> pool_objects m' c' (insert (q, k) (S - {(p, n)}))
        \<and> kept_objects m m' (S - {(p, n)}) \<and> (\<forall>i < min (unat sz) n. m' (q + of_nat i) = m (p + of_nat i))"
    "r = None \<Longrightarrow> pool_objects m' c' S \<and> kept_objects m m' S"
proof -
  obtain L b where L: "pool_inv m c L" "S = pool_object m c ` L" "b \<in> L" "p = user_ptr m c b" "n = usable m c b"
    "S - {(p, n)} = pool_object m c ` (L - {b})" using pool_objectsE [OF h] by metis
  note rr = pool_reallocate_ok [OF L(1,3) sz run [unfolded L(4)], unfolded realloc_result_def]
  show "\<exists>k. unat sz \<le> k \<and> q \<notin> fst ` (S - {(p, n)}) \<and> pool_objects m' c' (insert (q, k) (S - {(p, n)}))
        \<and> kept_objects m m' (S - {(p, n)}) \<and> (\<forall>i < min (unat sz) n. m' (q + of_nat i) = m (p + of_nat i))"
    if "r = Some q"
  proof -
    obtain b' where b': "b' \<notin> L - {b}" "pool_inv m' c' (insert b' (L - {b}))" "q = user_ptr m' c' b'"
      "unat sz \<le> usable m' c' b'" "live_kept m c m' c' (L - {b})"
      "\<forall>i < min (unat sz) (usable m c b). m' (q + of_nat i) = m (user_ptr m c b + of_nat i)"
      using rr \<open>r = Some q\<close> by auto
    note k = pool_objects_kept [OF L(1) b'(5) Diff_subset, folded L(6)]
    have im: "pool_object m' c' ` insert b' (L - {b}) = insert (q, usable m' c' b') (S - {(p, n)})"
      using k(1) b'(3) by (simp add: pool_object_def)
    have "\<forall>x \<in> L - {b}. q \<noteq> user_ptr m' c' x" using user_ptr_inj [OF b'(2), of b'] b'(1,3) by auto
    then have "q \<notin> fst ` (S - {(p, n)})" unfolding k(1) [symmetric] by (auto simp: pool_object_def)
    moreover have "pool_objects m' c' (insert (q, usable m' c' b') (S - {(p, n)}))"
      unfolding pool_objects_def using b'(2) im by metis
    ultimately show ?thesis using b'(4,6) k(2) L(4,5) by blast
  qed
  show "pool_objects m' c' S \<and> kept_objects m m' S" if "r = None"
  proof -
    have f: "pool_inv m' c' L" "live_kept m c m' c' L" using rr that by auto
    note k = pool_objects_kept [OF L(1) f(2) subset_refl, folded L(2)]
    then show ?thesis using f(1) unfolding pool_objects_def by metis
  qed
qed

end

lemma pool_store_bounds:
  assumes "pool_objects m c S" "(p, n) \<in> S"
  shows "p \<noteq> NULL \<and> unat p + n \<le> 140737488355328"
proof -
  obtain L b where L: "pool_inv m c L" "b \<in> L" "p = user_ptr m c b" "n = usable m c b"
    using pool_objectsE [OF assms] by metis
  note f = live_block_facts [OF L(1,2)]
  have "pool_base c + pool_total c \<le> 140737488355328" using f(1) by (simp add: pool_geometry_def)
  then show ?thesis using f(7,8) L(3,4) by auto
qed

lemma pool_store_apart:
  assumes "pool_objects m c S" "(p, n) \<in> S" "(q, k) \<in> S" "(p, n) \<noteq> (q, k)"
  shows "p \<noteq> q \<and> apart p n q k"
proof -
  obtain L where L: "pool_inv m c L" "S = pool_object m c ` L" using assms(1) by (auto simp: pool_objects_def)
  obtain x y where xy: "x \<in> L" "y \<in> L" "p = user_ptr m c x" "n = usable m c x" "q = user_ptr m c y" "k = usable m c y"
    using assms(2,3) L(2) by (auto simp: pool_object_def)
  then have "x \<noteq> y" using assms(4) by auto
  then show ?thesis using user_areas_apart [OF L(1) xy(1,2)] user_ptr_inj [OF L(1) xy(1,2)] xy by auto
qed

lemma pool_store_write:
  assumes "pool_objects m c S" "(p, n) \<in> S" "agree m m' (- area p n)"
  shows "pool_objects m' c S"
proof -
  obtain L b where L: "pool_inv m c L" "S = pool_object m c ` L" "b \<in> L" "p = user_ptr m c b" "n = usable m c b"
    using pool_objectsE [OF assms(1,2)] by metis
  have out: "agree m m' (- user_area m c b)" using assms(3) L(4,5) by (simp add: user_area_def)
  note w = client_write [OF L(1,3) out]
  have "pool_object m' c ` (L - {b}) = pool_object m c ` (L - {b})" by (rule pool_objects_kept(1) [OF L(1) w(2) Diff_subset])
  moreover have "pool_object m' c b = pool_object m c b" using w(3,4) by (simp add: pool_object_def)
  ultimately have "pool_object m' c ` L = S" using L(2,3) by (metis image_insert insert_Diff)
  then show ?thesis using w(1) by (auto simp: pool_objects_def)
qed

lemma pool_store_free_NULL: "pool_objects m c S \<Longrightarrow> bc_allocators_pool_free m c NULL = (m, c)"
proof -
  assume "pool_objects m c S"
  then obtain L F where "pool_core m c F L" by (auto simp: pool_objects_def pool_inv_def)
  then have "4096 \<le> pool_base c" using pool_coreD(1) by (auto simp: pool_geometry_def)
  then show ?thesis
    by (simp add: bc_allocators_pool_free_def ptr_in_region_def Let_def word_le_nat_alt)
qed

sublocale bc_core \<subseteq> pool: block_store "bc_allocators_pool_allocate E" bc_allocators_pool_free
  "bc_allocators_pool_reallocate E" pool_objects
proof (unfold_locales, goal_cases)
  case (1 m c S p n)
  then show ?case by (rule pool_store_bounds)
next
  case (2 m c S p n q k)
  then show ?case by (rule pool_store_apart)
next
  case (3 m c S p n m')
  then show ?case by (rule pool_store_write)
next
  case (4 m c S sz p m' c')
  then show ?case using pool_store_alloc(1) [OF 4(1,2,3) refl] by simp
next
  case (5 m c S sz m' c')
  then show ?case using pool_store_alloc(2) by blast
next
  case (6 m c S p n m' c')
  then show ?case by (rule pool_store_release)
next
  case (7 m c S)
  then show ?case by (rule pool_store_free_NULL)
next
  case (8 m c S p n sz q m' c')
  then show ?case using pool_store_resize(1) [OF 8(1-4) refl] by simp
next
  case (9 m c S p n sz m' c')
  then show ?case using pool_store_resize(2) by blast
qed

interpretation std_pool: block_store "bc_allocators_pool_allocate std_env" bc_allocators_pool_free
  "bc_allocators_pool_reallocate std_env" pool_objects
  by (rule std.pool.block_store_axioms)

section \<open>Tables of pointers\<close>

text \<open>The objects of a client that keeps a list of pointers, with the length of each.\<close>

definition table_objects :: "(u64 \<Rightarrow> nat) \<Rightarrow> u64 list \<Rightarrow> objects" where
  "table_objects k ps = (\<lambda>p. (p, k p)) ` set ps"

lemma fst_table_objects [simp]: "fst ` table_objects k ps = set ps"
  by (simp add: table_objects_def image_image)

lemma table_objects_Nil [simp]: "table_objects k [] = {}"
  by (simp add: table_objects_def)

lemma table_objects_upd:
  assumes "q \<notin> set ps" "set qs = insert q (set ps)"
  shows "table_objects (k(q := n)) qs = insert (q, n) (table_objects k ps)"
  using assms by (auto simp: table_objects_def)

lemma table_objects_remove:
  "set qs = set ps - {p} \<Longrightarrow> table_objects k qs = table_objects k ps - {(p, k p)}"
  by (auto simp: table_objects_def)

end
