(* ===== verification/BC_Pool_Since.thy ===== *)
theory BC_Pool_Since
  imports BC_Object_Store
begin

text \<open>
  The pool in its surroundings: what its operations need of memory and context, what they leave alone, and the store
  \<open>pool_since g\<close>, which also records that since the state \<open>g\<close> nothing outside the pool has changed. It meets the same contract
  as the pool, so the clients verified against it, the slab and the typed array, leave everything else alone as well.
\<close>

section \<open>What the pool depends on\<close>

lemma pool_inv_elsewhere:
  assumes inv: "pool_inv m c L" and ag: "agree m m' (pool_area c)"
    and v: "pool_view c' = pool_view c" "stat_view c' = stat_view c"
  shows "pool_inv m' c' L" "b \<in> L \<Longrightarrow> pool_object m' c' b = pool_object m c b" "b \<in> L \<Longrightarrow> user_area m c b \<subseteq> pool_area c"
proof -
  obtain F where core: "pool_core m c F L" using inv by (auto simp: pool_inv_def)
  have g: "pool_geometry c" and ok: "\<And>b. b \<in> free_blocks F \<union> L \<Longrightarrow> block_ok m c b"
    using core by (auto simp: pool_core_def)
  have "pool_bump c div pool_page c \<le> pool_total c div pool_page c"
    using g by (intro div_le_mono) (simp add: pool_geometry_def)
  then have "used_tags c \<subseteq> pool_area c" by (auto simp: used_tags_def pool_area_def)
  then have tags: "agree m m' (used_tags c)" by (rule agree_subset [OF ag])
  have a16: "area b 16 \<subseteq> pool_area c" if "b \<in> free_blocks F \<union> L" for b
    using block_in_pool(1) [OF g ok [OF that]] area_mono [OF block_bytes_ge_16 [OF g ok [OF that]], of b] by blast
  have b8: "area (b + 8) 8 \<subseteq> area b 16" if "b \<in> free_blocks F \<union> L" for b
    using block_ok_range(5) [OF g ok [OF that]] by (auto simp: no_wrap)
  have free: "agree m m' (area b 16)" if "b \<in> free_blocks F" for b
    using agree_subset [OF ag a16] that by blast
  have live: "block_class m c b < 19 \<or> agree m m' (area (b + 8) 8)" if "b \<in> L" for b
    using agree_subset [OF ag, of "area (b + 8) 8"] a16 [of b] b8 [of b] that by blast
  note pc = pool_core_agree [OF core tags free live]
  have keep: "page_class_of m' c b = page_class_of m c b \<and> block_bytes m' c b = block_bytes m c b" if "b \<in> L" for b
    using pc(2,3) that by blast
  have lb: "block_class m' c b = block_class m c b \<and> load64 m' b = load64 m b" if b: "b \<in> L" for b
  proof -
    have bo: "b \<in> free_blocks F \<union> L" using b by blast
    have "area b 8 \<subseteq> pool_area c" using block_in_pool(2) [OF g ok [OF bo]] .
    then have "agree m m' (area b 8)" by (rule agree_subset [OF ag])
    moreover have "unat b + 8 \<le> 18446744073709551616" using block_ok_range(5) [OF g ok [OF bo]] by simp
    ultimately have "load64 m' b = load64 m b" by (rule load64_cong)
    then show ?thesis using keep [OF b] by (simp add: block_class_def)
  qed
  have us: "usable m' c b = usable m c b" "user_ptr m' c b = user_ptr m c b" if "b \<in> L" for b
    using lb [OF that] by (simp_all add: usable_def user_ptr_def)
  note vc = pool_view_cong [OF v(1)]
  have "pool_core m' c' F L" using pc(1) vc(6) by blast
  moreover have "sizes_fit m' c' L"
    using inv keep lb unfolding vc(7) by (simp add: pool_inv_def sizes_fit_def)
  moreover have "pool_stats m' c' L"
    by (rule pool_stats_kept [OF _ v(2)]) (use inv us vc(5) in \<open>simp_all add: pool_inv_def\<close>)
  ultimately show "pool_inv m' c' L" by (auto simp: pool_inv_def)
  show "pool_object m' c' b = pool_object m c b" if "b \<in> L" using us [OF that] vc(4,5) by (simp add: pool_object_def)
  show "user_area m c b \<subseteq> pool_area c" if "b \<in> L"
    using live_block_facts(5) [OF inv that] block_in_pool(1) [OF g live_block_facts(2) [OF inv that]] by blast
qed

lemma pool_objects_elsewhere:
  assumes h: "pool_objects m c S" and ag: "agree m m' (pool_area c)"
    and v: "pool_view c' = pool_view c" "stat_view c' = stat_view c"
  shows "pool_objects m' c' S" "kept_objects m m' S" "(p, n) \<in> S \<Longrightarrow> area p n \<subseteq> pool_area c"
proof -
  obtain L where L: "pool_inv m c L" "S = pool_object m c ` L" using h by (auto simp: pool_objects_def)
  note e = pool_inv_elsewhere [OF L(1) ag v]
  have "pool_object m' c' ` L = S" unfolding L(2) by (rule image_cong [OF refl e(2)])
  then show "pool_objects m' c' S" using e(1) by (auto simp: pool_objects_def)
  have sub: "area p n \<subseteq> pool_area c" if "(p, n) \<in> S" for p n
    using e(3) that unfolding L(2) by (auto simp: pool_object_def user_area_def simp del: in_area)
  then show "(p, n) \<in> S \<Longrightarrow> area p n \<subseteq> pool_area c" .
  show "kept_objects m m' S" unfolding kept_objects_def using sub agree_subset [OF ag] by blast
qed

section \<open>The context outside the pool\<close>

text \<open>The part of the context that describes its own mappings and the arena cache, and the part behind the leak report of the
  arenas: no operation of the pool changes them.\<close>

definition cache_view :: "bc_context \<Rightarrow> u64 \<times> u64 \<times> arena_cache_entry list \<times> u64" where
  "cache_view c = (cx_self c, cx_context_mmap_size c, cx_arena_cache c, cx_arena_cache_count c)"

lemma cache_view_track [simp]: "cache_view (track_alloc c n) = cache_view c" "cache_view (track_free c n) = cache_view c"
  by (simp_all add: cache_view_def track_alloc_def track_free_def)

lemma cache_view_upd [simp]:
  "cache_view (c\<lparr>cx_pools := ps\<rparr>) = cache_view c" "cache_view (c\<lparr>cx_large_pool := fl\<rparr>) = cache_view c"
  "cache_view (c\<lparr>cx_pool_active_bytes := n\<rparr>) = cache_view c"
  by (simp_all add: cache_view_def)

lemma cache_view_bump_raw: "bump_raw c n = (p, c') \<Longrightarrow> cache_view c' = cache_view c"
  by (auto simp: bump_raw_def Let_def cache_view_def split: if_splits)

lemma cache_view_bump_large: "bump_large m c sz t = (p, m', c') \<Longrightarrow> cache_view c' = cache_view c"
  by (auto simp: bump_large_def Let_def dest: cache_view_bump_raw split: if_splits prod.splits)

lemma cache_view_bump_class: "bump_allocate_class E m c k = (p, m', c') \<Longrightarrow> cache_view c' = cache_view c"
  by (auto simp: bump_allocate_class_def Let_def dest: cache_view_bump_raw split: if_splits prod.splits option.splits)

lemma cache_view_allocate_large: "allocate_large E m c sz = (p, m', c') \<Longrightarrow> cache_view c' = cache_view c"
  by (auto simp: allocate_large_def dest: cache_view_bump_large split: if_splits prod.splits option.splits)

lemma cache_view_allocate: "bc_allocators_pool_allocate E m c sz = (r, m', c') \<Longrightarrow> cache_view c' = cache_view c"
  by (auto simp: bc_allocators_pool_allocate_def Let_def dest: cache_view_allocate_large cache_view_bump_class
      split: if_splits prod.splits)

lemma cache_view_free: "bc_allocators_pool_free m c p = (m', c') \<Longrightarrow> cache_view c' = cache_view c"
  by (auto simp: bc_allocators_pool_free_def free_large_def Let_def split: if_splits prod.splits)

lemma cache_view_move: "reallocate_move E m c p u sz = (r, m', c') \<Longrightarrow> cache_view c' = cache_view c"
  unfolding reallocate_move_def Let_def by (auto split: prod.splits option.splits) (metis cache_view_allocate cache_view_free)+

lemma cache_view_reallocate: "bc_allocators_pool_reallocate E m c p sz = (r, m', c') \<Longrightarrow> cache_view c' = cache_view c"
  by (auto simp: bc_allocators_pool_reallocate_def Let_def dest: cache_view_allocate cache_view_move
      split: if_splits prod.splits option.splits)

definition leak_setup :: "bc_context \<Rightarrow> bool \<times> u64 \<times> u64" where
  "leak_setup c = (cx_tracking_enabled c, cx_leak_callback c, cx_leak_callback_argument c)"

definition leak_view :: "bc_context \<Rightarrow> (bool \<times> u64 \<times> u64) \<times> u64 \<times> u64" where
  "leak_view c = (leak_setup c, cx_arena_create_count c, cx_arena_destroy_count c)"

lemma leak_view_setup: "leak_view c' = leak_view c \<Longrightarrow> leak_setup c' = leak_setup c"
  by (simp add: leak_view_def)

lemma leak_view_track [simp]: "leak_view (track_alloc c n) = leak_view c" "leak_view (track_free c n) = leak_view c"
  by (simp_all add: leak_view_def leak_setup_def track_alloc_def track_free_def)

lemma leak_view_upd [simp]:
  "leak_view (c\<lparr>cx_pools := ps\<rparr>) = leak_view c" "leak_view (c\<lparr>cx_large_pool := fl\<rparr>) = leak_view c"
  "leak_view (c\<lparr>cx_pool_active_bytes := n\<rparr>) = leak_view c"
  by (simp_all add: leak_view_def leak_setup_def)

lemma leak_view_bump_raw: "bump_raw c n = (p, c') \<Longrightarrow> leak_view c' = leak_view c"
  by (auto simp: bump_raw_def Let_def leak_view_def leak_setup_def split: if_splits)

lemma leak_view_bump_large: "bump_large m c sz t = (p, m', c') \<Longrightarrow> leak_view c' = leak_view c"
  by (auto simp: bump_large_def Let_def dest: leak_view_bump_raw split: if_splits prod.splits)

lemma leak_view_bump_class: "bump_allocate_class E m c k = (p, m', c') \<Longrightarrow> leak_view c' = leak_view c"
  by (auto simp: bump_allocate_class_def Let_def dest: leak_view_bump_raw split: if_splits prod.splits option.splits)

lemma leak_view_allocate_large: "allocate_large E m c sz = (p, m', c') \<Longrightarrow> leak_view c' = leak_view c"
  by (auto simp: allocate_large_def dest: leak_view_bump_large split: if_splits prod.splits option.splits)

lemma leak_view_allocate: "bc_allocators_pool_allocate E m c sz = (r, m', c') \<Longrightarrow> leak_view c' = leak_view c"
  by (auto simp: bc_allocators_pool_allocate_def Let_def dest: leak_view_allocate_large leak_view_bump_class
      split: if_splits prod.splits)

lemma leak_view_free: "bc_allocators_pool_free m c p = (m', c') \<Longrightarrow> leak_view c' = leak_view c"
  by (auto simp: bc_allocators_pool_free_def free_large_def Let_def split: if_splits prod.splits)

lemma leak_view_move: "reallocate_move E m c p u sz = (r, m', c') \<Longrightarrow> leak_view c' = leak_view c"
  unfolding reallocate_move_def Let_def by (auto split: prod.splits option.splits) (metis leak_view_allocate leak_view_free)+

lemma leak_view_reallocate: "bc_allocators_pool_reallocate E m c p sz = (r, m', c') \<Longrightarrow> leak_view c' = leak_view c"
  by (auto simp: bc_allocators_pool_reallocate_def Let_def dest: leak_view_allocate leak_view_move
      split: if_splits prod.splits option.splits)

lemma pool_shapeD:
  assumes "pool_shape c' = pool_shape c"
  shows "rg_base (cx_region c') = rg_base (cx_region c)" "rg_total_size (cx_region c') = rg_total_size (cx_region c)"
    "rg_page_class (cx_region c') = rg_page_class (cx_region c)"
    "rg_page_class_size (cx_region c') = rg_page_class_size (cx_region c)" "cx_page_size c' = cx_page_size c"
  using assms by (cases "cx_region c"; cases "cx_region c'"; simp add: pool_shape_def)+

section \<open>What a pool operation leaves alone\<close>

lemma pool_objects_usable:
  assumes h: "pool_objects m c S" and pn: "(p, n) \<in> S"
  shows "unat (fst (get_usable_size m c p)) = n"
proof -
  obtain L b where L: "pool_inv m c L" "b \<in> L" "p = user_ptr m c b" "n = usable m c b"
    using pool_objectsE [OF h pn] by metis
  note k = user_ptr_lookup [OF L(1,2), folded L(3)]
  show ?thesis
  proof (cases "block_class m c b < 19")
    case True
    then show ?thesis
      using k(1) L(4) by (simp add: get_usable_size_def Let_def NUM_CLASSES_def usable_def flip: block_class_def)
  next
    case False
    then show ?thesis
      using k(1,3) L(4) by (simp add: get_usable_size_def Let_def NUM_CLASSES_def usable_def block_class_def)
  qed
qed

lemma pool_free_frame:
  assumes h: "pool_objects m c S" and pn: "(p, n) \<in> S" and run: "bc_allocators_pool_free m c p = (m', c')"
  shows "pool_frame m c m' c'"
proof -
  obtain L b where L: "pool_inv m c L" "b \<in> L" "p = user_ptr m c b" using pool_objectsE [OF h pn] by metis
  show ?thesis using pool_free_ok(2) [OF L(1,2) run [unfolded L(3)]] by (simp add: live_kept_def)
qed

context bc_core
begin

lemma pool_allocate_frame:
  assumes h: "pool_objects m c S" and sz: "unat sz \<le> 9223372036854775808"
    and run: "bc_allocators_pool_allocate E m c sz = (r, m', c')"
  shows "pool_frame m c m' c'"
proof -
  obtain L where L: "pool_inv m c L" using h by (auto simp: pool_objects_def)
  show ?thesis using pool_allocate_ok [OF L sz run] by (simp add: alloc_result_def live_kept_def)
qed

lemma pool_reallocate_frame:
  assumes h: "pool_objects m c S" and pn: "(p, n) \<in> S" and sz: "unat sz \<le> 9223372036854775808"
    and run: "bc_allocators_pool_reallocate E m c p sz = (r, m', c')"
  shows "pool_frame m c m' c'"
proof -
  obtain L b where L: "pool_inv m c L" "b \<in> L" "p = user_ptr m c b" using pool_objectsE [OF h pn] by metis
  show ?thesis
    using pool_reallocate_ok [OF L(1,2) sz run [unfolded L(3)]]
    by (auto simp: realloc_result_def live_kept_def split: option.splits)
qed

end

section \<open>The store since a state\<close>

definition pool_since :: "mem \<times> bc_context \<Rightarrow> mem \<Rightarrow> bc_context \<Rightarrow> objects \<Rightarrow> bool" where
  "pool_since g m c S \<longleftrightarrow>
     pool_objects m c S \<and> pool_frame (fst g) (snd g) m c \<and>
     cache_view c = cache_view (snd g) \<and> leak_view c = leak_view (snd g)"

lemma pool_since_objects: "pool_since g m c S \<Longrightarrow> pool_objects m c S"
  by (simp add: pool_since_def)

lemma pool_since_now [simp]: "pool_since (m, c) m c S = pool_objects m c S"
  by (simp add: pool_since_def pool_frame_def)

lemma pool_since_step:
  assumes "pool_since g m c S" "pool_objects m' c' S'" "pool_frame m c m' c'" "cache_view c' = cache_view c" "leak_view c' = leak_view c"
  shows "pool_since g m' c' S'"
  using assms pool_frame_trans by (auto simp: pool_since_def)

lemmas since_bounds = pool_store_bounds [OF pool_since_objects]
  and since_apart = pool_store_apart [OF pool_since_objects]

lemma pool_write_frame:
  assumes "pool_objects m c S" "(p, n) \<in> S" "agree m m' (- area p n)"
  shows "pool_frame m c m' c"
proof -
  have "area p n \<subseteq> pool_area c" using pool_objects_elsewhere(3) [OF assms(1) agree_refl refl refl assms(2)] .
  then show ?thesis unfolding pool_frame_def using agree_subset [OF assms(3)] by blast
qed

sublocale bc_core \<subseteq> since: block_store "bc_allocators_pool_allocate E" bc_allocators_pool_free
  "bc_allocators_pool_reallocate E" "pool_since g" for g
proof (unfold_locales, goal_cases)
  case (1 m c S p n)
  then show ?case by (rule since_bounds)
next
  case (2 m c S p n q k)
  then show ?case by (rule since_apart)
next
  case (3 m c S p n m')
  note h = pool_since_objects [OF 3(1)]
  show ?case by (rule pool_since_step [OF 3(1) pool.holds_write [OF h 3(2,3)] pool_write_frame [OF h 3(2,3)] refl refl])
next
  case (4 m c S sz p m' c')
  note h = pool_since_objects [OF 4(1)]
  note st = pool_since_step [OF 4(1) _ pool_allocate_frame [OF h 4(2,3)] cache_view_allocate [OF 4(3)] leak_view_allocate [OF 4(3)]]
  show ?case using pool.alloc_Some [OF h 4(2,3)] st by blast
next
  case (5 m c S sz m' c')
  note h = pool_since_objects [OF 5(1)]
  note st = pool_since_step [OF 5(1) _ pool_allocate_frame [OF h 5(2,3)] cache_view_allocate [OF 5(3)] leak_view_allocate [OF 5(3)]]
  show ?case using pool.alloc_None [OF h 5(2,3)] st by blast
next
  case (6 m c S p n m' c')
  note h = pool_since_objects [OF 6(1)]
  note st = pool_since_step [OF 6(1) _ pool_free_frame [OF h 6(2,3)] cache_view_free [OF 6(3)] leak_view_free [OF 6(3)]]
  show ?case using pool.release [OF h 6(2,3)] st by blast
next
  case (7 m c S)
  then show ?case by (rule pool.release_NULL [OF pool_since_objects])
next
  case (8 m c S p n sz q m' c')
  note h = pool_since_objects [OF 8(1)]
  note st = pool_since_step [OF 8(1) _ pool_reallocate_frame [OF h 8(2-4)] cache_view_reallocate [OF 8(4)] leak_view_reallocate [OF 8(4)]]
  show ?case using pool.resize_Some [OF h 8(2-4)] st by blast
next
  case (9 m c S p n sz m' c')
  note h = pool_since_objects [OF 9(1)]
  note st = pool_since_step [OF 9(1) _ pool_reallocate_frame [OF h 9(2-4)] cache_view_reallocate [OF 9(4)] leak_view_reallocate [OF 9(4)]]
  show ?case using pool.resize_None [OF h 9(2-4)] st by blast
qed

end
