(* ===== verification/BC_Pool_Trace.thy ===== *)
theory BC_Pool_Trace
  imports BC_Pool_Since BC_Context_Spec
begin

text \<open>
  A client of the pool as a sequence of calls. It keeps a table of what it was given and not yet freed: the pointer, the
  size it asked for, and the bytes it may rely on, which are those it wrote and reallocation carried over. The table is computed
  from the results of the calls alone; \<open>pool_table_ok\<close> relates it to the pool, and every call keeps that.
\<close>

datatype pool_call =
  Pool_allocate u64
| Pool_reallocate nat u64
| Pool_free nat
| Pool_write nat "nat \<Rightarrow> u8"

type_synonym pool_table = "(u64 \<times> u64 \<times> (nat \<Rightarrow> u8 option)) list"

type_synonym pool_run = "mem \<times> bc_context \<times> pool_table"

definition write_bytes :: "mem \<Rightarrow> u64 \<Rightarrow> u64 \<Rightarrow> (nat \<Rightarrow> u8) \<Rightarrow> mem" where
  "write_bytes m p n f = (\<lambda>a. if a - p < n then f (unat (a - p)) else m a)"

fun pool_call_run :: "env \<Rightarrow> pool_call \<Rightarrow> pool_run \<Rightarrow> pool_run" where
  "pool_call_run E (Pool_allocate sz) (m, c, T) =
     (case bc_allocators_pool_allocate E m c sz of
        (None, m1, c1) \<Rightarrow> (m1, c1, T)
      | (Some p, m1, c1) \<Rightarrow> (m1, c1, T @ [(p, sz, \<lambda>_. None)]))"
| "pool_call_run E (Pool_reallocate i sz) (m, c, T) =
     (if i < length T then
        (case T ! i of (p, n, b) \<Rightarrow>
           (case bc_allocators_pool_reallocate E m c p sz of
              (None, m1, c1) \<Rightarrow> (m1, c1, T)
            | (Some q, m1, c1) \<Rightarrow> (m1, c1, T[i := (q, sz, \<lambda>j. if j < unat sz then b j else None)])))
      else (m, c, T))"
| "pool_call_run E (Pool_free i) (m, c, T) =
     (if i < length T then
        (case bc_allocators_pool_free m c (fst (T ! i)) of (m1, c1) \<Rightarrow> (m1, c1, take i T @ drop (Suc i) T))
      else (m, c, T))"
| "pool_call_run E (Pool_write i f) (m, c, T) =
     (if i < length T then
        (case T ! i of (p, n, b) \<Rightarrow>
           (write_bytes m p n f, c, T[i := (p, n, \<lambda>j. if j < unat n then Some (f j) else None)]))
      else (m, c, T))"

fun call_size :: "pool_call \<Rightarrow> u64" where
  "call_size (Pool_allocate sz) = sz"
| "call_size (Pool_reallocate i sz) = sz"
| "call_size (Pool_free i) = 0"
| "call_size (Pool_write i f) = 0"

text \<open>Each entry is an object of the pool of at least the size asked for, which holds the bytes of the entry.\<close>

definition entry_ok :: "mem \<Rightarrow> nat \<Rightarrow> u64 \<times> u64 \<times> (nat \<Rightarrow> u8 option) \<Rightarrow> bool" where
  "entry_ok m k e \<longleftrightarrow>
     (case e of (p, n, b) \<Rightarrow> unat n \<le> k \<and> (\<forall>j v. b j = Some v \<longrightarrow> j < unat n \<and> m (p + of_nat j) = v))"

definition pool_table_ok :: "mem \<Rightarrow> bc_context \<Rightarrow> pool_table \<Rightarrow> (u64 \<Rightarrow> nat) \<Rightarrow> bool" where
  "pool_table_ok m c T k \<longleftrightarrow>
     distinct (map fst T) \<and> pool_objects m c (table_objects k (map fst T)) \<and> (\<forall>e \<in> set T. entry_ok m (k (fst e)) e)"

lemma entry_ok_kept:
  assumes "entry_ok m k e" "agree m m' (area (fst e) k)" "unat (fst e) + k \<le> 140737488355328"
  shows "entry_ok m' k e"
proof -
  obtain p n b where e: "e = (p, n, b)" by (metis prod_cases3)
  have "m' (p + of_nat j) = m (p + of_nat j)" if "j < unat n" for j
  proof -
    have "p + of_nat j \<in> area p k" using assms(1,3) that unfolding e by (intro in_area_nth) (simp_all add: entry_ok_def)
    then show ?thesis using assms(2) unfolding e agree_def by simp
  qed
  then show ?thesis using assms(1) unfolding e by (fastforce simp: entry_ok_def)
qed

lemma table_entry:
  "e \<in> set T \<Longrightarrow> (fst e, k (fst e)) \<in> table_objects k (map fst T)"
  by (auto simp: table_objects_def)

text \<open>The entries whose objects are kept stay good.\<close>

lemma entries_kept:
  assumes ok: "pool_table_ok m c T k" and kept: "kept_objects m m' S" and e: "e \<in> set T" "(fst e, k (fst e)) \<in> S"
  shows "entry_ok m' (k (fst e)) e"
proof (rule entry_ok_kept)
  show "entry_ok m (k (fst e)) e" using ok e(1) by (simp add: pool_table_ok_def)
  show "agree m m' (area (fst e) (k (fst e)))" by (rule kept_objectsD [OF kept e(2)])
  show "unat (fst e) + k (fst e) \<le> 140737488355328"
    using pool_store_bounds [of m c] ok table_entry [OF e(1)] unfolding pool_table_ok_def by blast
qed

lemma map_fst_remove: "map fst (take i T @ drop (Suc i) T) = take i (map fst T) @ drop (Suc i) (map fst T)"
  by (simp add: take_map drop_map)

lemma remove_nth:
  assumes "distinct xs" "i < length xs"
  shows "distinct (take i xs @ drop (Suc i) xs)" "set (take i xs @ drop (Suc i) xs) = set xs - {xs ! i}"
proof -
  have x: "xs = take i xs @ xs ! i # drop (Suc i) xs" by (rule id_take_nth_drop [OF assms(2)])
  have "distinct (take i xs @ xs ! i # drop (Suc i) xs)" using assms(1) x by simp
  then show "distinct (take i xs @ drop (Suc i) xs)" by simp
  have "set xs = set (take i xs) \<union> insert (xs ! i) (set (drop (Suc i) xs))" by (subst x) simp
  moreover have "xs ! i \<notin> set (take i xs @ drop (Suc i) xs)" using \<open>distinct (take i xs @ xs ! i # drop (Suc i) xs)\<close> by auto
  ultimately show "set (take i xs @ drop (Suc i) xs) = set xs - {xs ! i}" by auto
qed

text \<open>Replacing, adding and removing an entry.\<close>

lemma table_ok_add:
  assumes ok: "pool_table_ok m c T k" and e: "p \<notin> fst ` table_objects k (map fst T)" "unat n \<le> j"
    and h: "pool_objects m' c' (insert (p, j) (table_objects k (map fst T)))"
    and kept: "kept_objects m m' (table_objects k (map fst T))"
  shows "pool_table_ok m' c' (T @ [(p, n, \<lambda>_. None)]) (k(p := j))"
proof -
  have p: "p \<notin> set (map fst T)" using e(1) by simp
  have "table_objects (k(p := j)) (map fst (T @ [(p, n, \<lambda>_. None)])) = insert (p, j) (table_objects k (map fst T))"
    by (rule table_objects_upd [OF p]) simp
  moreover have "entry_ok m' ((k(p := j)) (fst e)) e" if x: "e \<in> set T" for e
  proof -
    have "fst e \<noteq> p" using p x by auto
    then show ?thesis using entries_kept [OF ok kept x table_entry [OF x]] by simp
  qed
  moreover have "entry_ok m' j (p, n, \<lambda>_. None)" using e(2) by (simp add: entry_ok_def)
  ultimately show ?thesis using ok h p by (auto simp: pool_table_ok_def)
qed

lemma table_ok_remove:
  assumes ok: "pool_table_ok m c T k" and i: "i < length T"
    and h: "pool_objects m' c' (table_objects k (map fst T) - {(fst (T ! i), k (fst (T ! i)))})"
    and kept: "kept_objects m m' (table_objects k (map fst T) - {(fst (T ! i), k (fst (T ! i)))})"
  shows "pool_table_ok m' c' (take i T @ drop (Suc i) T) k"
proof -
  have d: "distinct (map fst T)" using ok by (simp add: pool_table_ok_def)
  note r = remove_nth [OF d, of i, unfolded length_map, OF i]
  have mf: "map fst T ! i = fst (T ! i)" using i by simp
  note to = table_objects_remove [OF r(2) [unfolded mf], of k]
  have "entry_ok m' (k (fst e)) e" if x: "e \<in> set (take i T @ drop (Suc i) T)" for e
  proof (rule entries_kept [OF ok kept])
    show "e \<in> set T" using x by (auto dest: in_set_takeD in_set_dropD)
    have "fst e \<in> set (take i (map fst T) @ drop (Suc i) (map fst T))" using x by (auto simp: take_map drop_map)
    then show "(fst e, k (fst e)) \<in> table_objects k (map fst T) - {(fst (T ! i), k (fst (T ! i)))}"
      unfolding to [symmetric] by (auto simp: table_objects_def)
  qed
  then show ?thesis using r(1) h unfolding pool_table_ok_def map_fst_remove to by simp
qed

lemma table_ok_replace:
  assumes ok: "pool_table_ok m c T k" and i: "i < length T" "T ! i = (p, n, b)"
    and e: "q \<notin> fst ` (table_objects k (map fst T) - {(p, k p)})" "entry_ok m' j (q, n', b')"
    and h: "pool_objects m' c' (insert (q, j) (table_objects k (map fst T) - {(p, k p)}))"
    and kept: "kept_objects m m' (table_objects k (map fst T) - {(p, k p)})"
  shows "pool_table_ok m' c' (T[i := (q, n', b')]) (k(q := j))"
proof -
  have d: "distinct (map fst T)" using ok by (simp add: pool_table_ok_def)
  have mf: "map fst T ! i = p" "i < length (map fst T)" using i by simp_all
  note r = remove_nth [OF d mf(2), unfolded mf(1)]
  note to = table_objects_remove [OF r(2), of k]
  have q: "q \<notin> set (map fst T) - {p}" using e(1) unfolding to [symmetric] r(2) [symmetric] by simp
  have st: "set (map fst (T[i := (q, n', b')])) = insert q (set (map fst T) - {p})"
    using set_update_distinct [OF d mf(2), of q] mf(1) by (simp add: map_update)
  have dist: "distinct (map fst (T[i := (q, n', b')]))"
    using distinct_list_update [OF d, of q i] q mf(1) by (simp add: map_update)
  have "table_objects (k(q := j)) (map fst (T[i := (q, n', b')])) = insert (q, j) (table_objects k (take i (map fst T) @ drop (Suc i) (map fst T)))"
    by (rule table_objects_upd) (use q st r(2) in auto)
  then have to': "table_objects (k(q := j)) (map fst (T[i := (q, n', b')])) = insert (q, j) (table_objects k (map fst T) - {(p, k p)})"
    using to by simp
  have "entry_ok m' ((k(q := j)) (fst x)) x" if x: "x \<in> set (T[i := (q, n', b')])" for x
  proof (cases "x = (q, n', b')")
    case True
    then show ?thesis using e(2) by simp
  next
    case False
    obtain l where l: "l < length T" "x = (T[i := (q, n', b')]) ! l" using x by (auto simp: in_set_conv_nth)
    then have li: "l \<noteq> i" "x = T ! l" using False i(1) by (auto simp: nth_list_update split: if_splits)
    then have "fst x \<noteq> p" using d l(1) i nth_eq_iff_index_eq [OF d, of l i] by auto
    moreover have xT: "x \<in> set T" using li l(1) by simp
    ultimately have "fst x \<noteq> q" "(fst x, k (fst x)) \<in> table_objects k (map fst T) - {(p, k p)}"
      using q by (auto simp: table_objects_def)
    then show ?thesis using entries_kept [OF ok kept xT] by simp
  qed
  then show ?thesis using dist h to' by (simp add: pool_table_ok_def)
qed

lemma entry_ok_write:
  assumes "unat p + k \<le> 140737488355328" "unat n \<le> k"
  shows "entry_ok (write_bytes m p n f) k (p, n, \<lambda>j. if j < unat n then Some (f j) else None)"
    "agree m (write_bytes m p n f) (- area p k)"
proof -
  have "write_bytes m p n f (p + of_nat j) = f j" if "j < unat n" for j
  proof -
    have "unat (of_nat j :: u64) = j" using that u64_max [of n] by (intro unat_of_nat_no_wrap) linarith
    then show ?thesis using that by (simp add: write_bytes_def word_less_nat_alt)
  qed
  then show "entry_ok (write_bytes m p n f) k (p, n, \<lambda>j. if j < unat n then Some (f j) else None)"
    using assms(2) by (auto simp: entry_ok_def split: if_splits)
  have "write_bytes m p n f a = m a" if "a \<notin> area p k" for a
    using that in_area_offset [of p k a] assms by (auto simp: write_bytes_def word_less_nat_alt)
  then show "agree m (write_bytes m p n f) (- area p k)" by (simp add: agree_def del: in_area)
qed

section \<open>Every call keeps the table\<close>

context bc_core
begin

lemma pool_call_keeps:
  assumes ok: "pool_table_ok m c T k" and sz: "unat (call_size x) \<le> 9223372036854775808"
    and run: "pool_call_run E x (m, c, T) = (m', c', T')"
  shows "\<exists>k'. pool_table_ok m' c' T' k'"
proof (cases x)
  case (Pool_allocate n)
  obtain r m1 c1 where al: "bc_allocators_pool_allocate E m c n = (r, m1, c1)" by (metis prod_cases3)
  have h: "pool_objects m c (table_objects k (map fst T))" using ok by (simp add: pool_table_ok_def)
  have n: "unat n \<le> 9223372036854775808" using sz Pool_allocate by simp
  show ?thesis
  proof (cases r)
    case None
    note f = pool.alloc_None [OF h n al [unfolded None]]
    have "\<forall>e \<in> set T. entry_ok m1 (k (fst e)) e" using entries_kept [OF ok conjunct2 [OF f]] table_entry by blast
    then show ?thesis using run al None Pool_allocate ok f by (auto simp: pool_table_ok_def)
  next
    case (Some p)
    obtain j where j: "unat n \<le> j" "p \<notin> fst ` table_objects k (map fst T)"
      "pool_objects m1 c1 (insert (p, j) (table_objects k (map fst T)))" "kept_objects m m1 (table_objects k (map fst T))"
      using pool.alloc_Some [OF h n al [unfolded Some]] by blast
    show ?thesis using table_ok_add [OF ok j(2,1,3,4)] run al Some Pool_allocate by auto
  qed
next
  case (Pool_reallocate i n)
  show ?thesis
  proof (cases "i < length T")
    case i: True
    obtain p l b where e: "T ! i = (p, l, b)" by (metis prod_cases3)
    obtain r m1 c1 where re: "bc_allocators_pool_reallocate E m c p n = (r, m1, c1)" by (metis prod_cases3)
    have h: "pool_objects m c (table_objects k (map fst T))" using ok by (simp add: pool_table_ok_def)
    have n: "unat n \<le> 9223372036854775808" using sz Pool_reallocate by simp
    have mem: "(p, l, b) \<in> set T" using i e by (metis nth_mem)
    have pk: "(p, k p) \<in> table_objects k (map fst T)" using table_entry [OF mem, of k] by simp
    have eo: "entry_ok m (k p) (p, l, b)" using ok mem by (auto simp: pool_table_ok_def)
    show ?thesis
    proof (cases r)
      case None
      note f = pool.resize_None [OF h pk n re [unfolded None]]
      have "\<forall>e \<in> set T. entry_ok m1 (k (fst e)) e" using entries_kept [OF ok conjunct2 [OF f]] table_entry by blast
      then show ?thesis using run re None Pool_reallocate ok f i e by (auto simp: pool_table_ok_def)
    next
      case (Some q)
      obtain j where j: "unat n \<le> j" "q \<notin> fst ` (table_objects k (map fst T) - {(p, k p)})"
        "pool_objects m1 c1 (insert (q, j) (table_objects k (map fst T) - {(p, k p)}))"
        "kept_objects m m1 (table_objects k (map fst T) - {(p, k p)})"
        "\<forall>i < min (unat n) (k p). m1 (q + of_nat i) = m (p + of_nat i)"
        using pool.resize_Some [OF h pk n re [unfolded Some]] by blast
      have "entry_ok m1 j (q, n, \<lambda>j. if j < unat n then b j else None)"
        using j(1,5) eo by (fastforce simp: entry_ok_def split: if_splits)
      from table_ok_replace [OF ok i e j(2) this j(3,4)] show ?thesis
        using run re Some Pool_reallocate i e by auto
    qed
  qed (use run ok Pool_reallocate in auto)
next
  case (Pool_free i)
  show ?thesis
  proof (cases "i < length T")
    case i: True
    have h: "pool_objects m c (table_objects k (map fst T))" using ok by (simp add: pool_table_ok_def)
    obtain m1 c1 where fr: "bc_allocators_pool_free m c (fst (T ! i)) = (m1, c1)" by fastforce
    note f = pool.release [OF h table_entry [OF nth_mem [OF i]] fr]
    show ?thesis using table_ok_remove [OF ok i conjunct1 [OF f] conjunct2 [OF f]] run fr Pool_free i by auto
  qed (use run ok Pool_free in auto)
next
  case (Pool_write i f)
  show ?thesis
  proof (cases "i < length T")
    case i: True
    obtain p n b where e: "T ! i = (p, n, b)" by (metis prod_cases3)
    have h: "pool_objects m c (table_objects k (map fst T))" using ok by (simp add: pool_table_ok_def)
    have mem: "(p, n, b) \<in> set T" using i e by (metis nth_mem)
    have pk: "(p, k p) \<in> table_objects k (map fst T)" using table_entry [OF mem, of k] by simp
    have n: "unat n \<le> k p" using ok mem by (auto simp: pool_table_ok_def entry_ok_def)
    have lim: "unat p + k p \<le> 140737488355328" using pool_store_bounds [OF h pk] by simp
    note ew = entry_ok_write [OF lim n, of m f]
    note w = pool.write_keeps [OF h pk ew(2)]
    have ins: "insert (p, k p) (table_objects k (map fst T) - {(p, k p)}) = table_objects k (map fst T)" using pk by blast
    have fresh: "p \<notin> fst ` (table_objects k (map fst T) - {(p, k p)})" by (auto simp: table_objects_def)
    from table_ok_replace [OF ok i e fresh ew(1), unfolded ins, OF w] show ?thesis using run Pool_write i e by auto
  qed (use run ok Pool_write in auto)
qed

lemma pool_calls_keep:
  assumes "pool_table_ok m c T k" "\<forall>x \<in> set xs. unat (call_size x) \<le> 9223372036854775808"
    "fold (pool_call_run E) xs (m, c, T) = (m', c', T')"
  shows "\<exists>k'. pool_table_ok m' c' T' k'"
  using assms
proof (induction xs arbitrary: m c T k)
  case (Cons x xs)
  obtain m1 c1 T1 where x: "pool_call_run E x (m, c, T) = (m1, c1, T1)" by (metis prod_cases3)
  then obtain k1 where k1: "pool_table_ok m1 c1 T1 k1" using pool_call_keeps [OF Cons.prems(1) _ x] Cons.prems(2) by auto
  show ?case by (rule Cons.IH [OF k1]) (use Cons.prems(2,3) x in simp_all)
qed auto

end

section \<open>What a table that is kept says\<close>

text \<open>Where the user area of a live block lies.\<close>

lemma live_block_place:
  assumes inv: "pool_inv m c L" and b: "b \<in> L"
  shows "pool_base c \<le> unat (user_ptr m c b)" "unat (user_ptr m c b) + usable m c b \<le> pool_base c + pool_bump c"
    "area (user_ptr m c b) (usable m c b) \<inter> area (pool_table c) (pool_total c div pool_page c) = {}"
    "(if block_class m c b < 19 then min (class_bytes (block_class m c b)) (pool_page c) else 16) dvd unat (user_ptr m c b)"
proof -
  note f = live_block_facts [OF inv b]
  note r = block_ok_range [OF f(1,2)]
  note gd = f(1) [unfolded pool_geometry_def]
  show lo: "pool_base c \<le> unat (user_ptr m c b)"
    and hi: "unat (user_ptr m c b) + usable m c b \<le> pool_base c + pool_bump c"
    using f(3,4) r(1,2) by (auto split: if_splits)
  have "area (user_ptr m c b) (usable m c b) \<subseteq> area (rg_base (cx_region c)) (pool_total c)"
    using lo f(7) by auto
  then show "area (user_ptr m c b) (usable m c b) \<inter> area (pool_table c) (pool_total c div pool_page c) = {}"
    using gd apart_disjoint by blast
  show "(if block_class m c b < 19 then min (class_bytes (block_class m c b)) (pool_page c) else 16) dvd unat (user_ptr m c b)"
  proof (cases "block_class m c b < 19")
    case True
    then show ?thesis using f(2,3) by (simp add: block_ok_def)
  next
    case False
    obtain s where s: "pool_page c = 2 ^ s" "12 \<le> s" using gd by blast
    then have "16 dvd pool_page c" using le_imp_power_dvd [of 4 s "2 :: nat"] by simp
    moreover have "pool_page c dvd unat b" using f(2) False by (simp add: block_ok_def)
    ultimately have "16 dvd unat b" by (rule dvd_trans)
    then show ?thesis using False f(3) by simp
  qed
qed

definition entry_placed :: "mem \<Rightarrow> bc_context \<Rightarrow> u64 \<Rightarrow> u64 \<Rightarrow> bool" where
  "entry_placed m c p n \<longleftrightarrow>
     p \<noteq> NULL \<and> pool_base c \<le> unat p \<and> unat p + unat n \<le> pool_base c + pool_bump c \<and>
     area p (unat n) \<inter> area (pool_table c) (pool_total c div pool_page c) = {} \<and>
     (case get_usable_size m c p of (u, large) \<Rightarrow>
        unat n \<le> unat u \<and> (if large then 16 else min (unat u) (pool_page c)) dvd unat p)"

lemma table_entry_placed:
  assumes ok: "pool_table_ok m c T k" and e: "(p, n, b) \<in> set T"
  shows "entry_placed m c p n" "b j = Some v \<Longrightarrow> j < unat n \<and> m (p + of_nat j) = v"
proof -
  have h: "pool_objects m c (table_objects k (map fst T))" using ok by (simp add: pool_table_ok_def)
  have pk: "(p, k p) \<in> table_objects k (map fst T)" using table_entry [OF e, of k] by simp
  obtain L x where L: "pool_inv m c L" "x \<in> L" "p = user_ptr m c x" "k p = usable m c x"
    using pool_objectsE [OF h pk] by metis
  have eo: "entry_ok m (k p) (p, n, b)" using ok e by (auto simp: pool_table_ok_def)
  then have n: "unat n \<le> k p" by (simp add: entry_ok_def)
  show "b j = Some v \<Longrightarrow> j < unat n \<and> m (p + of_nat j) = v" using eo by (simp add: entry_ok_def)
  note pl = live_block_place [OF L(1,2), folded L(3,4)]
  obtain u where u: "get_usable_size m c p = (u, \<not> block_class m c x < 19)" "unat u = k p"
    using get_usable_size_live [OF L(1,2)] L(3,4) by metis
  have "k p = class_bytes (block_class m c x)" if "block_class m c x < 19" using that L(4) by (simp add: usable_def)
  then have "(if \<not> block_class m c x < 19 then 16 else min (unat u) (pool_page c)) dvd unat p"
    using pl(4) u(2) by (cases "block_class m c x < 19") simp_all
  moreover have "area p (unat n) \<inter> area (pool_table c) (pool_total c div pool_page c) = {}"
    using pl(3) area_mono [OF n] by blast
  ultimately show "entry_placed m c p n"
    using pl(1,2) live_block_facts(8) [OF L(1,2)] L(3) n u by (simp add: entry_placed_def)
qed

lemma table_entries_apart:
  assumes ok: "pool_table_ok m c T k" and i: "i < length T" "j < length T" "i \<noteq> j"
    and e: "T ! i = (p, n, b)" "T ! j = (q, l, d)"
  shows "apart p (unat n) q (unat l)"
proof -
  have h: "pool_objects m c (table_objects k (map fst T))" and dist: "distinct (map fst T)"
    using ok by (simp_all add: pool_table_ok_def)
  have mem: "(p, n, b) \<in> set T" "(q, l, d) \<in> set T" using i e by (metis nth_mem)+
  then have nk: "unat n \<le> k p" "unat l \<le> k q" using ok by (auto simp: pool_table_ok_def entry_ok_def)
  have "p \<noteq> q" using nth_eq_iff_index_eq [OF dist, of i j] i e by simp
  then have "apart p (k p) q (k q)"
    using pool_store_apart [OF h] table_entry [OF mem(1), of k] table_entry [OF mem(2), of k] by simp
  then show ?thesis using nk by (rule apart_mono)
qed

section \<open>The counters over a sequence of calls\<close>

context bc_core
begin

lemma pool_call_leak_view:
  "pool_call_run E x (m, c, T) = (m', c', T') \<Longrightarrow> leak_view c' = leak_view c"
  by (cases x)
    (auto split: if_splits prod.splits option.splits dest: leak_view_allocate leak_view_reallocate leak_view_free)

lemma pool_calls_leak_view:
  "fold (pool_call_run E) xs (m, c, T) = (m', c', T') \<Longrightarrow> leak_view c' = leak_view c"
proof (induction xs arbitrary: m c T)
  case (Cons x xs)
  obtain m1 c1 T1 where x: "pool_call_run E x (m, c, T) = (m1, c1, T1)" by (metis prod_cases3)
  show ?case using Cons.IH [of m1 c1 T1] Cons.prems x pool_call_leak_view [OF x] by simp
qed simp

end

lemma table_size:
  assumes ok: "pool_table_ok m c T k"
  obtains L where "pool_inv m c L" "card L = length T"
    "(\<Sum>b \<in> L. usable m c b) = (\<Sum>p \<leftarrow> map fst T. unat (fst (get_usable_size m c p)))"
proof -
  have h: "pool_objects m c (table_objects k (map fst T))" and dist: "distinct (map fst T)"
    using ok by (simp_all add: pool_table_ok_def)
  obtain L where L: "pool_inv m c L" "table_objects k (map fst T) = pool_object m c ` L" using h by (auto simp: pool_objects_def)
  note inj = pool_object_inj [OF L(1)]
  have inj2: "inj_on (\<lambda>p. (p, k p)) (set (map fst T))" by (auto simp: inj_on_def)
  have "card L = card (set (map fst T))"
    using card_image [OF inj] card_image [OF inj2] L(2) by (simp add: table_objects_def)
  then have "card L = length T" using distinct_card [OF dist] by simp
  moreover have "(\<Sum>b \<in> L. usable m c b) = (\<Sum>p \<leftarrow> map fst T. unat (fst (get_usable_size m c p)))"
  proof -
    have "(\<Sum>b \<in> L. usable m c b) = (\<Sum>e \<in> pool_object m c ` L. snd e)"
      using sum.reindex [OF inj, of snd] by (simp add: pool_object_def comp_def)
    also have "\<dots> = (\<Sum>p \<in> set (map fst T). k p)" using inj2 unfolding L(2) [symmetric] table_objects_def by (simp add: sum.reindex)
    also have "\<dots> = (\<Sum>p \<in> set (map fst T). unat (fst (get_usable_size m c p)))"
      using pool_objects_usable [OF h, of p "k p" for p] by (intro sum.cong refl) (simp add: table_objects_def)
    also have "\<dots> = (\<Sum>p \<leftarrow> map fst T. unat (fst (get_usable_size m c p)))"
      using dist by (simp only: sum_list_distinct_conv_sum_set)
    finally show ?thesis .
  qed
  ultimately show thesis using that L(1) by blast
qed

text \<open>The calls of a client that starts with the context it has just created.\<close>

lemma pool_calls_from_create:
  assumes "bc_os E" "bc_allocators_context_create E w config = (Some c0, w0)"
    "\<forall>x \<in> set xs. unat (call_size x) \<le> 9223372036854775808"
    "fold (pool_call_run E) xs (mc_mem w0, c0, []) = (m, c, T)"
  obtains k where "pool_table_ok m c T k"
proof -
  have "pool_inv (mc_mem w0) c0 {}" by (rule bc_os.context_create_Some(1) [OF assms(1,2)])
  then have "pool_table_ok (mc_mem w0) c0 [] (\<lambda>_. 0)"
    by (auto simp: pool_table_ok_def pool_objects_def table_objects_def)
  from bc_core.pool_calls_keep [OF bc_os.axioms(1) [OF assms(1)] this assms(3,4)] show thesis using that by blast
qed

end
