(* ===== verification/BC_Pool_Props.thy ===== *)
theory BC_Pool_Props
  imports BC_Demo BC_Pool_Trace
begin

text \<open>
  The properties of the pool: size classes, allocation, freeing, reallocation, isolation of the live
  blocks, and where the guard against exhaustion fails.
\<close>

text \<open>C1: Allocation. Whatever the free lists hold, a request of at most \<open>2 ^ 63\<close> bytes either is refused,
  and then the pool stays well formed with the same live blocks, or yields the user pointer of a block
  that was not live, with at least the requested bytes; the invariant holds with that block added (so it is
  apart from every live block, inside the region and aligned). In both cases no byte of any live block
  changes.\<close>

theorem pool_allocate_correct:
  assumes "bc_core E" "pool_inv m c L" "unat sz \<le> 9223372036854775808"
  shows "case bc_allocators_pool_allocate E m c sz of
      (None, m', c') \<Rightarrow> pool_inv m' c' L \<and> live_kept m c m' c' L
    | (Some p, m', c') \<Rightarrow>
        \<exists>b. b \<notin> L \<and> p = user_ptr m' c' b \<and> unat sz \<le> usable m' c' b \<and>
            pool_inv m' c' (insert b L) \<and> live_kept m c m' c' L"
proof -
  obtain r m' c' where run: "bc_allocators_pool_allocate E m c sz = (r, m', c')" by (metis prod_cases3)
  show ?thesis
    using bc_core.pool_allocate_ok [OF assms run] by (cases r) (auto simp: run alloc_result_def)
qed

theorem pool_allocate_correct_witness:
  "case bc_allocators_pool_allocate std_env demo1_mem demo1_ctx 5000 of
      (None, m', c') \<Rightarrow> pool_inv m' c' {69632} \<and> live_kept demo1_mem demo1_ctx m' c' {69632}
    | (Some p, m', c') \<Rightarrow>
        \<exists>b. b \<notin> {69632} \<and> p = user_ptr m' c' b \<and> unat (5000 :: u64) \<le> usable m' c' b \<and>
            pool_inv m' c' (insert b {69632}) \<and> live_kept demo1_mem demo1_ctx m' c' {69632}"
  by (rule pool_allocate_correct) (simp_all add: std.bc_core_axioms demo1_inv)

text \<open>C2: Freeing. Freeing the pointer of a live block (a class block or a large one) keeps the pool well
  formed with that block no longer live, and changes no byte of the others.\<close>

theorem pool_free_correct:
  assumes "pool_inv m c L" "b \<in> L"
  shows "case bc_allocators_pool_free m c (user_ptr m c b) of
    (m', c') \<Rightarrow> pool_inv m' c' (L - {b}) \<and> live_kept m c m' c' (L - {b})"
proof -
  obtain m' c' where run: "bc_allocators_pool_free m c (user_ptr m c b) = (m', c')" by fastforce
  show ?thesis using pool_free_ok [OF assms run] by (simp add: run)
qed

theorem pool_free_correct_witness:
  "case bc_allocators_pool_free demo1_mem demo1_ctx (user_ptr demo1_mem demo1_ctx 69632) of
    (m', c') \<Rightarrow> pool_inv m' c' ({69632} - {69632}) \<and> live_kept demo1_mem demo1_ctx m' c' ({69632} - {69632})"
  by (rule pool_free_correct [OF demo1_inv]) simp

text \<open>C3: Reallocation. Of a live block \<open>b\<close>, a request of at most \<open>2 ^ 63\<close> bytes is refused with \<open>b\<close> still
  live and untouched, or yields a block \<open>b'\<close> (the same or a fresh one) of at least the requested size
  whose first \<open>min(old size, new size)\<close> bytes are those of \<open>b\<close>; \<open>b'\<close> is live instead of \<open>b\<close>, and every other live
  block keeps its bytes.\<close>

theorem pool_reallocate_correct:
  assumes "bc_core E" "pool_inv m c L" "b \<in> L" "unat sz \<le> 9223372036854775808"
  shows "case bc_allocators_pool_reallocate E m c (user_ptr m c b) sz of
      (None, m', c') \<Rightarrow> pool_inv m' c' L \<and> live_kept m c m' c' L
    | (Some p, m', c') \<Rightarrow>
        \<exists>b'. b' \<notin> L - {b} \<and> p = user_ptr m' c' b' \<and> unat sz \<le> usable m' c' b' \<and>
          pool_inv m' c' (insert b' (L - {b})) \<and> live_kept m c m' c' (L - {b}) \<and>
          (\<forall>i < min (unat sz) (usable m c b). m' (p + of_nat i) = m (user_ptr m c b + of_nat i))"
proof -
  obtain r m' c' where run: "bc_allocators_pool_reallocate E m c (user_ptr m c b) sz = (r, m', c')"
    by (metis prod_cases3)
  note ok = bc_core.pool_reallocate_ok [OF assms run]
  show ?thesis
  proof (cases r)
    case None
    then show ?thesis using ok by (simp add: run realloc_result_def)
  next
    case (Some p)
    then show ?thesis using ok unfolding run realloc_result_def by simp blast
  qed
qed

theorem pool_reallocate_correct_witness:
  "case bc_allocators_pool_reallocate std_env demo1_mem demo1_ctx (user_ptr demo1_mem demo1_ctx 69632) 300 of
      (None, m', c') \<Rightarrow> pool_inv m' c' {69632} \<and> live_kept demo1_mem demo1_ctx m' c' {69632}
    | (Some p, m', c') \<Rightarrow>
        \<exists>b'. b' \<notin> {69632} - {69632} \<and> p = user_ptr m' c' b' \<and> unat (300 :: u64) \<le> usable m' c' b' \<and>
          pool_inv m' c' (insert b' ({69632} - {69632})) \<and>
          live_kept demo1_mem demo1_ctx m' c' ({69632} - {69632}) \<and>
          (\<forall>i < min (unat (300 :: u64)) (usable demo1_mem demo1_ctx 69632).
             m' (p + of_nat i) = demo1_mem (user_ptr demo1_mem demo1_ctx 69632 + of_nat i))"
  by (rule pool_reallocate_correct) (simp_all add: std.bc_core_axioms demo1_inv)

text \<open>C4: Isolation. A client creates a context, then allocates, reallocates, frees and writes into what it holds, in any
  order; \<open>T\<close> lists what it was given and has not freed, each pointer with the size last asked for and the bytes the client
  wrote there, as far as the last reallocation kept them. Whatever the calls (of at most \<open>2 ^ 63\<close> bytes each): no two
  entries share a byte; each is non-null, inside the bumped part of the region, off the page-tag table, and
  \<^verbatim>\<open>get_usable_size\<close> finds at least the size asked for, with the pointer aligned to the smaller of the class size and the page, or to
  16 bytes when large; and memory holds every byte the client wrote.\<close>

theorem pool_calls_isolated:
  assumes "bc_os E" "bc_allocators_context_create E w config = (Some c0, w0)"
    "\<forall>x \<in> set xs. unat (call_size x) \<le> 9223372036854775808"
    "fold (pool_call_run E) xs (mc_mem w0, c0, []) = (m, c, T)"
  shows "(\<forall>i < length T. \<forall>j < length T. i \<noteq> j \<longrightarrow>
      area (fst (T ! i)) (unat (fst (snd (T ! i)))) \<inter> area (fst (T ! j)) (unat (fst (snd (T ! j)))) = {}) \<and>
    (\<forall>(p, n, b) \<in> set T.
      p \<noteq> NULL \<and> pool_base c \<le> unat p \<and> unat p + unat n \<le> pool_base c + pool_bump c \<and>
      area p (unat n) \<inter> area (pool_table c) (pool_total c div pool_page c) = {} \<and>
      (case get_usable_size m c p of (u, large) \<Rightarrow>
         unat n \<le> unat u \<and> (if large then 16 else min (unat u) (pool_page c)) dvd unat p) \<and>
      (\<forall>i v. b i = Some v \<longrightarrow> i < unat n \<and> m (p + of_nat i) = v))"
proof -
  obtain k where k: "pool_table_ok m c T k" by (rule pool_calls_from_create [OF assms])
  have "area (fst (T ! i)) (unat (fst (snd (T ! i)))) \<inter> area (fst (T ! j)) (unat (fst (snd (T ! j)))) = {}"
    if ij: "i < length T" "j < length T" "i \<noteq> j" for i j
  proof -
    obtain p n b q l d where e: "T ! i = (p, n, b)" "T ! j = (q, l, d)" by (metis prod_cases3)
    show ?thesis using table_entries_apart [OF k ij e] apart_disjoint unfolding e by simp
  qed
  then show ?thesis using table_entry_placed [OF k] by (fastforce simp: entry_placed_def simp del: in_area)
qed

theorem pool_calls_isolated_witness:
  "\<exists>m c p b q d.
     fold (pool_call_run std_env) [Pool_allocate 4000, Pool_write 0 (\<lambda>i. of_nat i), Pool_allocate 100]
       (mc_mem demo_machine, demo_ctx, []) = (m, c, [(p, 4000, b), (q, 100, d)]) \<and>
     area p 4000 \<inter> area q 100 = {} \<and> q \<noteq> NULL \<and> m (p + 7) = 7"
proof -
  let ?ys = "[Pool_allocate 4000, Pool_write 0 (\<lambda>i. of_nat i)]" and ?b = "\<lambda>j. if j < 4000 then Some (of_nat j) else None"
  define m1 where "m1 = write_bytes demo1_mem 69632 4000 (\<lambda>i. of_nat i)"
  have r1: "fold (pool_call_run std_env) ?ys (mc_mem demo_machine, demo_ctx, []) = (m1, demo1_ctx, [(69632, 4000, ?b)])"
    by (simp add: demo1_allocate m1_def)
  have sizes: "\<forall>x \<in> set ?ys. unat (call_size x) \<le> 9223372036854775808" by simp
  obtain k where "pool_table_ok m1 demo1_ctx [(69632, 4000, ?b)] k"
    by (rule pool_calls_from_create [OF std.bc_os_axioms demo_create sizes r1])
  then obtain L where L: "pool_inv m1 demo1_ctx L" by (rule table_size)
  obtain r m c where al: "bc_allocators_pool_allocate std_env m1 demo1_ctx 100 = (r, m, c)" by (metis prod_cases3)
  have "r \<noteq> None"
  proof
    assume "r = None"
    then have "pool_total demo1_ctx < pool_bump demo1_ctx + max (class_bytes 3) (pool_page demo1_ctx)"
      using al std_class by (intro std.pool_allocate_class_refusal(2) [OF L, of 100 3 m c]) simp_all
    then show False by (simp add: demo1_sel)
  qed
  then obtain q where q: "r = Some q" by blast
  have r2: "fold (pool_call_run std_env) (?ys @ [Pool_allocate 100]) (mc_mem demo_machine, demo_ctx, []) =
      (m, c, [(69632, 4000, ?b), (q, 100, \<lambda>_. None)])"
    unfolding fold_append comp_apply r1 using al q by simp
  have "\<forall>x \<in> set (?ys @ [Pool_allocate 100]). unat (call_size x) \<le> 9223372036854775808" by simp
  note iso = pool_calls_isolated [OF std.bc_os_axioms demo_create this r2]
  from iso [THEN conjunct1, rule_format, of 0 1] have "area 69632 4000 \<inter> area q 100 = {}" by (simp del: in_area)
  moreover have "q \<noteq> NULL" using iso [THEN conjunct2] by (simp del: in_area)
  moreover have "\<forall>i v. ?b i = Some v \<longrightarrow> m (69632 + of_nat i) = v" using iso [THEN conjunct2] by (simp del: in_area)
  from this [rule_format, of 7 7] have "m (69632 + 7) = 7" by simp
  ultimately show ?thesis using r2 [unfolded append.simps] by blast
qed

text \<open>C10: Size classes. The bit-counting \<^verbatim>\<open>size_class_for_size\<close> is the search for the first entry of the class
  table that is large enough, and \<open>-1\<close> when there is none.\<close>

theorem size_class_is_first_fit:
  assumes "bc_core E"
  shows "size_class_for_size E sz =
    (if (\<exists>k < NUM_CLASSES. sz \<le> bc_allocators_class_sizes ! k)
     then int (LEAST k. k < NUM_CLASSES \<and> sz \<le> bc_allocators_class_sizes ! k) else -1)"
proof (cases "unat sz \<le> 4194304")
  case True
  obtain k where k: "size_class_for_size E sz = int k" "k < 19" "unat sz \<le> class_bytes k"
    "k = 0 \<or> class_bytes (k - 1) < unat sz"
    by (rule bc_core.size_class_bounds [OF assms True])
  have le: "sz \<le> bc_allocators_class_sizes ! j \<longleftrightarrow> unat sz \<le> class_bytes j" if "j < 19" for j
    using that by (simp add: word_le_nat_alt)
  have "(LEAST k. k < NUM_CLASSES \<and> sz \<le> bc_allocators_class_sizes ! k) = k"
  proof (rule Least_equality)
    show "k < NUM_CLASSES \<and> sz \<le> bc_allocators_class_sizes ! k" using k le by (simp add: NUM_CLASSES_def)
    fix j assume j: "j < NUM_CLASSES \<and> sz \<le> bc_allocators_class_sizes ! j"
    show "k \<le> j"
    proof (rule ccontr)
      assume "\<not> k \<le> j"
      then have "class_bytes j \<le> class_bytes (k - 1)" by (intro power_increasing) auto
      moreover have "class_bytes (k - 1) < unat sz" using k(4) \<open>\<not> k \<le> j\<close> by blast
      moreover have "unat sz \<le> class_bytes j" using j le [of j] by (simp add: NUM_CLASSES_def)
      ultimately show False by linarith
    qed
  qed
  moreover have "\<exists>k < NUM_CLASSES. sz \<le> bc_allocators_class_sizes ! k"
    using k le [of k] by (auto simp: NUM_CLASSES_def)
  ultimately show ?thesis using k(1) by simp
next
  case False
  have "\<not> sz \<le> bc_allocators_class_sizes ! k" if "k < 19" for k
    using False that class_bytes_le [OF that] by (simp add: word_le_nat_alt)
  then show ?thesis using bc_core.size_class_too_big [OF assms] False by (auto simp: NUM_CLASSES_def)
qed

theorem size_class_is_first_fit_witness:
  "size_class_for_size std_env 100 =
    (if (\<exists>k < NUM_CLASSES. 100 \<le> bc_allocators_class_sizes ! k)
     then int (LEAST k. k < NUM_CLASSES \<and> 100 \<le> bc_allocators_class_sizes ! k) else -1)"
  by (rule size_class_is_first_fit [OF std.bc_core_axioms])

text \<open>C11: Refusal. A class-sized request (1 byte to 4 MiB) is refused only when the free list of its class is empty
  and the region has no room for another run of pages of that class; then nothing changes.\<close>

theorem pool_allocate_refusal:
  assumes "bc_core E" "pool_inv m c L" "0 < sz" "sz \<le> MAX_CLASS_SIZE"
    "bc_allocators_pool_allocate E m c sz = (None, m', c')"
  shows "\<exists>k < NUM_CLASSES. size_class_for_size E sz = int k \<and> m' = m \<and> c' = c \<and>
    fl_mag_count (cx_pools c ! k) = 0 \<and> fl_head (cx_pools c ! k) = NULL \<and>
    pool_total c < pool_bump c + max (class_bytes k) (pool_page c)"
proof -
  have sz: "unat sz \<le> 4194304" "sz \<noteq> 0" using assms(3,4) by (auto simp: MAX_CLASS_SIZE_def word_le_nat_alt)
  obtain k where k: "size_class_for_size E sz = int k" "k < 19" "unat sz \<le> class_bytes k"
    by (rule bc_core.size_class_bounds [OF assms(1) sz(1)])
  note r = bc_core.pool_allocate_class_refusal [OF assms(1,2) k sz(2) assms(5)]
  show ?thesis using r k(1,2) by (intro exI [of _ k]) (simp add: NUM_CLASSES_def)
qed

theorem pool_allocate_refusal_witness:
  "bc_allocators_pool_allocate std_env demo1_mem demo1_ctx 4194304 = (None, demo1_mem, demo1_ctx)
    \<and> pool_total demo1_ctx < pool_bump demo1_ctx + max (class_bytes 18) (pool_page demo1_ctx)"
proof -
  have cls: "bc_allocators_class_sizes ! 18 = 4194304" by (simp add: bc_allocators_class_sizes_def)
  have "(cx_pools demo1_ctx)[18 := empty_free_list] = cx_pools demo1_ctx"
    by (simp add: demo1_sel list_update_same_conv)
  then have run: "bc_allocators_pool_allocate std_env demo1_mem demo1_ctx 4194304 = (None, demo1_mem, demo1_ctx)"
    by (simp add: bc_allocators_pool_allocate_def std_class bump_allocate_class_def cls bump_raw_def
        demo1_sel std_core_simps round_up_def free_list_pop_def empty_free_list_def)
  have "\<exists>k < NUM_CLASSES. size_class_for_size std_env 4194304 = int k \<and> demo1_mem = demo1_mem \<and>
    demo1_ctx = demo1_ctx \<and> fl_mag_count (cx_pools demo1_ctx ! k) = 0 \<and> fl_head (cx_pools demo1_ctx ! k) = NULL \<and>
    pool_total demo1_ctx < pool_bump demo1_ctx + max (class_bytes k) (pool_page demo1_ctx)"
    by (rule pool_allocate_refusal [OF std.bc_core_axioms demo1_inv _ _ run])
      (simp_all add: MAX_CLASS_SIZE_def)
  then show ?thesis using run by (auto simp: std_class)
qed

text \<open>C12: Reuse. While the magazine of its class has room, freeing a class block and then requesting any size of
  that class returns the same pointer, and not one byte of memory has been written.\<close>

theorem pool_free_allocate_reuse:
  assumes "bc_core E" "pool_inv m c L" "b \<in> L" "block_class m c b < NUM_CLASSES"
    "fl_mag_count (cx_pools c ! block_class m c b) < MAG_SIZE"
    "sz \<noteq> 0" "size_class_for_size E sz = int (block_class m c b)"
  shows "case bc_allocators_pool_free m c (user_ptr m c b) of (m1, c1) \<Rightarrow>
    (case bc_allocators_pool_allocate E m1 c1 sz of (r, m2, c2) \<Rightarrow> r = Some (user_ptr m c b) \<and> m2 = m)"
proof -
  obtain m1 c1 where fr: "bc_allocators_pool_free m c (user_ptr m c b) = (m1, c1)" by fastforce
  obtain r m2 c2 where al: "bc_allocators_pool_allocate E m1 c1 sz = (r, m2, c2)" by (metis prod_cases3)
  show ?thesis
    using bc_core.free_then_allocate [OF assms(1-3) refl _ assms(5,7,6) fr al] assms(4)
    by (simp add: fr al NUM_CLASSES_def)
qed

theorem pool_free_allocate_reuse_witness:
  "case bc_allocators_pool_free demo1_mem demo1_ctx 69632 of (m1, c1) \<Rightarrow>
    (case bc_allocators_pool_allocate std_env m1 c1 4000 of (r, m2, c2) \<Rightarrow> r = Some 69632 \<and> m2 = demo1_mem)"
proof -
  have k: "block_class demo1_mem demo1_ctx 69632 = 8" using demo1_class by (simp add: block_class_def)
  have "case bc_allocators_pool_free demo1_mem demo1_ctx (user_ptr demo1_mem demo1_ctx 69632) of (m1, c1) \<Rightarrow>
    (case bc_allocators_pool_allocate std_env m1 c1 4000 of (r, m2, c2) \<Rightarrow>
       r = Some (user_ptr demo1_mem demo1_ctx 69632) \<and> m2 = demo1_mem)"
    by (rule pool_free_allocate_reuse [OF std.bc_core_axioms demo1_inv])
      (simp_all add: k NUM_CLASSES_def std_class demo1_sel empty_free_list_def MAG_SIZE_def)
  then show ?thesis by (simp add: demo1_ptr)
qed

text \<open>C13: The exhaustion guard wraps. With a live block and no free large block, the request \<open>2 ^ 64 - bump - 16\<close>, far
  larger than the region, passes every check: it has no class, its header and rounding do not overflow, the free large blocks do
  not serve it, so it reaches \<^verbatim>\<open>bump_raw\<close> with a total that exceeds the region; there the sum wraps to zero, which the
  guard takes for room: it returns an address and moves the bump pointer back to the start of the region, where blocks
  are live. The tagging loop that comes next would run over all pages to the end of the address space, past the end of
  the tag table; nothing is said of what it does to the process.\<close>

theorem pool_allocate_guard_wraps:
  assumes "bc_core E" "pool_inv m c L" "L \<noteq> {}" "fst (free_list_pop m (cx_large_pool c)) = NULL"
  shows "let total = 0 - rg_bump (cx_region c); sz = total - LARGE_META_SIZE in
    bc_allocators_pool_allocate E m c sz =
      (case bump_large m c sz total of (p, m1, c1) \<Rightarrow>
         if p = NULL then (None, m1, c1) else (Some p, m1, track_alloc c1 sz)) \<and>
    pool_total c < pool_bump c + unat total \<and>
    (case bump_raw c total of (block, c1) \<Rightarrow>
       block \<noteq> NULL \<and> rg_bump (cx_region c1) = 0 \<and>
       tagged_pages c1 (block - rg_base (cx_region c1)) total =
         [pool_bump c div pool_page c ..< 18446744073709551616 div pool_page c]) \<and>
    pool_total c div pool_page c < 18446744073709551616 div pool_page c"
proof -
  obtain fl where fl: "free_list_pop m (cx_large_pool c) = (NULL, fl)" using assms(4) by (metis prod.collapse)
  note r = bc_core.pool_request_wraps [OF assms(1-3) fl]
  obtain F where "pool_core m c F L" using assms(2) by (auto simp: pool_inv_def)
  then have g: "pool_geometry c" by (rule pool_coreD)
  have c1: "cx_page_shift (set_bump c 0) = cx_page_shift c" "rg_base (cx_region (set_bump c 0)) = rg_base (cx_region c)"
    "rg_bump (cx_region (set_bump c 0)) = 0" by (simp_all add: set_bump_def)
  note wp = bc_core.wrapped_pages [OF assms(1) g bc_core.pool_inv_bump_pos [OF assms(1-3)] c1(1)]
  have al: "bc_allocators_pool_allocate E m c (0 - rg_bump (cx_region c) - LARGE_META_SIZE) =
      (case bump_large m c (0 - rg_bump (cx_region c) - LARGE_META_SIZE) (0 - rg_bump (cx_region c)) of (p, m1, c1) \<Rightarrow>
         if p = NULL then (None, m1, c1) else (Some p, m1, track_alloc c1 (0 - rg_bump (cx_region c) - LARGE_META_SIZE)))"
    unfolding bc_allocators_pool_allocate_def r(3) using r(1,2) by simp
  show ?thesis
    unfolding Let_def r(5) prod.case c1(2,3) using al r(4,6) wp by (simp del: upt_Suc)
qed

theorem pool_allocate_guard_wraps_witness:
  "case bump_raw demo1_ctx (0 - 4096) of (block, c1) \<Rightarrow>
     block \<noteq> NULL \<and> rg_bump (cx_region c1) = 0 \<and>
     tagged_pages c1 (block - rg_base (cx_region c1)) (0 - 4096) = [1 ..< 4503599627370496]"
proof -
  have "fst (free_list_pop demo1_mem (cx_large_pool demo1_ctx)) = NULL"
    by (simp add: demo1_sel free_list_pop_def empty_free_list_def)
  from pool_allocate_guard_wraps [OF std.bc_core_axioms demo1_inv _ this] show ?thesis
    by (simp add: Let_def demo1_sel split_beta del: upt_Suc)
qed

end
