(* ===== verification/BC_Context_Props.thy ===== *)
theory BC_Context_Props
  imports BC_Demo BC_Pool_Trace
begin

text \<open>
  The properties of the context: creation on every path, destruction, the leak report, the statistics and
  the safe size computation, and the aligned and huge-page allocators of its header.
\<close>

text \<open>C14: Creation. On success the pool is well formed with no live block, the region has the configured size
  rounded up to pages (the default for a zero size or no configuration), exactly the three mappings of the context are
  new, every page tag is unassigned, and no byte of an older mapping changed.\<close>

theorem context_create_correct:
  assumes "bc_os E" "bc_allocators_context_create E w config = (Some c, w')"
  shows "pool_inv (mc_mem w') c {} \<and> mc_maps w' = mc_maps w @ rev (ctx_mappings c) \<and>
    length (ctx_mappings c) = 3 \<and> agree (mc_mem w) (mc_mem w') (mapped_bytes (mc_maps w)) \<and>
    (\<forall>a \<in> area (rg_page_class (cx_region c)) (unat (rg_page_class_size (cx_region c))).
       mc_mem w' a = PAGE_CLASS_UNASSIGNED) \<and>
    pool_total c = round_up (unat (fst (config_values config))) (pool_page c) \<and>
    (cx_tracking_enabled c, cx_leak_callback c, cx_leak_callback_argument c) = snd (config_values config)"
  using bc_os.context_create_Some [OF assms] by (simp_all add: ctx_mappings_def)

theorem context_create_correct_witness:
  "pool_inv (mc_mem demo_machine) demo_ctx {} \<and> pool_total demo_ctx = 65536"
  using context_create_correct [OF std.bc_os_axioms demo_create]
  by (simp add: demo_sel config_values_def demo_config_def round_up_def)

text \<open>C15: Failed creation. Whichever step fails (page size, size arithmetic, first, second or third mapping), every
  mapping made so far has been given back: the list of mappings is the one before the call, and no byte of them has
  changed.\<close>

theorem context_create_failure_unmaps:
  assumes "bc_os E" "bc_allocators_context_create E w config = (None, w')"
  shows "mc_maps w' = mc_maps w \<and> agree (mc_mem w) (mc_mem w') (mapped_bytes (mc_maps w))"
  using bc_os.context_create_None [OF assms] bc_os.context_create_agree [OF assms] by blast

theorem context_create_failure_unmaps_witness:
  "mc_maps (snd (bc_allocators_context_create std_env boot (Some (demo_config
     \<lparr>cf_max_pool_memory := 1152921504606846976\<rparr>)))) = []"
proof -
  let ?cf = "demo_config\<lparr>cf_max_pool_memory := 1152921504606846976\<rparr>"
  have "context_sizes std_env 1152921504606846976 4096 = Some (1152921504606846976, 281474976710656, 4096)"
    by (simp add: context_sizes_def std_core_simps round_up_def sizeof_context_def)
  then have "fst (bc_allocators_context_create std_env boot (Some ?cf)) = None"
    by (simp add: context_create_phases std_page config_values_def demo_config_def create_mapped_def
        std_map boot_def platform_map_def std_core_simps std_mmap_def round_up_def)
  then have "bc_allocators_context_create std_env boot (Some ?cf) =
      (None, snd (bc_allocators_context_create std_env boot (Some ?cf)))" by (metis prod.collapse)
  from context_create_failure_unmaps [OF std.bc_os_axioms this] show ?thesis by (simp add: boot_def)
qed

text \<open>Destruction. If the machine holds the mappings of the context (its arena cache, the tag table, the region and the
  struct), destroying it unmaps exactly those and writes no memory.\<close>

theorem context_destroy_unmaps:
  assumes "bc_os E" "mset (ctx_mappings c) \<subseteq># mset (mc_maps w)"
  shows "mset (mc_maps (bc_allocators_context_destroy E w c)) = mset (mc_maps w) - mset (ctx_mappings c) \<and>
    mc_mem (bc_allocators_context_destroy E w c) = mc_mem w"
  using bc_os.context_destroy_maps [OF assms] by simp_all

theorem context_destroy_unmaps_witness:
  "mset (mc_maps (bc_allocators_context_destroy std_env demo_machine demo_ctx)) = {#}"
proof -
  have "mset (ctx_mappings demo_ctx) \<subseteq># mset (mc_maps demo_machine)"
    "mset (mc_maps demo_machine) = mset (ctx_mappings demo_ctx)"
    using demo_facts(2) by (simp_all add: boot_def)
  then show ?thesis using context_destroy_unmaps [OF std.bc_os_axioms, of demo_ctx demo_machine] by simp
qed

text \<open>C16: The statistics. A client creates a context with tracking, then allocates, reallocates and frees pool memory in any
  order (calls of at most \<open>2 ^ 63\<close> bytes); \<open>T\<close> lists what it was given and has not freed, from the results of the calls
  alone. The statistics can be read, the number of allocations minus the number of frees is the length of \<open>T\<close>, and the active bytes
  are the sum of what \<^verbatim>\<open>get_usable_size\<close> says of its pointers, exactly: neither counter can have wrapped.\<close>

theorem get_stats_counts_calls:
  assumes "bc_os E" "bc_allocators_context_create E w config = (Some c0, w0)" "fst (snd (config_values config))"
    "\<forall>x \<in> set xs. unat (call_size x) \<le> 9223372036854775808"
    "fold (pool_call_run E) xs (mc_mem w0, c0, []) = (m, c, T)"
  shows "case bc_allocators_context_get_stats c of (ok, st) \<Rightarrow> ok \<and>
    unat (st_pool_alloc_count st - st_pool_free_count st) = length T \<and>
    unat (st_pool_active_bytes st) = (\<Sum>p \<leftarrow> map fst T. unat (fst (get_usable_size m c p)))"
proof -
  obtain k where k: "pool_table_ok m c T k" by (rule pool_calls_from_create [OF assms(1,2,4,5)])
  obtain L where L: "pool_inv m c L" "card L = length T"
    "(\<Sum>b \<in> L. usable m c b) = (\<Sum>p \<leftarrow> map fst T. unat (fst (get_usable_size m c p)))" by (rule table_size [OF k])
  have "leak_view c = leak_view c0" by (rule bc_core.pool_calls_leak_view [OF bc_os.axioms(1) [OF assms(1)] assms(5)])
  then have "cx_tracking_enabled c = cx_tracking_enabled c0" by (simp add: leak_view_def leak_setup_def)
  moreover have "(cx_tracking_enabled c0, cx_leak_callback c0, cx_leak_callback_argument c0) = snd (config_values config)"
    by (rule bc_os.context_create_Some(7) [OF assms(1,2)])
  ultimately have tr: "cx_tracking_enabled c" using assms(3) by (metis fst_conv)
  show ?thesis using stats_of_pool [OF L(1) tr prod.collapse [symmetric]] L(2,3) by (simp add: split_beta)
qed

theorem get_stats_counts_calls_witness:
  "\<exists>m c. fold (pool_call_run std_env) [Pool_allocate 4000, Pool_free 0] (mc_mem demo_machine, demo_ctx, []) = (m, c, []) \<and>
     st_pool_active_bytes (snd (bc_allocators_context_get_stats c)) = 0 \<and>
     st_pool_alloc_count (snd (bc_allocators_context_get_stats c)) = st_pool_free_count (snd (bc_allocators_context_get_stats c))"
proof -
  let ?xs = "[Pool_allocate 4000, Pool_free 0]"
  obtain m c where fr: "bc_allocators_pool_free demo1_mem demo1_ctx 69632 = (m, c)" by fastforce
  have run: "fold (pool_call_run std_env) ?xs (mc_mem demo_machine, demo_ctx, []) = (m, c, [])"
    using fr by (simp add: demo1_allocate)
  have "fst (snd (config_values (Some demo_config)))" "\<forall>x \<in> set ?xs. unat (call_size x) \<le> 9223372036854775808"
    by (simp_all add: config_values_def demo_config_def)
  from get_stats_counts_calls [OF std.bc_os_axioms demo_create this run] show ?thesis
    using run by (auto simp: unat_eq_zero split: prod.splits)
qed

text \<open>Safe size computation. The result is the product rounded up to pages, and the call fails exactly when a
  factor is zero, the product does not fit 64 bits or the rounding does not.\<close>

theorem compute_alloc_size_correct:
  assumes "bc_core E" "pow2 (cx_page_size c)"
  shows "bc_allocators_compute_alloc_size E c element_size num =
    (let n = unat element_size * unat num; r = round_up n (pool_page c)
     in if n = 0 \<or> 2 ^ 64 \<le> n \<or> 2 ^ 64 \<le> r then None else Some (of_nat r))"
proof (cases "unat element_size * unat num < 18446744073709551616")
  case True
  then have m: "core_safe_multiply E element_size num = Some (element_size * num)"
    "unat (element_size * num) = unat element_size * unat num"
    using bc_core.safe_multiply [OF assms(1)] by (simp_all add: no_wrap)
  show ?thesis
    using True bc_core.align_up [OF assms(1,2)] m
    by (auto simp: bc_allocators_compute_alloc_size_def Let_def unat_eq_zero)
next
  case False
  then have "core_safe_multiply E element_size num = None"
    using bc_core.safe_multiply [OF assms(1)] by simp
  then show ?thesis using False by (auto simp: bc_allocators_compute_alloc_size_def Let_def)
qed

theorem compute_alloc_size_correct_witness:
  "bc_allocators_compute_alloc_size std_env demo_ctx 24 1000 = Some 24576"
proof -
  have "pow2 (cx_page_size demo_ctx)" by (auto simp: pow2_def demo_sel intro: exI [of _ 12])
  from compute_alloc_size_correct [OF std.bc_core_axioms this, of 24 1000] show ?thesis
    by (simp add: demo_sel round_up_def)
qed

text \<open>C17: Aligned allocation. Exactly the requests of a non-zero size with an alignment that is a power of two of at least
  8 reach \<^verbatim>\<open>posix_memalign\<close>, and their result is its result; every other is refused with nothing changed. A block handed out is
  aligned, non-null, apart from every mapping and every other heap block, recorded in the heap, and freeing it restores
  the heap (of blocks that are not empty), with memory and mappings untouched throughout.\<close>

theorem aligned_allocate_correct:
  assumes "bc_os E"
  shows "case bc_allocators_aligned_allocate E w sz al of (r, w') \<Rightarrow>
    (if sz \<noteq> 0 \<and> pow2 al \<and> 8 \<le> unat al
     then r = libc_posix_memalign E (mc_clock w) (mc_maps w) (mc_heap w) al sz
     else r = None \<and> w' = w) \<and>
    mc_mem w' = mc_mem w \<and> mc_maps w' = mc_maps w \<and>
    (case r of None \<Rightarrow> mc_heap w' = mc_heap w
     | Some p \<Rightarrow> unat al dvd unat p \<and> p \<noteq> NULL \<and> mc_heap w' = mc_heap w @ [(p, sz)] \<and>
         (\<forall>(q, k) \<in> set (mc_maps w) \<union> set (mc_heap w). apart p (unat sz) q (unat k)) \<and>
         (0 \<notin> snd ` set (mc_heap w) \<longrightarrow> bc_allocators_aligned_free E w' p = w'\<lparr>mc_heap := mc_heap w\<rparr>))"
proof (cases "sz \<noteq> 0 \<and> pow2 al \<and> 8 \<le> unat al")
  case False
  have "bc_allocators_aligned_allocate E w sz al = (None, w)"
  proof (cases "sz = 0 \<or> al < 8")
    case b: False
    then have "al \<noteq> 0" by auto
    then have "al AND (al - 1) \<noteq> 0" using False b pow2_test [of al] by (simp add: word_less_nat_alt)
    then show ?thesis using b by (simp add: bc_allocators_aligned_allocate_def)
  qed (auto simp: bc_allocators_aligned_allocate_def)
  then show ?thesis using False by (simp only: prod.case if_not_P option.case simp_thms)
next
  case True
  then have "al \<noteq> 0" by auto
  then have c: "sz \<noteq> 0" "\<not> al < 8" "al AND (al - 1) = 0" using True pow2_test [of al] by (simp_all add: word_less_nat_alt)
  let ?r = "libc_posix_memalign E (mc_clock w) (mc_maps w) (mc_heap w) al sz"
  show ?thesis
  proof (cases ?r)
    case None
    then show ?thesis using True c by (simp add: bc_allocators_aligned_allocate_def)
  next
    case (Some p)
    define w' where "w' = w\<lparr>mc_heap := mc_heap w @ [(p, sz)], mc_clock := mc_clock w + 1\<rparr>"
    have run: "bc_allocators_aligned_allocate E w sz al = (Some p, w')"
      using c Some by (simp add: bc_allocators_aligned_allocate_def w'_def)
    note law = bc_os.posix_memalign [OF assms Some]
    then have nn: "p \<noteq> NULL" by auto
    have "bc_allocators_aligned_free E w' p = w'\<lparr>mc_heap := mc_heap w\<rparr>" if pos: "0 \<notin> snd ` set (mc_heap w)"
    proof -
      have "q \<noteq> p" if "(q, k) \<in> set (mc_heap w)" for q k
      proof -
        have "apart p (unat sz) q (unat k)" using law that by blast
        moreover have "0 < unat k" using pos that by (force simp: unat_gt_0)
        moreover have "0 < unat sz" using c(1) by (simp add: unat_gt_0)
        ultimately show ?thesis by (auto simp: apart_def)
      qed
      then have "p \<notin> fst ` set (mc_heap w)" by force
      then show ?thesis
        using bc_os.free [OF assms nn, of "mc_heap w" "[]" sz] by (simp add: bc_allocators_aligned_free_def w'_def)
    qed
    then show ?thesis using True Some law nn by (simp add: run) (simp add: w'_def)
  qed
qed

theorem aligned_allocate_correct_witness:
  "case bc_allocators_aligned_allocate std_env boot 100 8 of (r, w') \<Rightarrow>
     r = Some 65536 \<and> mc_heap (bc_allocators_aligned_free std_env w' 65536) = []"
proof -
  obtain r w' where run: "bc_allocators_aligned_allocate std_env boot 100 8 = (r, w')" by fastforce
  have "libc_posix_memalign std_env 0 [] [] 8 100 = Some 65536"
    by (simp add: std_env_def std_posix_memalign_def round_up_def)
  moreover have "pow2 (8 :: u64)" by (auto simp: pow2_def intro: exI [of _ 3])
  moreover have "mc_clock boot = 0" "mc_maps boot = []" "mc_heap boot = []" by (simp_all add: boot_def)
  ultimately show ?thesis
    using aligned_allocate_correct [OF std.bc_os_axioms, where w = boot and sz = 100 and al = 8] by (auto simp: run)
qed

end
