(* ===== verification/BC_Arena.thy ===== *)
theory BC_Arena
  imports BC_Context
begin

text \<open>
  \<^verbatim>\<open>src/arena/bc_allocators_arena.c\<close>, definition by definition. The arena header lies at the start of its
  first block and each chunk header at the start of its block (after the arena header in the first), so
  both are read from and written to the byte memory, at the offsets of the C structs. The context an
  arena belongs to (\<^verbatim>\<open>arena->ctx\<close>) is passed and returned with the machine. The loops that walk the chunk list are
  \<^verbatim>\<open>partial_function (option)\<close>: on a corrupted, cyclic list they would not return.
\<close>

section \<open>Layout\<close>

text \<open>The sizes of the two structs on LP64; the fields are read and written at their offsets, below.\<close>

definition sizeof_arena :: u64 where
  "sizeof_arena = 56"

definition sizeof_arena_chunk :: u64 where
  "sizeof_arena_chunk = 40"

definition ARENA_HEADER_ALIGNED :: u64 where
  "ARENA_HEADER_ALIGNED = (sizeof_arena + 63) AND NOT 63"

definition CHUNK_HEADER_ALIGNED :: u64 where
  "CHUNK_HEADER_ALIGNED = (sizeof_arena_chunk + 63) AND NOT 63"

definition HUGEPAGE_THRESHOLD :: u64 where
  "HUGEPAGE_THRESHOLD = 2 * 1024 * 1024"

abbreviation chunk_next :: "mem \<Rightarrow> u64 \<Rightarrow> u64" where
  "chunk_next m x \<equiv> load64 m x"

abbreviation chunk_mmap_size :: "mem \<Rightarrow> u64 \<Rightarrow> u64" where
  "chunk_mmap_size m x \<equiv> load64 m (x + 8)"

abbreviation chunk_capacity :: "mem \<Rightarrow> u64 \<Rightarrow> u64" where
  "chunk_capacity m x \<equiv> load64 m (x + 16)"

abbreviation chunk_used :: "mem \<Rightarrow> u64 \<Rightarrow> u64" where
  "chunk_used m x \<equiv> load64 m (x + 24)"

abbreviation chunk_memory_start :: "mem \<Rightarrow> u64 \<Rightarrow> u64" where
  "chunk_memory_start m x \<equiv> load64 m (x + 32)"

abbreviation arena_first_chunk :: "mem \<Rightarrow> u64 \<Rightarrow> u64" where
  "arena_first_chunk m a \<equiv> load64 m (a + 8)"

abbreviation arena_current_chunk :: "mem \<Rightarrow> u64 \<Rightarrow> u64" where
  "arena_current_chunk m a \<equiv> load64 m (a + 16)"

abbreviation arena_allocation_count :: "mem \<Rightarrow> u64 \<Rightarrow> u64" where
  "arena_allocation_count m a \<equiv> load64 m (a + 24)"

abbreviation arena_max_chunk_size :: "mem \<Rightarrow> u64 \<Rightarrow> u64" where
  "arena_max_chunk_size m a \<equiv> load64 m (a + 40)"

abbreviation arena_growable :: "mem \<Rightarrow> u64 \<Rightarrow> bool" where
  "arena_growable m a \<equiv> m (a + 48) \<noteq> 0"

definition init_chunk :: "mem \<Rightarrow> u64 \<Rightarrow> u64 \<Rightarrow> u64 \<Rightarrow> u64 \<Rightarrow> mem" where
  "init_chunk m chunk mmap_size capacity memory_start =
     (let m1 = store64 m chunk NULL;
          m2 = store64 m1 (chunk + 8) mmap_size;
          m3 = store64 m2 (chunk + 16) capacity;
          m4 = store64 m3 (chunk + 24) 0
      in store64 m4 (chunk + 32) memory_start)"

definition init_arena :: "mem \<Rightarrow> u64 \<Rightarrow> u64 \<Rightarrow> u64 \<Rightarrow> u64 \<Rightarrow> u64 \<Rightarrow> bool \<Rightarrow> mem" where
  "init_arena m arena ctx chunk initial_chunk_size max_chunk_size growable =
     (let m1 = store64 m arena ctx;
          m2 = store64 m1 (arena + 8) chunk;
          m3 = store64 m2 (arena + 16) chunk;
          m4 = store64 m3 (arena + 24) 0;
          m5 = store64 m4 (arena + 32) initial_chunk_size;
          m6 = store64 m5 (arena + 40) max_chunk_size
      in m6(arena + 48 := (if growable then 1 else 0)))"

section \<open>Blocks: the cache of released mappings\<close>

definition arena_map_block :: "env \<Rightarrow> machine \<Rightarrow> bc_context \<Rightarrow> u64 \<Rightarrow> u64 option \<times> machine \<times> bc_context" where
  "arena_map_block E w c mmap_size =
     (case find (\<lambda>i. ace_mmap_size (cx_arena_cache c ! i) = mmap_size)
             [0 ..< unat (cx_arena_cache_count c)] of
        Some cache_index \<Rightarrow>
          (Some (ace_block (cx_arena_cache c ! cache_index)), w,
           c\<lparr>cx_arena_cache := (cx_arena_cache c)
               [cache_index := cx_arena_cache c ! unat (cx_arena_cache_count c - 1)],
             cx_arena_cache_count := cx_arena_cache_count c - 1\<rparr>)
      | None \<Rightarrow>
          (case platform_map E w mmap_size of
             (None, w1) \<Rightarrow> (None, w1, c)
           | (Some block, w1) \<Rightarrow>
               (Some block,
                (if mmap_size \<ge> HUGEPAGE_THRESHOLD
                 then snd (platform_advise E w1 block mmap_size MADV_HUGEPAGE) else w1), c)))"

definition arena_release_block ::
  "env \<Rightarrow> machine \<Rightarrow> bc_context \<Rightarrow> u64 \<Rightarrow> u64 \<Rightarrow> machine \<times> bc_context" where
  "arena_release_block E w c block mmap_size =
     (if cx_arena_cache_count c < ARENA_CACHE_SIZE
      then (w, c\<lparr>cx_arena_cache := (cx_arena_cache c)[unat (cx_arena_cache_count c) :=
                    \<lparr>ace_block = block, ace_mmap_size = mmap_size\<rparr>],
                 cx_arena_cache_count := cx_arena_cache_count c + 1\<rparr>)
      else (snd (platform_unmap E w block mmap_size), c))"

text \<open>The statistics of the mapped bytes.\<close>

definition track_mapped :: "bc_context \<Rightarrow> u64 \<Rightarrow> bc_context" where
  "track_mapped c mmap_size =
     (if cx_tracking_enabled c then
        let total = cx_total_mapped_bytes c + mmap_size
        in c\<lparr>cx_arena_total_bytes := cx_arena_total_bytes c + mmap_size,
             cx_total_mapped_bytes := total,
             cx_peak_mapped_bytes :=
               (if total > cx_peak_mapped_bytes c then total else cx_peak_mapped_bytes c)\<rparr>
      else c)"

definition track_unmapped :: "bc_context \<Rightarrow> u64 \<Rightarrow> bc_context" where
  "track_unmapped c mmap_size =
     (if cx_tracking_enabled c
      then c\<lparr>cx_arena_total_bytes := cx_arena_total_bytes c - mmap_size,
             cx_total_mapped_bytes := cx_total_mapped_bytes c - mmap_size\<rparr>
      else c)"

section \<open>Creation\<close>

definition arena_make_first :: "env \<Rightarrow> machine \<Rightarrow> bc_context \<Rightarrow> u64 \<Rightarrow> u64 \<Rightarrow> u64 \<Rightarrow> bool
    \<Rightarrow> u64 option \<times> machine \<times> bc_context" where
  "arena_make_first E w c capacity initial_chunk_size max_chunk_size growable =
     (if capacity = 0 then (None, w, c)
      else
        let overhead = ARENA_HEADER_ALIGNED + CHUNK_HEADER_ALIGNED
        in case core_safe_add E overhead capacity of None \<Rightarrow> (None, w, c)
           | Some total_raw \<Rightarrow>
             (case core_align_up E total_raw (cx_page_size c) of None \<Rightarrow> (None, w, c)
              | Some mmap_size \<Rightarrow>
                (case arena_map_block E w c mmap_size of
                   (None, w1, c1) \<Rightarrow> (None, w1, c1)
                 | (Some block, w1, c1) \<Rightarrow>
                     let chunk = block + ARENA_HEADER_ALIGNED;
                         m1 = init_chunk (mc_mem w1) chunk mmap_size (mmap_size - overhead)
                                (block + overhead);
                         m2 = init_arena m1 block (cx_self c1) chunk initial_chunk_size max_chunk_size
                                growable;
                         c2 = (if cx_tracking_enabled c1
                               then c1\<lparr>cx_arena_create_count := cx_arena_create_count c1 + 1\<rparr> else c1)
                     in (Some block, w1\<lparr>mc_mem := m2\<rparr>, track_mapped c2 mmap_size))))"

definition bc_allocators_arena_create ::
  "env \<Rightarrow> machine \<Rightarrow> bc_context \<Rightarrow> u64 \<Rightarrow> u64 option \<times> machine \<times> bc_context" where
  "bc_allocators_arena_create E w c capacity = arena_make_first E w c capacity capacity capacity False"

definition bc_allocators_arena_create_growable ::
  "env \<Rightarrow> machine \<Rightarrow> bc_context \<Rightarrow> u64 \<Rightarrow> u64 \<Rightarrow> u64 option \<times> machine \<times> bc_context" where
  "bc_allocators_arena_create_growable E w c initial_chunk_size max_chunk_size =
     (if initial_chunk_size = 0 then (None, w, c)
      else if max_chunk_size \<noteq> 0 \<and> max_chunk_size < initial_chunk_size then (None, w, c)
      else arena_make_first E w c initial_chunk_size initial_chunk_size max_chunk_size True)"

section \<open>Growth and allocation\<close>

definition grow_target :: "u64 \<Rightarrow> u64 \<Rightarrow> u64 \<Rightarrow> u64" where
  "grow_target last_capacity max_chunk_size min_capacity =
     (let t0 = last_capacity * 2;
          t1 = (if t0 < min_capacity then min_capacity else t0);
          t2 = (if max_chunk_size \<noteq> 0 \<and> t1 > max_chunk_size then max_chunk_size else t1)
      in if t2 < min_capacity then min_capacity else t2)"

definition arena_grow :: "env \<Rightarrow> machine \<Rightarrow> bc_context \<Rightarrow> u64 \<Rightarrow> u64 \<Rightarrow> bool \<times> machine \<times> bc_context" where
  "arena_grow E w c arena min_capacity =
     (let m = mc_mem w;
          last_capacity = chunk_capacity m (arena_current_chunk m arena);
          target_capacity = grow_target last_capacity (arena_max_chunk_size m arena) min_capacity;
          overhead = CHUNK_HEADER_ALIGNED
      in case core_safe_add E overhead target_capacity of None \<Rightarrow> (False, w, c)
         | Some total_raw \<Rightarrow>
           (case core_align_up E total_raw (cx_page_size c) of None \<Rightarrow> (False, w, c)
            | Some mmap_size \<Rightarrow>
              (case arena_map_block E w c mmap_size of
                 (None, w1, c1) \<Rightarrow> (False, w1, c1)
               | (Some block, w1, c1) \<Rightarrow>
                   let chunk = block;
                       m1 = init_chunk (mc_mem w1) chunk mmap_size (mmap_size - overhead) (block + overhead);
                       m2 = store64 m1 (arena_current_chunk m1 arena) chunk;
                       m3 = store64 m2 (arena + 16) chunk
                   in (True, w1\<lparr>mc_mem := m3\<rparr>, track_mapped c1 mmap_size))))"

definition arena_try_alloc_in_chunk :: "env \<Rightarrow> mem \<Rightarrow> u64 \<Rightarrow> u64 \<Rightarrow> u64 \<Rightarrow> u64 option \<times> mem" where
  "arena_try_alloc_in_chunk E m chunk sz alignment =
     (let base_address = chunk_memory_start m chunk;
          current_address = base_address + chunk_used m chunk
      in case core_align_up E current_address alignment of None \<Rightarrow> (None, m)
         | Some aligned_address_raw \<Rightarrow>
           (let aligned_offset = aligned_address_raw - base_address
            in case core_safe_add E aligned_offset sz of None \<Rightarrow> (None, m)
               | Some end_offset \<Rightarrow>
                 (if end_offset > chunk_capacity m chunk then (None, m)
                  else (Some (base_address + aligned_offset), store64 m (chunk + 24) end_offset))))"

definition count_allocation :: "mem \<Rightarrow> u64 \<Rightarrow> mem" where
  "count_allocation m arena = store64 m (arena + 24) (arena_allocation_count m arena + 1)"

definition bc_allocators_arena_allocate ::
  "env \<Rightarrow> machine \<Rightarrow> bc_context \<Rightarrow> u64 \<Rightarrow> u64 \<Rightarrow> u64 \<Rightarrow> u64 option \<times> machine \<times> bc_context" where
  "bc_allocators_arena_allocate E w c arena sz alignment =
     (if sz = 0 \<or> alignment = 0 then (None, w, c)
      else if alignment AND (alignment - 1) \<noteq> 0 then (None, w, c)
      else
        case arena_try_alloc_in_chunk E (mc_mem w) (arena_current_chunk (mc_mem w) arena) sz alignment of
          (Some p, m1) \<Rightarrow> (Some p, w\<lparr>mc_mem := count_allocation m1 arena\<rparr>, c)
        | (None, m1) \<Rightarrow>
            if \<not> arena_growable m1 arena then (None, w\<lparr>mc_mem := m1\<rparr>, c)
            else
              (case arena_grow E (w\<lparr>mc_mem := m1\<rparr>) c arena (sz + alignment) of
                 (False, w2, c2) \<Rightarrow> (None, w2, c2)
               | (True, w2, c2) \<Rightarrow>
                   (case arena_try_alloc_in_chunk E (mc_mem w2)
                           (arena_current_chunk (mc_mem w2) arena) sz alignment of
                      (None, m3) \<Rightarrow> (None, w2\<lparr>mc_mem := m3\<rparr>, c2)
                    | (Some p, m3) \<Rightarrow> (Some p, w2\<lparr>mc_mem := count_allocation m3 arena\<rparr>, c2))))"

definition bc_allocators_arena_copy_string ::
  "env \<Rightarrow> machine \<Rightarrow> bc_context \<Rightarrow> u64 \<Rightarrow> u64 \<Rightarrow> u64 option \<times> machine \<times> bc_context" where
  "bc_allocators_arena_copy_string E w c arena source =
     (let len = core_length E (mc_mem w) source 0;
          alloc_size = len + 1
      in case bc_allocators_arena_allocate E w c arena alloc_size 1 of
           (None, w1, c1) \<Rightarrow> (None, w1, c1)
         | (Some ptr, w1, c1) \<Rightarrow>
             (Some ptr, w1\<lparr>mc_mem := core_copy E (mc_mem w1) ptr source alloc_size\<rparr>, c1))"

section \<open>Walking the chunk list\<close>

text \<open>The loop shared by \<^verbatim>\<open>destroy\<close> and \<^verbatim>\<open>reset\<close>.\<close>

partial_function (option) release_chunks ::
  "env \<Rightarrow> u64 \<Rightarrow> machine \<Rightarrow> bc_context \<Rightarrow> (machine \<times> bc_context) option" where
  "release_chunks E chunk w c =
     (if chunk = NULL then Some (w, c)
      else
        let next = chunk_next (mc_mem w) chunk;
            mmap_size = chunk_mmap_size (mc_mem w) chunk;
            c1 = track_unmapped c mmap_size;
            s = arena_release_block E w c1 chunk mmap_size
        in release_chunks E next (fst s) (snd s))"

definition bc_allocators_arena_destroy :: "env \<Rightarrow> machine \<Rightarrow> bc_context \<Rightarrow> u64 \<Rightarrow> (machine \<times> bc_context) option" where
  "bc_allocators_arena_destroy E w c arena =
     (case release_chunks E (chunk_next (mc_mem w) (arena_first_chunk (mc_mem w) arena)) w c of
        None \<Rightarrow> None
      | Some (w1, c1) \<Rightarrow>
          let first_mmap_size = chunk_mmap_size (mc_mem w1) (arena_first_chunk (mc_mem w1) arena);
              c2 = (if cx_tracking_enabled c1
                    then c1\<lparr>cx_arena_destroy_count := cx_arena_destroy_count c1 + 1\<rparr> else c1)
          in Some (arena_release_block E w1 (track_unmapped c2 first_mmap_size) arena first_mmap_size))"

definition bc_allocators_arena_reset :: "env \<Rightarrow> machine \<Rightarrow> bc_context \<Rightarrow> u64 \<Rightarrow> (machine \<times> bc_context) option" where
  "bc_allocators_arena_reset E w c arena =
     (case release_chunks E (chunk_next (mc_mem w) (arena_first_chunk (mc_mem w) arena)) w c of
        None \<Rightarrow> None
      | Some (w1, c1) \<Rightarrow>
          let m1 = store64 (mc_mem w1) (arena_first_chunk (mc_mem w1) arena) NULL;
              m2 = store64 m1 (arena_first_chunk m1 arena + 24) 0;
              m3 = store64 m2 (arena + 16) (arena_first_chunk m2 arena);
              m4 = store64 m3 (arena + 24) 0
          in Some (w1\<lparr>mc_mem := m4\<rparr>, c1))"

partial_function (option) secure_chunks :: "env \<Rightarrow> u64 \<Rightarrow> machine \<Rightarrow> machine option" where
  "secure_chunks E chunk w =
     (if chunk = NULL then Some w
      else
        let w1 = w\<lparr>mc_mem := core_zero_secure E (mc_mem w) (chunk_memory_start (mc_mem w) chunk)
                              (chunk_used (mc_mem w) chunk)\<rparr>;
            w2 = snd (platform_advise E w1 (chunk_memory_start (mc_mem w1) chunk)
                        (chunk_capacity (mc_mem w1) chunk) MADV_DONTNEED)
        in secure_chunks E (chunk_next (mc_mem w2) chunk) w2)"

definition bc_allocators_arena_reset_secure ::
  "env \<Rightarrow> machine \<Rightarrow> bc_context \<Rightarrow> u64 \<Rightarrow> (machine \<times> bc_context) option" where
  "bc_allocators_arena_reset_secure E w c arena =
     (case secure_chunks E (arena_first_chunk (mc_mem w) arena) w of
        None \<Rightarrow> None
      | Some w1 \<Rightarrow> bc_allocators_arena_reset E w1 c arena)"

partial_function (option) advise_chunks :: "env \<Rightarrow> u64 \<Rightarrow> machine \<Rightarrow> machine option" where
  "advise_chunks E chunk w =
     (if chunk = NULL then Some w
      else
        let w1 = snd (platform_advise E w (chunk_memory_start (mc_mem w) chunk)
                        (chunk_capacity (mc_mem w) chunk) MADV_DONTNEED)
        in advise_chunks E (chunk_next (mc_mem w1) chunk) w1)"

definition bc_allocators_arena_release_pages :: "env \<Rightarrow> machine \<Rightarrow> u64 \<Rightarrow> (bool \<times> machine) option" where
  "bc_allocators_arena_release_pages E w arena =
     map_option (\<lambda>w1. (True, w1)) (advise_chunks E (arena_first_chunk (mc_mem w) arena) w)"

record arena_stats =
  as_capacity :: u64
  as_used :: u64
  as_allocation_count :: u64
  as_chunk_count :: u64
  as_total_reserved :: u64

partial_function (option) sum_chunks ::
  "mem \<Rightarrow> u64 \<Rightarrow> u64 \<times> u64 \<times> u64 \<times> u64 \<Rightarrow> (u64 \<times> u64 \<times> u64 \<times> u64) option" where
  "sum_chunks m chunk t =
     (if chunk = NULL then Some t
      else case t of (chunk_count, total_capacity, total_used, total_reserved) \<Rightarrow>
        sum_chunks m (chunk_next m chunk)
          (chunk_count + 1, total_capacity + chunk_capacity m chunk, total_used + chunk_used m chunk,
           total_reserved + chunk_mmap_size m chunk))"

definition bc_allocators_arena_get_stats :: "mem \<Rightarrow> u64 \<Rightarrow> (bool \<times> arena_stats) option" where
  "bc_allocators_arena_get_stats m arena =
     (case sum_chunks m (arena_first_chunk m arena) (0, 0, 0, 0) of
        None \<Rightarrow> None
      | Some (chunk_count, total_capacity, total_used, total_reserved) \<Rightarrow>
          Some (True, \<lparr>as_capacity = total_capacity, as_used = total_used,
            as_allocation_count = arena_allocation_count m arena, as_chunk_count = chunk_count,
            as_total_reserved = total_reserved\<rparr>))"

end
