(* ===== verification/BC_Blocks.thy ===== *)
theory BC_Blocks
  imports BC_Arena BC_Context_Spec
begin

text \<open>
  Who owns which mapping. \<open>world E w c bs\<close> says that the live mappings of the machine are pairwise apart and
  include the mappings of the context \<open>c\<close> (its arena cache among them) and, besides, the blocks \<open>bs\<close> of the
  arenas at hand; \<open>other_mappings\<close> is what remains. Taking a block from the cache or from the system, and releasing
  one to the cache or to the system, keep both: no mapping is lost, freed twice or taken from somebody else.
\<close>

definition other_mappings :: "machine \<Rightarrow> bc_context \<Rightarrow> maps \<Rightarrow> (u64 \<times> u64) multiset" where
  "other_mappings w c bs = mset (mc_maps w) - (mset (ctx_mappings c) + mset bs)"

definition world :: "env \<Rightarrow> machine \<Rightarrow> bc_context \<Rightarrow> maps \<Rightarrow> bool" where
  "world E w c bs \<longleftrightarrow>
     maps_ok E (mc_maps w) \<and> length (cx_arena_cache c) = 4 \<and> unat (cx_arena_cache_count c) \<le> 4 \<and>
     mset (ctx_mappings c) + mset bs \<subseteq># mset (mc_maps w) \<and>
     platform_get_page_size E = Some (cx_page_size c)"

definition cache_pair :: "arena_cache_entry \<Rightarrow> u64 \<times> u64" where
  "cache_pair e = (ace_block e, ace_mmap_size e)"

definition fixed_mappings :: "bc_context \<Rightarrow> maps" where
  "fixed_mappings c =
     [(rg_page_class (cx_region c), rg_page_class_size (cx_region c)),
      (rg_base (cx_region c), rg_total_size (cx_region c)), (cx_self c, cx_context_mmap_size c)]"

lemma ctx_mappings_alt:
  assumes "unat (cx_arena_cache_count c) \<le> length (cx_arena_cache c)"
  shows "ctx_mappings c =
    map cache_pair (take (unat (cx_arena_cache_count c)) (cx_arena_cache c)) @ fixed_mappings c"
proof -
  have "map (\<lambda>i. (ace_block (cx_arena_cache c ! i), ace_mmap_size (cx_arena_cache c ! i)))
      [0 ..< unat (cx_arena_cache_count c)] =
    map cache_pair (take (unat (cx_arena_cache_count c)) (cx_arena_cache c))"
    using assms by (intro nth_equalityI) (simp_all add: cache_pair_def)
  then show ?thesis by (simp add: ctx_mappings_def fixed_mappings_def)
qed

section \<open>Sub-collections of pairwise apart mappings\<close>

lemma maps_apart_remove1_apart:
  "maps_apart ms \<Longrightarrow> (p, n) \<in> set ms \<Longrightarrow> (q, k) \<in> set (remove1 (p, n) ms) \<Longrightarrow> apart p (unat n) q (unat k)"
proof (induction ms rule: maps_apart.induct)
  case (2 p' n' ms)
  show ?case
  proof (cases "(p', n') = (p, n)")
    case True
    then show ?thesis using "2.prems" by auto
  next
    case False
    then have "(p, n) \<in> set ms" using "2.prems" by auto
    moreover from this have "apart p' (unat n') p (unat n)" using "2.prems"(1) by auto
    then have "apart p (unat n) p' (unat n')" using apart_sym by blast
    ultimately show ?thesis using "2.IH" "2.prems" False by auto
  qed
qed simp

lemma maps_apart_subset:
  "maps_apart ms \<Longrightarrow> mset es \<subseteq># mset ms \<Longrightarrow> maps_apart es"
proof (induction es arbitrary: ms)
  case (Cons e es)
  obtain p n where e: "e = (p, n)" by fastforce
  have mem: "(p, n) \<in> set ms" and sub: "mset es \<subseteq># mset (remove1 (p, n) ms)"
    using Cons.prems(2) e by (auto dest: mset_subset_eqD simp: insert_subset_eq_iff)
  have "maps_apart es" by (rule Cons.IH [OF maps_apart_remove1 [OF Cons.prems(1)] sub])
  moreover have "apart p (unat n) q (unat k)" if "(q, k) \<in> set es" for q k
  proof (rule maps_apart_remove1_apart [OF Cons.prems(1) mem])
    show "(q, k) \<in> set (remove1 (p, n) ms)"
      by (rule subsetD [OF set_mset_mono [OF sub, unfolded set_mset_mset] that])
  qed
  ultimately show ?case by (auto simp: e)
qed simp

lemma maps_ok_subset: "maps_ok E ms \<Longrightarrow> mset es \<subseteq># mset ms \<Longrightarrow> maps_ok E es"
  using maps_apart_subset [of ms es] set_mset_mono [of "mset es" "mset ms"] by (auto simp: maps_ok_def)

lemma maps_ok_mset: "maps_ok E ms \<Longrightarrow> mset ms' = mset ms \<Longrightarrow> maps_ok E ms'"
  by (erule maps_ok_subset) simp

lemma world_blocks:
  assumes "world E w c bs"
  shows "maps_ok E bs" "maps_ok E (bs @ ctx_mappings c)"
proof -
  have s: "mset (bs @ ctx_mappings c) \<subseteq># mset (mc_maps w)" and ok: "maps_ok E (mc_maps w)"
    using assms by (auto simp: world_def add.commute)
  show "maps_ok E (bs @ ctx_mappings c)" by (rule maps_ok_subset [OF ok s])
  then show "maps_ok E bs" by (rule maps_ok_subset) simp
qed

lemma mapped_bytes_subset: "mset es \<subseteq># mset ms \<Longrightarrow> mapped_bytes es \<subseteq> mapped_bytes ms"
  using set_mset_mono [of "mset es" "mset ms"] by (auto simp: mapped_bytes_def)

lemma mapped_bytes_mset: "mset ms' = mset ms \<Longrightarrow> mapped_bytes ms' = mapped_bytes ms"
  unfolding mapped_bytes_def using mset_eq_setD by blast

lemma mapped_bytes_append [simp]: "mapped_bytes (xs @ ys) = mapped_bytes xs \<union> mapped_bytes ys"
  by (auto simp: mapped_bytes_def)

lemma mapped_bytes_Cons [simp]: "mapped_bytes ((p, n) # ms) = area p (unat n) \<union> mapped_bytes ms"
  by (auto simp: mapped_bytes_def)

lemma maps_apart_Cons_disjoint:
  "maps_apart ((p, n) # ms) \<Longrightarrow> area p (unat n) \<inter> mapped_bytes ms = {}"
  using apart_disjoint by (fastforce simp: mapped_bytes_def simp del: in_area)

section \<open>The tracking updates do not move mappings\<close>

lemma track_mapped_sel [simp]:
  "cx_arena_cache (track_mapped c n) = cx_arena_cache c"
  "cx_arena_cache_count (track_mapped c n) = cx_arena_cache_count c"
  "cx_region (track_mapped c n) = cx_region c" "cx_self (track_mapped c n) = cx_self c"
  "cx_context_mmap_size (track_mapped c n) = cx_context_mmap_size c"
  "cx_page_size (track_mapped c n) = cx_page_size c"
  "cx_tracking_enabled (track_mapped c n) = cx_tracking_enabled c"
  "cx_arena_create_count (track_mapped c n) = cx_arena_create_count c"
  "cx_arena_destroy_count (track_mapped c n) = cx_arena_destroy_count c"
  "pool_view (track_mapped c n) = pool_view c" "stat_view (track_mapped c n) = stat_view c"
  by (simp_all add: track_mapped_def Let_def pool_view_def stat_view_def)

lemma track_unmapped_sel [simp]:
  "cx_arena_cache (track_unmapped c n) = cx_arena_cache c"
  "cx_arena_cache_count (track_unmapped c n) = cx_arena_cache_count c"
  "cx_region (track_unmapped c n) = cx_region c" "cx_self (track_unmapped c n) = cx_self c"
  "cx_context_mmap_size (track_unmapped c n) = cx_context_mmap_size c"
  "cx_page_size (track_unmapped c n) = cx_page_size c"
  "cx_tracking_enabled (track_unmapped c n) = cx_tracking_enabled c"
  "cx_arena_create_count (track_unmapped c n) = cx_arena_create_count c"
  "cx_arena_destroy_count (track_unmapped c n) = cx_arena_destroy_count c"
  "pool_view (track_unmapped c n) = pool_view c" "stat_view (track_unmapped c n) = stat_view c"
  by (simp_all add: track_unmapped_def pool_view_def stat_view_def)

lemma ctx_mappings_track [simp]:
  "ctx_mappings (track_mapped c n) = ctx_mappings c"
  "ctx_mappings (track_unmapped c n) = ctx_mappings c"
  by (simp_all add: ctx_mappings_def)

lemma world_track [simp]:
  "world E w (track_mapped c n) bs = world E w c bs"
  "world E w (track_unmapped c n) bs = world E w c bs"
  "other_mappings w (track_mapped c n) bs = other_mappings w c bs"
  "other_mappings w (track_unmapped c n) bs = other_mappings w c bs"
  by (simp_all add: world_def other_mappings_def)

lemma world_mem [simp]:
  "world E (w\<lparr>mc_mem := m\<rparr>) c bs = world E w c bs"
  "other_mappings (w\<lparr>mc_mem := m\<rparr>) c bs = other_mappings w c bs"
  by (simp_all add: world_def other_mappings_def)

section \<open>Taking and releasing a block\<close>

text \<open>Removing entry \<open>i\<close> by moving the last one into its place.\<close>

lemma mset_swap_remove:
  assumes "k \<le> length xs" "i < k"
  shows "mset (take (k - 1) (xs[i := xs ! (k - 1)])) = mset (take k xs) - {#xs ! i#}"
proof -
  define ys where "ys = (take k xs)[i := xs ! (k - 1)]"
  have len: "length ys = k" using assms by (simp add: ys_def)
  then have ne: "ys \<noteq> []" using assms(2) by auto
  have tk: "take (k - 1) (xs[i := xs ! (k - 1)]) = butlast ys"
    using assms by (simp add: ys_def butlast_conv_take take_update_swap min_def)
  have "last ys = ys ! (k - 1)" using ne len by (simp add: last_conv_nth)
  also have "\<dots> = xs ! (k - 1)" using assms by (cases "i = k - 1") (auto simp: ys_def)
  finally have la: "last ys = xs ! (k - 1)" .
  have "mset ys = add_mset (xs ! (k - 1)) (mset (take k xs) - {#xs ! i#})"
    using assms by (simp add: ys_def mset_update)
  moreover have "mset ys = add_mset (last ys) (mset (butlast ys))"
    using ne by (metis append_butlast_last_id mset_append mset.simps add_mset_add_single union_commute)
  ultimately show ?thesis using la tk by simp
qed

lemma find_upt_Some:
  "find P [0 ..< k] = Some i \<Longrightarrow> i < k \<and> P i"
  by (auto simp: find_Some_iff)

lemma world_cache_hit:
  assumes W: "world E w c bs" and i: "i < unat (cx_arena_cache_count c)"
    and e: "cx_arena_cache c ! i = \<lparr>ace_block = p, ace_mmap_size = n\<rparr>"
    and c': "c' = c\<lparr>cx_arena_cache := (cx_arena_cache c)[i := cx_arena_cache c ! unat (cx_arena_cache_count c - 1)],
      cx_arena_cache_count := cx_arena_cache_count c - 1\<rparr>"
  shows "world E w c' ((p, n) # bs)" "other_mappings w c' ((p, n) # bs) = other_mappings w c bs"
proof -
  define k where "k = unat (cx_arena_cache_count c)"
  have k: "k \<le> 4" "length (cx_arena_cache c) = 4" "i < k" using W i by (auto simp: world_def k_def)
  have k1: "unat (cx_arena_cache_count c - 1) = k - 1"
    using i by (simp add: k_def no_wrap)
  have m: "mset (take (k - 1) ((cx_arena_cache c)[i := cx_arena_cache c ! (k - 1)]))
      = mset (take k (cx_arena_cache c)) - {#cx_arena_cache c ! i#}"
    using k by (intro mset_swap_remove) auto
  have "cx_arena_cache c ! i \<in># mset (take k (cx_arena_cache c))"
    using k by (auto simp: in_set_conv_nth)
  then have "mset (take k (cx_arena_cache c)) = add_mset (cx_arena_cache c ! i)
      (mset (take (k - 1) ((cx_arena_cache c)[i := cx_arena_cache c ! (k - 1)])))"
    unfolding m by (rule insert_DiffM [symmetric])
  then have m2: "mset (map cache_pair (take k (cx_arena_cache c))) =
      add_mset (p, n) (mset (map cache_pair (take (k - 1) ((cx_arena_cache c)[i := cx_arena_cache c ! (k - 1)]))))"
    unfolding mset_map e by (simp only: image_mset_add_mset) (simp add: cache_pair_def)
  have "mset (ctx_mappings c) = add_mset (p, n) (mset (ctx_mappings c'))"
    using k k1 m2 by (simp add: ctx_mappings_alt c' k_def fixed_mappings_def)
  then show "world E w c' ((p, n) # bs)" "other_mappings w c' ((p, n) # bs) = other_mappings w c bs"
    using W k k1 by (simp_all add: world_def other_mappings_def c')
qed

text \<open>What \<^verbatim>\<open>arena_map_block\<close> leaves: a block apart from all others, or nothing changed.\<close>

definition block_mapped :: "env \<Rightarrow> machine \<Rightarrow> bc_context \<Rightarrow> u64 \<Rightarrow> maps \<Rightarrow> u64 option \<Rightarrow> machine \<Rightarrow> bc_context \<Rightarrow> bool" where
  "block_mapped E w c n bs r w' c' \<longleftrightarrow>
     (case r of
        None \<Rightarrow> c' = c \<and> mc_mem w' = mc_mem w \<and> mc_maps w' = mc_maps w
      | Some p \<Rightarrow> world E w' c' ((p, n) # bs)
          \<and> other_mappings w' c' ((p, n) # bs) = other_mappings w c bs
          \<and> agree (mc_mem w) (mc_mem w') (mapped_bytes (mc_maps w)))
     \<and> pool_view c' = pool_view c \<and> stat_view c' = stat_view c \<and> cx_self c' = cx_self c
     \<and> cx_page_size c' = cx_page_size c \<and> cx_tracking_enabled c' = cx_tracking_enabled c
     \<and> mc_leaks w' = mc_leaks w \<and> fixed_mappings c' = fixed_mappings c"

context bc_os
begin

lemma world_fresh_map:
  assumes W: "world E w c bs" and run: "platform_map E w n = (Some p, w')"
  shows "world E w' c ((p, n) # bs)" "other_mappings w' c ((p, n) # bs) = other_mappings w c bs"
    "agree (mc_mem w) (mc_mem w') (mapped_bytes (mc_maps w))"
proof -
  note m = platform_map_Some [OF run]
  have maps: "mset (mc_maps w') = add_mset (p, n) (mset (mc_maps w))" using m(5) by simp
  have "maps_ok E (mc_maps w')" using platform_map_maps_ok [OF run] W by (simp add: world_def)
  then show "world E w' c ((p, n) # bs)" "other_mappings w' c ((p, n) # bs) = other_mappings w c bs"
    using W maps by (simp_all add: world_def other_mappings_def)
  show "agree (mc_mem w) (mc_mem w') (mapped_bytes (mc_maps w))"
    using fill_fresh_agree [OF m(4,2)] m(5) by simp
qed

text \<open>A block of the cache, and a fresh mapping.\<close>

lemma block_from_cache:
  assumes W: "world E w c bs" and i: "i < unat (cx_arena_cache_count c)" "ace_mmap_size (cx_arena_cache c ! i) = n"
  shows "block_mapped E w c n bs (Some (ace_block (cx_arena_cache c ! i))) w (c\<lparr>cx_arena_cache := (cx_arena_cache c)
    [i := cx_arena_cache c ! unat (cx_arena_cache_count c - 1)], cx_arena_cache_count := cx_arena_cache_count c - 1\<rparr>)"
proof -
  define p where "p = ace_block (cx_arena_cache c ! i)"
  have "cx_arena_cache c ! i = \<lparr>ace_block = p, ace_mmap_size = n\<rparr>" using i(2) by (simp add: p_def)
  note h = world_cache_hit [OF W i(1) this refl]
  show ?thesis using h unfolding block_mapped_def
    by (simp add: p_def pool_view_def stat_view_def fixed_mappings_def)
qed

lemma block_from_system:
  assumes W: "world E w c bs" and pm: "platform_map E w n = (Some p, w1)"
  defines "w2 \<equiv> if n \<ge> HUGEPAGE_THRESHOLD then snd (platform_advise E w1 p n MADV_HUGEPAGE) else w1"
  shows "block_mapped E w c n bs (Some p) w2 c"
proof -
  have w2: "mc_mem w2 = mc_mem w1" "mc_maps w2 = mc_maps w1" "mc_leaks w2 = mc_leaks w1"
    using platform_advise_hugepage [of w1 p n] by (simp_all add: w2_def)
  have "mc_leaks w1 = mc_leaks w" using platform_map_Some(5) [of w n p w1] pm by simp
  then show ?thesis using world_fresh_map [OF W pm] w2 by (simp add: block_mapped_def world_def other_mappings_def)
qed

lemma map_block_result:
  assumes W: "world E w c bs" and run: "arena_map_block E w c n = (r, w', c')"
  shows "block_mapped E w c n bs r w' c'"
proof (cases "find (\<lambda>i. ace_mmap_size (cx_arena_cache c ! i) = n) [0 ..< unat (cx_arena_cache_count c)]")
  case (Some i)
  then have i: "i < unat (cx_arena_cache_count c)" "ace_mmap_size (cx_arena_cache c ! i) = n"
    using find_upt_Some by blast+
  show ?thesis using block_from_cache [OF W i] run Some unfolding arena_map_block_def by (simp add: Let_def)
next
  case None
  obtain r1 w1 where pm: "platform_map E w n = (r1, w1)" by fastforce
  show ?thesis
  proof (cases r1)
    case rN: None
    then have "r = None" "w' = w1" "c' = c" using run None pm unfolding arena_map_block_def by simp_all
    then show ?thesis using platform_map_None [of E w n w1] pm rN by (simp add: block_mapped_def)
  next
    case (Some p)
    then show ?thesis using block_from_system [OF W pm [unfolded Some]] run None pm
      unfolding arena_map_block_def by (auto simp: Let_def)
  qed
qed

lemma map_block_ok:
  assumes W: "world E w c bs" and run: "arena_map_block E w c n = (r, w', c')"
  shows "r = None \<Longrightarrow> c' = c \<and> mc_mem w' = mc_mem w \<and> mc_maps w' = mc_maps w"
    and "r = Some p \<Longrightarrow> world E w' c' ((p, n) # bs)
      \<and> other_mappings w' c' ((p, n) # bs) = other_mappings w c bs
      \<and> agree (mc_mem w) (mc_mem w') (mapped_bytes (mc_maps w))"
    and "pool_view c' = pool_view c" "stat_view c' = stat_view c" "cx_self c' = cx_self c"
    and "cx_page_size c' = cx_page_size c" "cx_tracking_enabled c' = cx_tracking_enabled c"
    and "mc_leaks w' = mc_leaks w" "fixed_mappings c' = fixed_mappings c"
  using map_block_result [OF W run] by (simp_all add: block_mapped_def)

lemma release_block_ok:
  assumes W: "world E w c ((p, n) # bs)" and run: "arena_release_block E w c p n = (w', c')"
  shows "world E w' c' bs" "other_mappings w' c' bs = other_mappings w c ((p, n) # bs)"
    "mc_mem w' = mc_mem w" "pool_view c' = pool_view c" "stat_view c' = stat_view c"
    "cx_page_size c' = cx_page_size c" "cx_tracking_enabled c' = cx_tracking_enabled c"
    "mc_leaks w' = mc_leaks w" "fixed_mappings c' = fixed_mappings c"
proof -
  have "world E w' c' bs \<and> other_mappings w' c' bs = other_mappings w c ((p, n) # bs) \<and>
    mc_mem w' = mc_mem w \<and> pool_view c' = pool_view c \<and> stat_view c' = stat_view c \<and>
    cx_page_size c' = cx_page_size c \<and> cx_tracking_enabled c' = cx_tracking_enabled c \<and>
    mc_leaks w' = mc_leaks w \<and> fixed_mappings c' = fixed_mappings c"
  proof (cases "cx_arena_cache_count c < ARENA_CACHE_SIZE")
    case True
    define k where "k = unat (cx_arena_cache_count c)"
    have k: "k < 4" "length (cx_arena_cache c) = 4"
      using True W by (auto simp: k_def ARENA_CACHE_SIZE_def word_less_nat_alt world_def)
    have k1: "unat (cx_arena_cache_count c + 1) = Suc k" using k by (simp add: k_def no_wrap)
    have res: "w' = w" "c' = c\<lparr>cx_arena_cache := (cx_arena_cache c)[k := \<lparr>ace_block = p, ace_mmap_size = n\<rparr>],
        cx_arena_cache_count := cx_arena_cache_count c + 1\<rparr>"
      using run True by (simp_all add: arena_release_block_def k_def)
    have "mset (ctx_mappings c') = add_mset (p, n) (mset (ctx_mappings c))"
      using k k1 by (simp add: ctx_mappings_alt res(2) k_def [symmetric] take_Suc_conv_app_nth
          fixed_mappings_def cache_pair_def)
    then show ?thesis using W k k1 res
      by (simp add: world_def other_mappings_def pool_view_def stat_view_def fixed_mappings_def)
  next
    case False
    have mem: "(p, n) \<in> set (mc_maps w)" using W by (auto simp: world_def dest!: mset_subset_eqD)
    have res: "w' = w\<lparr>mc_maps := remove1 (p, n) (mc_maps w), mc_clock := mc_clock w + 1\<rparr>" "c' = c"
      using run False platform_unmap_mapped [OF mem] by (simp_all add: arena_release_block_def)
    have "maps_ok E (remove1 (p, n) (mc_maps w))"
      using W by (auto simp: world_def intro: maps_ok_subset)
    moreover have "mset (ctx_mappings c) + mset bs \<subseteq># mset (remove1 (p, n) (mc_maps w))"
      using W by (simp add: world_def insert_subset_eq_iff)
    ultimately show ?thesis using W res by (simp add: world_def other_mappings_def)
  qed
  then show "world E w' c' bs" "other_mappings w' c' bs = other_mappings w c ((p, n) # bs)"
    "mc_mem w' = mc_mem w" "pool_view c' = pool_view c" "stat_view c' = stat_view c"
    "cx_page_size c' = cx_page_size c" "cx_tracking_enabled c' = cx_tracking_enabled c"
    "mc_leaks w' = mc_leaks w" "fixed_mappings c' = fixed_mappings c" by blast+
qed

end

end
