(* ===== verification/BC_Arena_Inv.thy ===== *)
theory BC_Arena_Inv
  imports BC_Blocks
begin

text \<open>
  The invariant of an arena. Its blocks are \<open>(a, n0)\<close>, which starts with the arena header, and \<open>rs\<close>, the chunks
  added by growth, in list order. \<open>arena_rep\<close> says that the headers in memory describe exactly these
  blocks; \<open>arena_inv\<close> adds the ownership of the mappings. \<open>arena_live\<close> is the set of bytes handed out so far.
\<close>

section \<open>The headers\<close>

lemma header_sizes: "ARENA_HEADER_ALIGNED = 64" "CHUNK_HEADER_ALIGNED = 64"
  by (simp_all add: ARENA_HEADER_ALIGNED_def CHUNK_HEADER_ALIGNED_def sizeof_arena_def sizeof_arena_chunk_def)

text \<open>The headers written at creation and growth.\<close>

lemma init_chunk_fields:
  assumes "unat x + 40 \<le> 18446744073709551616"
  shows "chunk_next (init_chunk m x n cap st) x = NULL" "chunk_mmap_size (init_chunk m x n cap st) x = n"
    "chunk_capacity (init_chunk m x n cap st) x = cap" "chunk_used (init_chunk m x n cap st) x = 0"
    "chunk_memory_start (init_chunk m x n cap st) x = st"
    "agree m (init_chunk m x n cap st) (- area x 40)"
proof -
  have h: "unat x + 40 \<le> 18446744073709551616" by (rule assms)
  show "chunk_next (init_chunk m x n cap st) x = NULL" "chunk_mmap_size (init_chunk m x n cap st) x = n"
    "chunk_capacity (init_chunk m x n cap st) x = cap" "chunk_used (init_chunk m x n cap st) x = 0"
    "chunk_memory_start (init_chunk m x n cap st) x = st"
    using h by (simp_all add: init_chunk_def Let_def field_other field_other0)
  have f: "agree m' (store64 m' (x + i) v) (- area x 40)" if "unat i + 8 \<le> 40" for m' i v
    using agree_field [of x 40 i] h that by simp
  have f0: "agree m' (store64 m' x v) (- area x 40)" for m' v using f [of 0] by simp
  show "agree m (init_chunk m x n cap st) (- area x 40)"
    unfolding init_chunk_def Let_def by (intro agree_trans [OF _ f] f0) simp_all
qed

lemma init_arena_fields:
  assumes "unat a + 56 \<le> 18446744073709551616"
  shows "arena_first_chunk (init_arena m a cx x i mx g) a = x"
    "arena_current_chunk (init_arena m a cx x i mx g) a = x"
    "arena_allocation_count (init_arena m a cx x i mx g) a = 0"
    "arena_max_chunk_size (init_arena m a cx x i mx g) a = mx"
    "arena_growable (init_arena m a cx x i mx g) a = g"
    "agree m (init_arena m a cx x i mx g) (- area a 56)"
proof -
  have h: "unat a + 56 \<le> 18446744073709551616" by (rule assms)
  have g48: "unat (a + 48) = unat a + 48" using h by (simp add: no_wrap)
  have upd: "load64 (m'(a + 48 := v)) (a + j) = load64 m' (a + j)" if "unat j + 8 \<le> 48" for m' v j
  proof (rule load64_cong)
    have "unat (a + j) = unat a + unat j" using h that by (simp add: no_wrap)
    then show "agree m' (m'(a + 48 := v)) (area (a + j) 8)" "unat (a + j) + 8 \<le> 18446744073709551616"
      using h that g48 by (auto simp: agree_def)
  qed
  show "arena_first_chunk (init_arena m a cx x i mx g) a = x"
    "arena_current_chunk (init_arena m a cx x i mx g) a = x"
    "arena_allocation_count (init_arena m a cx x i mx g) a = 0"
    "arena_max_chunk_size (init_arena m a cx x i mx g) a = mx"
    "arena_growable (init_arena m a cx x i mx g) a = g"
    using h by (simp_all add: init_arena_def Let_def upd field_other field_other0)
  have f: "agree m' (store64 m' (a + i) v) (- area a 56)" if "unat i + 8 \<le> 56" for m' i v
    using agree_field [of a 56 i] h that by simp
  have f0: "agree m' (store64 m' a v) (- area a 56)" for m' v using f [of 0] by simp
  have f48: "agree m' (m'(a + 48 := v)) (- area a 56)" for m' v using g48 by (auto simp: agree_def)
  show "agree m (init_arena m a cx x i mx g) (- area a 56)"
    unfolding init_arena_def Let_def
    by (intro agree_trans [OF _ f48] agree_trans [OF _ f] f0) simp_all
qed

section \<open>The invariant\<close>

definition chunk_rep :: "mem \<Rightarrow> u64 \<Rightarrow> u64 \<Rightarrow> u64 \<Rightarrow> nat \<Rightarrow> bool" where
  "chunk_rep m x base n ov \<longleftrightarrow>
     ov < unat n \<and> chunk_mmap_size m x = n \<and> chunk_capacity m x = n - of_nat ov \<and>
     chunk_memory_start m x = base + of_nat ov \<and> unat (chunk_used m x) \<le> unat n - ov"

definition arena_chunks :: "u64 \<Rightarrow> maps \<Rightarrow> u64 list" where
  "arena_chunks a rs = (a + 64) # map fst rs"

definition arena_rep :: "mem \<Rightarrow> u64 \<Rightarrow> u64 \<Rightarrow> maps \<Rightarrow> bool" where
  "arena_rep m a n0 rs \<longleftrightarrow>
     arena_first_chunk m a = a + 64 \<and> arena_current_chunk m a = last (arena_chunks a rs) \<and>
     chain m 0 (a + 64) (arena_chunks a rs) \<and> chunk_rep m (a + 64) a n0 128 \<and>
     (\<forall>(x, n) \<in> set rs. chunk_rep m x x n 64)"

definition arena_inv :: "env \<Rightarrow> machine \<Rightarrow> bc_context \<Rightarrow> u64 \<Rightarrow> u64 \<Rightarrow> maps \<Rightarrow> maps \<Rightarrow> bool" where
  "arena_inv E w c a n0 rs bs \<longleftrightarrow> arena_rep (mc_mem w) a n0 rs \<and> world E w c ((a, n0) # rs @ bs)"

definition chunk_live :: "mem \<Rightarrow> u64 \<Rightarrow> u64 set" where
  "chunk_live m x = area (chunk_memory_start m x) (unat (chunk_used m x))"

definition arena_live :: "mem \<Rightarrow> u64 \<Rightarrow> maps \<Rightarrow> u64 set" where
  "arena_live m a rs = (\<Union>x \<in> set (arena_chunks a rs). chunk_live m x)"

text \<open>The header bytes, which are all the invariant depends on.\<close>

definition arena_headers :: "u64 \<Rightarrow> maps \<Rightarrow> u64 set" where
  "arena_headers a rs = area a 128 \<union> (\<Union>(x, n) \<in> set rs. area x 64)"

lemma block_bounds:
  assumes "maps_ok E bs" "(p, n) \<in> set bs"
  shows "4096 \<le> unat p" "unat p + unat n \<le> 140737488355328"
  using assms by (auto simp: maps_ok_def map_ok_def)

lemma chunk_rep_cong:
  assumes "chunk_rep m x base n ov" "agree m m' (area x 64)" "unat x + 64 \<le> 18446744073709551616"
  shows "chunk_rep m' x base n ov" "chunk_live m' x = chunk_live m x" "chunk_next m' x = chunk_next m x"
proof -
  have l: "load64 m' (x + i) = load64 m (x + i)" if "unat i + 8 \<le> 64" for i
  proof (rule load64_cong)
    have "unat (x + i) = unat x + unat i" using assms(3) that by (simp add: no_wrap)
    then show "agree m m' (area (x + i) 8)" "unat (x + i) + 8 \<le> 18446744073709551616"
      using assms(2,3) that by (auto intro: agree_subset)
  qed
  show "chunk_rep m' x base n ov" "chunk_live m' x = chunk_live m x"
    using assms(1) by (simp_all add: chunk_rep_def chunk_live_def l)
  show "chunk_next m' x = chunk_next m x" using l [of 0] by simp
qed

text \<open>Where the headers and data of an arena with owned blocks lie.\<close>

lemma arena_bounds:
  assumes "arena_rep m a n0 rs" "maps_ok E ((a, n0) # rs @ bs)"
  shows "unat (a + 64) = unat a + 64" "unat (a + 128) = unat a + 128" "128 < unat n0"
    "4096 \<le> unat a" "unat a + unat n0 \<le> 140737488355328"
    "(x, n) \<in> set rs \<Longrightarrow> 64 < unat n \<and> 4096 \<le> unat x \<and> unat x + unat n \<le> 140737488355328
      \<and> unat (x + 64) = unat x + 64"
proof -
  have a: "4096 \<le> unat a" "unat a + unat n0 \<le> 140737488355328"
    using block_bounds [OF assms(2), of a n0] by auto
  show "4096 \<le> unat a" "unat a + unat n0 \<le> 140737488355328" by (fact a)+
  show n0: "128 < unat n0" using assms(1) by (simp add: arena_rep_def chunk_rep_def)
  show "unat (a + 64) = unat a + 64" "unat (a + 128) = unat a + 128"
    using a n0 by (simp_all add: no_wrap)
  assume x: "(x, n) \<in> set rs"
  then have "64 < unat n" using assms(1) by (auto simp: arena_rep_def chunk_rep_def)
  moreover have "4096 \<le> unat x" "unat x + unat n \<le> 140737488355328"
    using block_bounds [OF assms(2), of x n] x by auto
  ultimately show "64 < unat n \<and> 4096 \<le> unat x \<and> unat x + unat n \<le> 140737488355328
      \<and> unat (x + 64) = unat x + 64" by (simp add: no_wrap)
qed

lemma arena_rep_cong:
  assumes rep: "arena_rep m a n0 rs" and ok: "maps_ok E ((a, n0) # rs @ bs)"
    and ag: "agree m m' (arena_headers a rs)"
  shows "arena_rep m' a n0 rs" "arena_live m' a rs = arena_live m a rs"
proof -
  note b = arena_bounds [OF rep ok]
  have h: "agree m m' (area a 128)" "\<And>x n. (x, n) \<in> set rs \<Longrightarrow> agree m m' (area x 64)"
    using ag by (auto simp: arena_headers_def agree_def simp del: in_area)
  have "area (a + 64) 64 \<subseteq> area a 128" using b(1) by auto
  then have h64: "agree m m' (area (a + 64) 64)" by (rule agree_subset [OF h(1)])
  have l: "load64 m' (a + i) = load64 m (a + i)" if "unat i + 8 \<le> 128" for i
  proof (rule load64_cong)
    have "unat (a + i) = unat a + unat i" using b(5) that by (simp add: no_wrap)
    then show "agree m m' (area (a + i) 8)" "unat (a + i) + 8 \<le> 18446744073709551616"
      using h(1) b(5) that by (auto intro: agree_subset)
  qed
  have c0: "chunk_rep m (a + 64) a n0 128" "\<And>x n. (x, n) \<in> set rs \<Longrightarrow> chunk_rep m x x n 64"
    using rep by (auto simp: arena_rep_def)
  have lim: "unat (a + 64) + 64 \<le> 18446744073709551616"
    "\<And>x n. (x, n) \<in> set rs \<Longrightarrow> unat x + 64 \<le> 18446744073709551616"
    using b(1,5) by (simp, use b(6) in fastforce)
  note k0 = chunk_rep_cong [OF c0(1) h64 lim(1)]
  have k: "chunk_rep m' x x n 64" "chunk_live m' x = chunk_live m x" "chunk_next m' x = chunk_next m x"
    if "(x, n) \<in> set rs" for x n
    using chunk_rep_cong [OF c0(2) h(2) lim(2)] that by blast+
  have "load64 m' (x + 0) = load64 m (x + 0)" if "x \<in> set (arena_chunks a rs)" for x
    using that k0(3) k(3) by (auto simp: arena_chunks_def)
  then have "chain m' 0 (a + 64) (arena_chunks a rs) = chain m 0 (a + 64) (arena_chunks a rs)" by (rule seg_cong)
  then show "arena_rep m' a n0 rs" using rep k0(1) k(1) l [of 8] l [of 16] by (auto simp: arena_rep_def)
  show "arena_live m' a rs = arena_live m a rs"
    using k0(2) k(2) by (auto simp: arena_live_def arena_chunks_def simp del: in_area)
qed

lemma arena_headers_mapped:
  assumes "arena_rep m a n0 rs" "maps_ok E ((a, n0) # rs @ bs)"
  shows "arena_headers a rs \<subseteq> mapped_bytes ((a, n0) # rs)"
  using arena_bounds [OF assms] by (force simp: arena_headers_def mapped_bytes_def)

end
