(* ===== verification/BC_Arena_Ops.thy ===== *)
theory BC_Arena_Ops
  imports BC_Arena_Inv
begin

text \<open>
  Allocation in an arena: the bump step inside one chunk, its effect on the arena, growth by a fresh or a
  cached block, and the two together.
\<close>

section \<open>The chunks with their blocks\<close>

definition chunk_blocks :: "u64 \<Rightarrow> u64 \<Rightarrow> maps \<Rightarrow> (u64 \<times> u64 \<times> u64 \<times> nat) list" where
  "chunk_blocks a n0 rs = (a + 64, a, n0, 128) # map (\<lambda>(x, n). (x, x, n, 64)) rs"

lemma arena_rep_alt:
  "arena_rep m a n0 rs \<longleftrightarrow>
     arena_first_chunk m a = a + 64 \<and> arena_current_chunk m a = last (arena_chunks a rs) \<and>
     chain m 0 (a + 64) (arena_chunks a rs) \<and>
     (\<forall>(x, base, n, ov) \<in> set (chunk_blocks a n0 rs). chunk_rep m x base n ov)"
  by (auto simp: arena_rep_def chunk_blocks_def)

lemma chunk_block_exists:
  assumes "x \<in> set (arena_chunks a rs)"
  obtains base n ov where "(x, base, n, ov) \<in> set (chunk_blocks a n0 rs)"
  using assms by (force simp: arena_chunks_def chunk_blocks_def)

lemma chunk_block_chunk: "(x, base, n, ov) \<in> set (chunk_blocks a n0 rs) \<Longrightarrow> x \<in> set (arena_chunks a rs)"
  by (force simp: arena_chunks_def chunk_blocks_def)

lemma chunk_bounds:
  assumes "arena_rep m a n0 rs" "maps_ok E ((a, n0) # rs @ bs)" "(x, base, n, ov) \<in> set (chunk_blocks a n0 rs)"
  shows "ov = 64 \<or> ov = 128" "unat x = unat base + ov - 64" "4096 \<le> unat base"
    "unat base + unat n \<le> 140737488355328" "ov < unat n" "(base, n) \<in> set ((a, n0) # rs)"
    "area x 64 \<subseteq> area base (unat n)" "unat x + 64 \<le> 140737488355328" "area x 64 \<subseteq> arena_headers a rs"
    "chunk_rep m x base n ov"
proof -
  note b = arena_bounds [OF assms(1,2)]
  show o: "ov = 64 \<or> ov = 128" and x: "unat x = unat base + ov - 64" and lo: "4096 \<le> unat base"
    and hi: "unat base + unat n \<le> 140737488355328" and n: "ov < unat n"
    and "(base, n) \<in> set ((a, n0) # rs)"
    using assms(3) b by (auto simp: chunk_blocks_def)
  show "area x 64 \<subseteq> area base (unat n)" "unat x + 64 \<le> 140737488355328" using o x hi n by auto
  show "area x 64 \<subseteq> arena_headers a rs"
    using assms(3) b(1) by (force simp: chunk_blocks_def arena_headers_def)
  show "chunk_rep m x base n ov" using assms(1,3) by (auto simp: arena_rep_alt)
qed

lemma maps_apart_pair:
  assumes "maps_apart ms" "(p, n) \<in> set ms" "(q, k) \<in> set ms" "(p, n) \<noteq> (q, k)"
  shows "apart p (unat n) q (unat k)"
proof -
  have "(q, k) \<in> set (remove1 (p, n) ms)" using assms(3,4) in_set_remove1 [of "(q, k)" "(p, n)" ms] by auto
  then show ?thesis by (rule maps_apart_remove1_apart [OF assms(1,2)])
qed

lemma chunk_sep:
  assumes ok: "maps_ok E ((a, n0) # rs @ bs)"
    and t: "(x, base, n, ov) \<in> set (chunk_blocks a n0 rs)" "(y, base', n', ov') \<in> set (chunk_blocks a n0 rs)"
    and ne: "x \<noteq> y"
  shows "area base (unat n) \<inter> area base' (unat n') = {}"
proof -
  have ma: "maps_apart ((a, n0) # rs)"
    using ok by (auto simp: maps_ok_def intro: maps_apart_subset)
  have first: "apart a (unat n0) q (unat k)" if "(q, k) \<in> set rs" for q k using ma that by auto
  have "apart base (unat n) base' (unat n')"
  proof (cases "x = a + 64 \<and> (x, base, n, ov) = (a + 64, a, n0, 128)")
    case True
    then have "(base', n') \<in> set rs" using t(2) ne by (auto simp: chunk_blocks_def)
    then show ?thesis using True first by auto
  next
    case False
    then have xr: "(base, n) \<in> set rs" "base = x" using t(1) by (auto simp: chunk_blocks_def)
    show ?thesis
    proof (cases "(y, base', n', ov') = (a + 64, a, n0, 128)")
      case True
      then show ?thesis using first [OF xr(1)] apart_sym by auto
    next
      case False
      then have "(base', n') \<in> set rs" "base' = y" using t(2) by (auto simp: chunk_blocks_def)
      then show ?thesis using maps_apart_pair [of rs base n base' n'] ma xr ne by auto
    qed
  qed
  then show ?thesis by (rule apart_disjoint)
qed

lemma chunk_live_block:
  assumes "arena_rep m a n0 rs" "maps_ok E ((a, n0) # rs @ bs)" "(x, base, n, ov) \<in> set (chunk_blocks a n0 rs)"
  shows "chunk_live m x \<subseteq> area base (unat n)" "chunk_live m x \<inter> arena_headers a rs = {}"
    "unat (chunk_memory_start m x) = unat base + ov" "unat (chunk_capacity m x) = unat n - ov"
proof -
  note b = chunk_bounds [OF assms]
  have rep: "chunk_memory_start m x = base + of_nat ov" "unat (chunk_used m x) \<le> unat n - ov"
    "chunk_capacity m x = n - of_nat ov" using b(10) by (auto simp: chunk_rep_def)
  have ov: "unat (of_nat ov :: u64) = ov" using b(1) by auto
  show s: "unat (chunk_memory_start m x) = unat base + ov" unfolding rep(1)
    using b(1,4,5) ov by (subst unat_add_no_wrap) auto
  show "unat (chunk_capacity m x) = unat n - ov" using rep(3) b(5) ov by (simp add: no_wrap)
  show sub: "chunk_live m x \<subseteq> area base (unat n)" using s rep(2) b(5) by (auto simp: chunk_live_def)
  have own: "chunk_live m x \<inter> area base ov = {}" using s by (auto simp: chunk_live_def)
  have "chunk_live m x \<inter> area a 128 = {}"
  proof (cases "x = a + 64")
    case True
    have "(a + 64, a, n0, 128) \<in> set (chunk_blocks a n0 rs)" by (simp add: chunk_blocks_def)
    then have "base = a \<and> ov = 128 \<or> (x, n) \<in> set rs \<and> base = x \<and> ov = 64"
      using assms(3) by (auto simp: chunk_blocks_def)
    then show ?thesis
    proof
      assume "base = a \<and> ov = 128"
      then show ?thesis using own by auto
    next
      assume "(x, n) \<in> set rs \<and> base = x \<and> ov = 64"
      moreover have "maps_apart ((a, n0) # rs @ bs)" using assms(2) by (simp add: maps_ok_def)
      ultimately have "apart a (unat n0) x (unat n)" by auto
      then show ?thesis using True arena_bounds [OF assms(1,2)] b(4,5) by (auto simp: apart_def)
    qed
  next
    case False
    have "(a + 64, a, n0, 128) \<in> set (chunk_blocks a n0 rs)" by (simp add: chunk_blocks_def)
    from chunk_sep [OF assms(2,3) this False] have "area base (unat n) \<inter> area a (unat n0) = {}" .
    moreover have "area a 128 \<subseteq> area a (unat n0)" using arena_bounds(3) [OF assms(1,2)] by auto
    ultimately show ?thesis using sub by blast
  qed
  moreover have "chunk_live m x \<inter> area y 64 = {}" if y: "(y, k) \<in> set rs" for y k
  proof (cases "x = y")
    case True
    have "unat x + 64 = unat base + ov" using b(1,2) by auto
    then show ?thesis using True s by (auto simp: chunk_live_def)
  next
    case False
    have t: "(y, y, k, 64) \<in> set (chunk_blocks a n0 rs)" using y by (force simp: chunk_blocks_def)
    from chunk_sep [OF assms(2,3) t False] have "area base (unat n) \<inter> area y (unat k) = {}" .
    moreover have "area y 64 \<subseteq> area y (unat k)" using arena_bounds(6) [OF assms(1,2) y] by auto
    ultimately show ?thesis using sub by blast
  qed
  ultimately show "chunk_live m x \<inter> arena_headers a rs = {}" unfolding arena_headers_def by blast
qed

section \<open>The bump step in one chunk\<close>

context bc_core
begin

lemma try_alloc_eq:
  assumes rep: "chunk_rep m x base n ov" and ov: "ov = 64 \<or> ov = 128"
    and hi: "unat base + unat n \<le> 140737488355328" and al: "pow2 al"
  defines "q \<equiv> round_up (unat base + ov + unat (chunk_used m x)) (unat al)"
  shows "arena_try_alloc_in_chunk E m x sz al =
    (if q + unat sz \<le> unat base + unat n
     then (Some (of_nat q), store64 m (x + 24) (of_nat (q + unat sz - (unat base + ov))))
     else (None, m))"
proof -
  define st where "st = chunk_memory_start m x"
  define u where "u = chunk_used m x"
  have r: "ov < unat n" "st = base + of_nat ov" "chunk_capacity m x = n - of_nat ov" "unat u \<le> unat n - ov"
    using rep by (auto simp: chunk_rep_def st_def u_def)
  have o: "unat (of_nat ov :: u64) = ov" using ov by auto
  have ust: "unat st = unat base + ov" unfolding r(2) using o r(1) hi by (subst unat_add_no_wrap) auto
  have cap: "unat (chunk_capacity m x) = unat n - ov" unfolding r(3) using o r(1) by (simp add: no_wrap)
  have cur: "unat (st + u) = unat base + ov + unat u" using ust r hi by (simp add: no_wrap)
  have ge: "unat base + ov + unat u \<le> q" unfolding q_def u_def by (rule round_up_ge) (rule pow2_pos [OF al])
  have au: "core_align_up E (st + u) al = (if q < 18446744073709551616 then Some (of_nat q) else None)"
  proof -
    have "q = round_up (unat (st + u)) (unat al)" unfolding cur unfolding q_def u_def ..
    then show ?thesis using align_up [OF al, of "st + u"] by simp
  qed
  show ?thesis
  proof (cases "q < 18446744073709551616")
    case False
    then have "\<not> q + unat sz \<le> unat base + unat n" using hi by linarith
    then show ?thesis using au False by (simp add: arena_try_alloc_in_chunk_def st_def u_def)
  next
    case True
    have uq: "unat (of_nat q :: u64) = q" using True by (rule unat_of_nat_no_wrap)
    have off: "unat (of_nat q - st) = q - (unat base + ov)" using uq ust ge by (simp add: no_wrap)
    have bk: "st + (of_nat q - st) = (of_nat q :: u64)" by simp
    show ?thesis
    proof (cases "q - (unat base + ov) + unat sz < 18446744073709551616")
      case False
      then have "\<not> q + unat sz \<le> unat base + unat n" using hi by linarith
      moreover have "core_safe_add E (of_nat q - st) sz = None" using safe_add off False by simp
      ultimately show ?thesis using au True by (simp add: arena_try_alloc_in_chunk_def st_def u_def)
    next
      case sum: True
      define e where "e = of_nat q - st + sz"
      have ue: "unat e = q - (unat base + ov) + unat sz" unfolding e_def using off sum by (simp add: no_wrap)
      have e: "e = of_nat (q + unat sz - (unat base + ov))"
      proof -
        have "q - (unat base + ov) + unat sz = q + unat sz - (unat base + ov)" using ge by simp
        then have "unat e = q + unat sz - (unat base + ov)" using ue by simp
        moreover have "e = of_nat (unat e)" by simp
        ultimately show ?thesis by simp
      qed
      have add: "core_safe_add E (of_nat q - st) sz = Some e" using safe_add off sum by (simp add: e_def)
      have "\<not> e > chunk_capacity m x \<longleftrightarrow> q + unat sz \<le> unat base + unat n"
        using ue cap ge r(1) by (simp add: word_less_nat_alt) linarith
      then show ?thesis
        using au True add bk by (auto simp: arena_try_alloc_in_chunk_def st_def u_def e Let_def)
    qed
  qed
qed

end

section \<open>Header writes\<close>

lemma chunk_head_sep:
  assumes "arena_rep m a n0 rs" "maps_ok E ((a, n0) # rs @ bs)" "(x, base, n, ov) \<in> set (chunk_blocks a n0 rs)"
  shows "area x 64 \<inter> area a 64 = {}"
proof (cases "x = a + 64")
  case True
  then show ?thesis using arena_bounds(1) [OF assms(1,2)] by auto
next
  case False
  have "(a + 64, a, n0, 128) \<in> set (chunk_blocks a n0 rs)" by (simp add: chunk_blocks_def)
  from chunk_sep [OF assms(2,3) this False] have "area base (unat n) \<inter> area a (unat n0) = {}" .
  moreover have "area a 64 \<subseteq> area a (unat n0)" using arena_bounds(3) [OF assms(1,2)] by auto
  ultimately show ?thesis using chunk_bounds(7) [OF assms] by blast
qed

lemma head_fields_cong:
  assumes "agree m m' (area a 64)" "unat a + 64 \<le> 18446744073709551616"
  shows "unat i + 8 \<le> 64 \<Longrightarrow> load64 m' (a + i) = load64 m (a + i)" "arena_growable m' a = arena_growable m a"
proof -
  show "load64 m' (a + i) = load64 m (a + i)" if "unat i + 8 \<le> 64"
  proof (rule load64_cong)
    have "unat (a + i) = unat a + unat i" using assms(2) that by (simp add: no_wrap)
    then show "agree m m' (area (a + i) 8)" "unat (a + i) + 8 \<le> 18446744073709551616"
      using assms that by (auto intro: agree_subset)
  qed
  have "unat (a + 48) = unat a + 48" using assms(2) by (simp add: no_wrap)
  then have "a + 48 \<in> area a 64" by simp
  then show "arena_growable m' a = arena_growable m a" using assms(1) by (simp add: agree_def del: in_area)
qed

lemma chunk_rep_set_used:
  assumes "chunk_rep m x base n ov" "unat x + 64 \<le> 18446744073709551616"
    and "unat e \<le> unat (chunk_capacity m x)"
  shows "chunk_rep (store64 m (x + 24) e) x base n ov"
    "chunk_live (store64 m (x + 24) e) x = area (chunk_memory_start m x) (unat e)"
    "chunk_next (store64 m (x + 24) e) x = chunk_next m x"
proof -
  have r: "ov < unat n" "chunk_capacity m x = n - of_nat ov" using assms(1) by (auto simp: chunk_rep_def)
  have "unat (of_nat ov :: u64) = ov" using r(1) u64_max [of n] by (intro unat_of_nat_no_wrap) linarith
  then have cap: "unat (chunk_capacity m x) = unat n - ov" using r by (simp add: no_wrap)
  show "chunk_rep (store64 m (x + 24) e) x base n ov"
    "chunk_live (store64 m (x + 24) e) x = area (chunk_memory_start m x) (unat e)"
    "chunk_next (store64 m (x + 24) e) x = chunk_next m x"
    using assms cap by (simp_all add: chunk_rep_def chunk_live_def field_other field_other0)
qed

lemma arena_set_used:
  assumes rep: "arena_rep m a n0 rs" and ok: "maps_ok E ((a, n0) # rs @ bs)"
    and t: "(x, base, n, ov) \<in> set (chunk_blocks a n0 rs)" and e: "unat e \<le> unat n - ov"
  defines "m' \<equiv> store64 m (x + 24) e"
  shows "arena_rep m' a n0 rs" "chunk_live m' x = area (chunk_memory_start m x) (unat e)"
    and "\<And>y. y \<in> set (arena_chunks a rs) \<Longrightarrow> y \<noteq> x \<Longrightarrow> chunk_live m' y = chunk_live m y"
    and "agree m m' (- area x 64)" "agree m m' (area a 64)"
proof -
  note b = chunk_bounds [OF rep ok t]
  note live = chunk_live_block [OF rep ok t]
  have cap: "unat e \<le> unat (chunk_capacity m x)" using e live(4) by simp
  have x64: "unat x + 64 \<le> 18446744073709551616" using b(8) by simp
  show out: "agree m m' (- area x 64)" unfolding m'_def by (rule agree_field) (use x64 in simp_all)
  show head: "agree m m' (area a 64)" by (rule agree_off [OF out chunk_head_sep [OF rep ok t]])
  show "chunk_live m' x = area (chunk_memory_start m x) (unat e)"
    unfolding m'_def by (rule chunk_rep_set_used(2) [OF b(10) x64 cap])
  have other: "chunk_rep m' y base' n' ov' \<and> chunk_live m' y = chunk_live m y \<and> chunk_next m' y = chunk_next m y"
    if y: "(y, base', n', ov') \<in> set (chunk_blocks a n0 rs)" "y \<noteq> x" for y base' n' ov'
  proof -
    note b' = chunk_bounds [OF rep ok y(1)]
    have "area base (unat n) \<inter> area base' (unat n') = {}" using chunk_sep [OF ok t y(1)] y(2) by blast
    then have "area x 64 \<inter> area y 64 = {}" using b(7) b'(7) by blast
    then have "agree m m' (area y 64)" by (rule agree_off [OF out])
    moreover have "unat y + 64 \<le> 18446744073709551616" using b'(8) by simp
    ultimately show ?thesis using chunk_rep_cong [OF b'(10)] by blast
  qed
  show "chunk_live m' y = chunk_live m y" if yc: "y \<in> set (arena_chunks a rs)" "y \<noteq> x" for y
  proof -
    obtain base' n' ov' where "(y, base', n', ov') \<in> set (chunk_blocks a n0 rs)"
      using chunk_block_exists [OF yc(1)] .
    then show ?thesis using other yc(2) by blast
  qed
  have reps: "chunk_rep m' y base' n' ov'" if y: "(y, base', n', ov') \<in> set (chunk_blocks a n0 rs)" for y base' n' ov'
  proof (cases "y = x")
    case True
    have "chunk_rep m x base' n' ov'" using chunk_bounds(10) [OF rep ok y] True by simp
    then show ?thesis unfolding m'_def True by (rule chunk_rep_set_used(1) [OF _ x64 cap])
  qed (use other y in blast)
  have nx: "load64 m' (y + 0) = load64 m (y + 0)" if yc: "y \<in> set (arena_chunks a rs)" for y
  proof (cases "y = x")
    case True
    then show ?thesis unfolding m'_def using chunk_rep_set_used(3) [OF b(10) x64 cap] by simp
  next
    case False
    obtain base' n' ov' where "(y, base', n', ov') \<in> set (chunk_blocks a n0 rs)"
      using chunk_block_exists [OF yc] .
    then show ?thesis using other False by simp
  qed
  have "chain m' 0 (a + 64) (arena_chunks a rs) = chain m 0 (a + 64) (arena_chunks a rs)"
    using nx by (rule seg_cong)
  moreover have "unat a + 64 \<le> 18446744073709551616"
    using arena_bounds(3,5) [OF rep ok] by simp
  note hf = head_fields_cong [OF head this]
  ultimately show "arena_rep m' a n0 rs"
    using rep reps hf(1) [of 8] hf(1) [of 16] by (auto simp: arena_rep_alt)
qed

lemma arena_count:
  assumes rep: "arena_rep m a n0 rs" and ok: "maps_ok E ((a, n0) # rs @ bs)"
  shows "arena_rep (count_allocation m a) a n0 rs" "arena_live (count_allocation m a) a rs = arena_live m a rs"
    "agree m (count_allocation m a) (- area a 64)"
    "arena_allocation_count (count_allocation m a) a = arena_allocation_count m a + 1"
proof -
  note b = arena_bounds [OF rep ok]
  have a64: "unat a + 64 \<le> 18446744073709551616" using b(3,5) by simp
  show out: "agree m (count_allocation m a) (- area a 64)"
    unfolding count_allocation_def by (rule agree_field) (use a64 in simp_all)
  show "arena_allocation_count (count_allocation m a) a = arena_allocation_count m a + 1"
    by (simp add: count_allocation_def)
  have f: "load64 (count_allocation m a) (a + 8) = load64 m (a + 8)"
    "load64 (count_allocation m a) (a + 16) = load64 m (a + 16)"
    unfolding count_allocation_def using a64 by (simp_all add: field_other)
  have same: "chunk_rep (count_allocation m a) x base n ov \<and> chunk_live (count_allocation m a) x = chunk_live m x
      \<and> chunk_next (count_allocation m a) x = chunk_next m x"
    if t: "(x, base, n, ov) \<in> set (chunk_blocks a n0 rs)" for x base n ov
  proof -
    note c = chunk_bounds [OF rep ok t]
    have "agree m (count_allocation m a) (area x 64)"
      using chunk_head_sep [OF rep ok t] by (intro agree_off [OF out]) blast
    moreover have "unat x + 64 \<le> 18446744073709551616" using c(8) by simp
    ultimately show ?thesis using chunk_rep_cong [OF c(10)] by blast
  qed
  have "load64 (count_allocation m a) (x + 0) = load64 m (x + 0)
      \<and> chunk_live (count_allocation m a) x = chunk_live m x"
    if xc: "x \<in> set (arena_chunks a rs)" for x
  proof -
    obtain base n ov where "(x, base, n, ov) \<in> set (chunk_blocks a n0 rs)" using chunk_block_exists [OF xc] .
    then show ?thesis using same by simp
  qed
  note cl = this
  then have "chain (count_allocation m a) 0 (a + 64) (arena_chunks a rs) = chain m 0 (a + 64) (arena_chunks a rs)"
    by (intro seg_cong) blast
  then show "arena_rep (count_allocation m a) a n0 rs" using rep f same by (auto simp: arena_rep_alt)
  show "arena_live (count_allocation m a) a rs = arena_live m a rs" using cl by (simp add: arena_live_def)
qed

end
