(* ===== verification/BC_Arena_Alloc.thy ===== *)
theory BC_Arena_Alloc
  imports BC_Arena_Ops
begin

text \<open>
  Allocation as the client sees it: \<open>arena_grant\<close> is the contract of a granted request. Growth appends one
  block to the arena and keeps every byte handed out before.
\<close>

definition arena_grant :: "mem \<Rightarrow> u64 \<Rightarrow> maps \<Rightarrow> u64 \<Rightarrow> u64 \<Rightarrow> u64 \<Rightarrow> mem \<Rightarrow> maps \<Rightarrow> bool" where
  "arena_grant m a rs sz al p m' rs' \<longleftrightarrow>
     unat al dvd unat p \<and> p \<noteq> NULL \<and> unat p + unat sz \<le> 140737488355328 \<and>
     area p (unat sz) \<inter> arena_live m a rs = {} \<and>
     arena_live m a rs \<union> area p (unat sz) \<subseteq> arena_live m' a rs' \<and>
     agree m m' (arena_live m a rs)"

lemma last_chunk: "last (arena_chunks a rs) \<in> set (arena_chunks a rs)"
  by (rule last_in_set) (simp add: arena_chunks_def)

lemma current_chunk_block:
  assumes "arena_rep m a n0 rs"
  obtains base n ov where "(arena_current_chunk m a, base, n, ov) \<in> set (chunk_blocks a n0 rs)"
proof -
  have "arena_current_chunk m a \<in> set (arena_chunks a rs)"
    using assms last_chunk by (simp add: arena_rep_def)
  then show thesis using chunk_block_exists that by blast
qed

lemma live_outside_headers:
  assumes "arena_rep m a n0 rs" "maps_ok E ((a, n0) # rs @ bs)"
  shows "arena_live m a rs \<inter> arena_headers a rs = {}" "arena_live m a rs \<subseteq> mapped_bytes ((a, n0) # rs)"
proof -
  have "chunk_live m x \<inter> arena_headers a rs = {} \<and> chunk_live m x \<subseteq> mapped_bytes ((a, n0) # rs)"
    if x: "x \<in> set (arena_chunks a rs)" for x
  proof -
    obtain base n ov where t: "(x, base, n, ov) \<in> set (chunk_blocks a n0 rs)" using chunk_block_exists [OF x] .
    note l = chunk_live_block [OF assms t]
    have "area base (unat n) \<subseteq> mapped_bytes ((a, n0) # rs)"
      using chunk_bounds(6) [OF assms t] unfolding mapped_bytes_def by blast
    then show ?thesis using l(1,2) by blast
  qed
  then show "arena_live m a rs \<inter> arena_headers a rs = {}" "arena_live m a rs \<subseteq> mapped_bytes ((a, n0) # rs)"
    unfolding arena_live_def by blast+
qed

context bc_core
begin

lemma arena_bump_ok:
  assumes rep: "arena_rep m a n0 rs" and ok: "maps_ok E ((a, n0) # rs @ bs)" and al: "pow2 al"
    and run: "arena_try_alloc_in_chunk E m (arena_current_chunk m a) sz al = (Some p, m1)"
  shows "arena_rep (count_allocation m1 a) a n0 rs"
    "arena_grant m a rs sz al p (count_allocation m1 a) rs"
    "agree m (count_allocation m1 a) (- arena_headers a rs)"
proof -
  define x where "x = arena_current_chunk m a"
  obtain base n ov where t: "(x, base, n, ov) \<in> set (chunk_blocks a n0 rs)"
    using current_chunk_block [OF rep] unfolding x_def .
  note b = chunk_bounds [OF rep ok t] and l = chunk_live_block [OF rep ok t]
  define u where "u = unat (chunk_used m x)"
  define q where "q = round_up (unat base + ov + u) (unat al)"
  define e :: u64 where "e = of_nat (q + unat sz - (unat base + ov))"
  have pa: "0 < unat al" using al by (rule pow2_pos)
  have step: "arena_try_alloc_in_chunk E m x sz al =
    (if q + unat sz \<le> unat base + unat n then (Some (of_nat q), store64 m (x + 24) e) else (None, m))"
    using try_alloc_eq [OF b(10,1,4) al, of sz] unfolding q_def u_def e_def .
  have fit: "q + unat sz \<le> unat base + unat n" and p: "p = of_nat q" and m1: "m1 = store64 m (x + 24) e"
    using run step unfolding x_def by (auto split: if_splits)
  have qge: "unat base + ov + u \<le> q" unfolding q_def by (rule round_up_ge [OF pa])
  have up: "unat p = q" unfolding p using fit b(4) by (intro unat_of_nat_no_wrap) linarith
  have ue: "unat e = q + unat sz - (unat base + ov)"
    unfolding e_def using fit b(4) by (intro unat_of_nat_no_wrap) linarith
  have ecap: "unat e \<le> unat n - ov" using ue fit qge b(5) by linarith
  note su = arena_set_used [OF rep ok t ecap, folded m1]
  note ac = arena_count [OF su(1) ok]
  have start: "unat (chunk_memory_start m x) = unat base + ov" by (rule l(3))
  have newx: "chunk_live m1 x = area (chunk_memory_start m x) (unat e)" by (rule su(2))
  have oldx: "chunk_live m x = area (chunk_memory_start m x) u" by (simp add: chunk_live_def u_def)
  have px: "area p (unat sz) \<subseteq> chunk_live m1 x" "chunk_live m x \<subseteq> chunk_live m1 x"
    "area p (unat sz) \<inter> chunk_live m x = {}" "area p (unat sz) \<subseteq> area base (unat n)"
    unfolding newx oldx using up ue qge start fit by auto
  have xin: "x \<in> set (arena_chunks a rs)" by (rule chunk_block_chunk [OF t])
  have apart: "area p (unat sz) \<inter> chunk_live m y = {}" if y: "y \<in> set (arena_chunks a rs)" for y
  proof (cases "y = x")
    case False
    obtain base' n' ov' where t': "(y, base', n', ov') \<in> set (chunk_blocks a n0 rs)"
      using chunk_block_exists [OF y] .
    have "area base (unat n) \<inter> area base' (unat n') = {}" using chunk_sep [OF ok t t'] False by blast
    then show ?thesis using px(4) chunk_live_block(1) [OF rep ok t'] by blast
  qed (use px(3) in simp)
  have "chunk_live m y \<subseteq> chunk_live m1 y" if "y \<in> set (arena_chunks a rs)" for y
    using su(3) [OF that] px(2) by (cases "y = x") auto
  then have live: "arena_live m a rs \<subseteq> arena_live m1 a rs" unfolding arena_live_def by blast
  have plive: "area p (unat sz) \<subseteq> arena_live m1 a rs" using px(1) xin unfolding arena_live_def by blast
  show "arena_rep (count_allocation m1 a) a n0 rs" by (rule ac(1))
  have "area a 64 \<subseteq> arena_headers a rs" by (auto simp: arena_headers_def)
  then have o1: "agree m1 (count_allocation m1 a) (- arena_headers a rs)"
    using ac(3) by (intro agree_subset [OF ac(3)]) blast
  have "agree m m1 (- arena_headers a rs)" using b(9) by (intro agree_subset [OF su(4)]) blast
  then show out: "agree m (count_allocation m1 a) (- arena_headers a rs)" using o1 by (rule agree_trans)
  have "agree m (count_allocation m1 a) (arena_live m a rs)"
    using live_outside_headers(1) [OF rep ok] by (intro agree_subset [OF out]) blast
  moreover have "unat al dvd unat p" using up by (simp add: q_def)
  moreover have "p \<noteq> NULL" using up qge b(3) by auto
  moreover have "unat p + unat sz \<le> 140737488355328" using up fit b(4) by linarith
  ultimately show "arena_grant m a rs sz al p (count_allocation m1 a) rs"
    using apart live plive ac(2) by (auto simp: arena_grant_def arena_live_def simp del: in_area)
qed

lemma arena_try_None:
  assumes "arena_rep m a n0 rs" "maps_ok E ((a, n0) # rs @ bs)" "pow2 al"
    "arena_try_alloc_in_chunk E m (arena_current_chunk m a) sz al = (None, m1)"
  shows "m1 = m"
proof -
  obtain base n ov where t: "(arena_current_chunk m a, base, n, ov) \<in> set (chunk_blocks a n0 rs)"
    using current_chunk_block [OF assms(1)] .
  note b = chunk_bounds [OF assms(1,2) t]
  show ?thesis using try_alloc_eq [OF b(10,1,4) assms(3), of sz] assms(4) by (auto split: if_splits)
qed

lemma grow_target_ge: "min_capacity \<le> grow_target lc mx min_capacity"
  by (auto simp: grow_target_def Let_def not_less)

end

section \<open>Growth\<close>

lemma world_perm:
  assumes "mset bs = mset bs'"
  shows "world E w c bs = world E w c bs'" "other_mappings w c bs = other_mappings w c bs'"
  using assms by (simp_all add: world_def other_mappings_def)

lemma maps_apart_distinct:
  "maps_apart ms \<Longrightarrow> (\<And>p n. (p, n) \<in> set ms \<Longrightarrow> 0 < unat n) \<Longrightarrow> distinct (map fst ms)"
proof (induction ms rule: maps_apart.induct)
  case (2 p n ms)
  have "0 < unat n" using "2.prems"(2) by auto
  have "p \<notin> fst ` set ms"
  proof
    assume "p \<in> fst ` set ms"
    then obtain k where k: "(p, k) \<in> set ms" by auto
    then have "apart p (unat n) p (unat k)" using "2.prems"(1) by auto
    moreover have "0 < unat k" using "2.prems"(2) k by auto
    ultimately show False using \<open>0 < unat n\<close> by (simp add: apart_def)
  qed
  then show ?case using 2 by auto
qed simp

lemma distinct_chunks:
  assumes "arena_rep m a n0 rs" "maps_ok E ((a, n0) # rs @ bs)"
  shows "distinct (arena_chunks a rs)"
proof -
  note b = arena_bounds [OF assms]
  have ma: "maps_apart ((a, n0) # rs)" using assms(2) by (auto simp: maps_ok_def intro: maps_apart_subset)
  have "distinct (map fst rs)"
    using ma b(6) by (intro maps_apart_distinct) fastforce+
  moreover have "a + 64 \<notin> fst ` set rs"
  proof
    assume "a + 64 \<in> fst ` set rs"
    then obtain k where k: "(a + 64, k) \<in> set rs" by auto
    then have "apart a (unat n0) (a + 64) (unat k)" using ma by auto
    then show False using b(1,3) b(6) [OF k] by (auto simp: apart_def)
  qed
  ultimately show ?thesis by (simp add: arena_chunks_def)
qed

text \<open>A new block lies apart from every block the arena has.\<close>

lemma new_block_sep:
  assumes ok: "maps_ok E ((a, n0) # (rs @ [(p, n)]) @ bs)" and n: "64 < unat n" and b: "(base, k) \<in> set ((a, n0) # rs)"
  shows "area p 64 \<inter> area base (unat k) = {}"
proof -
  have ma: "maps_apart ((a, n0) # rs @ [(p, n)])" using ok by (auto simp: maps_ok_def intro: maps_apart_subset)
  have "apart base (unat k) p (unat n)"
  proof (cases "(base, k) = (a, n0)")
    case True
    then show ?thesis using ma by auto
  next
    case False
    have "maps_apart (rs @ [(p, n)])" using ma by simp
    then have "\<forall>(q, k) \<in> set rs. apart p (unat n) q (unat k)" by (simp add: maps_apart_append)
    then show ?thesis using b False apart_sym by auto
  qed
  then have "apart p 64 base (unat k)" using n apart_sym [of base] by (auto elim: apart_mono)
  then show ?thesis by (rule apart_disjoint)
qed

text \<open>Linking a new chunk behind the last one: the stores of \<^verbatim>\<open>arena_grow\<close> once it has its block \<open>p\<close>, and what they do to the
  arena header at \<open>a\<close>, the last chunk \<open>x\<close> and the new one.\<close>

definition link_chunk :: "mem \<Rightarrow> u64 \<Rightarrow> u64 \<Rightarrow> u64 \<Rightarrow> u64 \<Rightarrow> mem" where
  "link_chunk m a x p n = store64 (store64 (init_chunk m p n (n - 64) (p + 64)) x p) (a + 16) p"

lemma link_chunk_fields:
  fixes m :: mem and a x p n :: u64
  assumes lim: "unat a + 64 \<le> 18446744073709551616" "unat x + 64 \<le> 18446744073709551616"
      "unat p + 64 \<le> 18446744073709551616" and n: "64 < unat n"
    and sep: "area x 64 \<inter> area a 64 = {}" "area p 64 \<inter> area a 64 = {}" "area x 64 \<inter> area p 64 = {}"
  defines "m' \<equiv> link_chunk m a x p n"
  shows "agree m m' (- (area a 64 \<union> area x 8 \<union> area p 64))"
    "arena_current_chunk (init_chunk m p n (n - 64) (p + 64)) a = arena_current_chunk m a"
    "arena_current_chunk m' a = p" "arena_growable m' a = arena_growable m a"
    "unat i + 8 \<le> 16 \<or> 24 \<le> unat i \<and> unat i + 8 \<le> 64 \<Longrightarrow> load64 m' (a + i) = load64 m (a + i)"
    "chunk_next m' x = p" "8 \<le> unat i \<Longrightarrow> unat i + 8 \<le> 64 \<Longrightarrow> load64 m' (x + i) = load64 m (x + i)"
    "chunk_rep m' p p n 64" "chunk_used m' p = 0" "chunk_next m' p = NULL"
proof -
  define m1 where "m1 = init_chunk m p n (n - 64) (p + 64)"
  define m2 where "m2 = store64 m1 x p"
  have m': "m' = store64 m2 (a + 16) p" by (simp add: m'_def link_chunk_def m2_def m1_def)
  have p40: "unat p + 40 \<le> 18446744073709551616" using lim(3) by simp
  note ic = init_chunk_fields [of p m n "n - 64" "p + 64", folded m1_def, OF p40]
  have o1: "agree m m1 (- area p 64)" by (rule agree_subset [OF ic(6)]) auto
  have o2: "agree m1 m2 (- area x 8)" unfolding m2_def by (rule agree_store64) (use lim(2) in auto)
  have o3: "agree m2 m' (- area a 64)" unfolding m' by (rule agree_field) (use lim(1) in simp_all)
  show "agree m m' (- (area a 64 \<union> area x 8 \<union> area p 64))"
    using o1 o2 o3 by (simp add: agree_def del: in_area)
  have x8: "area x 8 \<subseteq> area x 64" by auto
  have h1: "agree m m1 (area a 64)" by (rule agree_off [OF o1 sep(2)])
  show "arena_current_chunk m1 a = arena_current_chunk m a" using head_fields_cong(1) [OF h1 lim(1), of 16] by simp
  have "agree m1 m2 (area a 64)" using sep(1) x8 by (intro agree_off [OF o2]) blast
  with h1 have h2: "agree m m2 (area a 64)" by (rule agree_trans)
  show "arena_current_chunk m' a = p" by (simp add: m')
  show "load64 m' (a + i) = load64 m (a + i)" if "unat i + 8 \<le> 16 \<or> 24 \<le> unat i \<and> unat i + 8 \<le> 64"
  proof -
    have "load64 m' (a + i) = load64 m2 (a + i)" unfolding m' using that lim(1) by (intro field_other) auto
    then show ?thesis using head_fields_cong(1) [OF h2 lim(1), of i] that by auto
  qed
  have "m' (a + 48) = m2 (a + 48)" unfolding m' using lim(1) by (intro store64_other) (auto simp: no_wrap)
  then show "arena_growable m' a = arena_growable m a" using head_fields_cong(2) [OF h2 lim(1)] by simp
  have x1: "agree m m1 (area x 64)" using sep(3) by (intro agree_off [OF o1]) blast
  have x3: "agree m2 m' (area x 64)" using sep(1) by (intro agree_off [OF o3]) blast
  show "chunk_next m' x = p" using head_fields_cong(1) [OF x3 lim(2), of 0] by (simp add: m2_def)
  show "load64 m' (x + i) = load64 m (x + i)" if i: "8 \<le> unat i" "unat i + 8 \<le> 64"
  proof -
    have "load64 m2 (x + i) = load64 m1 (x + i)"
      unfolding m2_def using field_other [of x 0 i m1 p] i lim(2) by simp
    then show ?thesis using head_fields_cong(1) [OF x1 lim(2) i(2)] head_fields_cong(1) [OF x3 lim(2) i(2)] by simp
  qed
  have "agree m1 m2 (area p 64)" using sep(3) x8 by (intro agree_off [OF o2]) blast
  moreover have "agree m2 m' (area p 64)" using sep(2) by (intro agree_off [OF o3]) blast
  ultimately have pp: "agree m1 m' (area p 64)" by (rule agree_trans)
  have "chunk_rep m1 p p n 64" using n ic(2-5) by (simp add: chunk_rep_def)
  note pc = chunk_rep_cong [OF this pp lim(3)]
  show "chunk_rep m' p p n 64" by (rule pc(1))
  show "chunk_used m' p = 0" using head_fields_cong(1) [OF pp lim(3), of 24] ic(4) by simp
  show "chunk_next m' p = NULL" using pc(3) ic(1) by simp
qed

text \<open>The chunks the arena had keep what they are, and all but the last their successor.\<close>

lemma link_old_chunk:
  assumes rep: "arena_rep m a n0 rs" and ok: "maps_ok E ((a, n0) # (rs @ [(p, n)]) @ bs)" and n: "64 < unat n"
    and y: "(y, yb, yn, yo) \<in> set (chunk_blocks a n0 rs)"
  defines "x \<equiv> arena_current_chunk m a"
  defines "m' \<equiv> link_chunk m a x p n"
  assumes out: "agree m m' (- (area a 64 \<union> area x 8 \<union> area p 64))"
    and fx: "\<And>i. 8 \<le> unat i \<Longrightarrow> unat i + 8 \<le> 64 \<Longrightarrow> load64 m' (x + i) = load64 m (x + i)"
  shows "chunk_rep m' y yb yn yo" "chunk_live m' y = chunk_live m y" "y \<noteq> x \<Longrightarrow> chunk_next m' y = chunk_next m y"
proof -
  have ok0: "maps_ok E ((a, n0) # rs @ (p, n) # bs)" using ok by simp
  note yb = chunk_bounds [OF rep ok0 y]
  have lim: "unat y + 64 \<le> 18446744073709551616" using yb(8) by simp
  have other: "chunk_rep m' y yb yn yo \<and> chunk_live m' y = chunk_live m y \<and> chunk_next m' y = chunk_next m y" if ne: "y \<noteq> x"
  proof -
    obtain xb xn xo where t: "(x, xb, xn, xo) \<in> set (chunk_blocks a n0 rs)"
      using current_chunk_block [OF rep] unfolding x_def .
    have "area xb (unat xn) \<inter> area yb (unat yn) = {}" using chunk_sep [OF ok0 t y] ne by blast
    then have "area x 64 \<inter> area y 64 = {}" using chunk_bounds(7) [OF rep ok0 t] yb(7) by blast
    moreover have "area x 8 \<subseteq> area x 64" by auto
    ultimately have "(area a 64 \<union> area x 8 \<union> area p 64) \<inter> area y 64 = {}"
      using chunk_head_sep [OF rep ok0 y] new_block_sep [OF ok n yb(6)] yb(7) by blast
    from chunk_rep_cong [OF yb(10) agree_off [OF out this] lim] show ?thesis by blast
  qed
  have "chunk_rep m' y yb yn yo \<and> chunk_live m' y = chunk_live m y"
  proof (cases "y = x")
    case True
    then show ?thesis using yb(10) fx by (simp add: chunk_rep_def chunk_live_def)
  qed (use other in blast)
  then show "chunk_rep m' y yb yn yo" "chunk_live m' y = chunk_live m y" by blast+
  show "y \<noteq> x \<Longrightarrow> chunk_next m' y = chunk_next m y" using other by blast
qed

text \<open>The chain of chunks, one longer.\<close>

lemma link_chain:
  assumes rep: "arena_rep m a n0 rs" and dis: "distinct (arena_chunks a rs)" and p: "p \<noteq> NULL"
    and next_x: "chunk_next m' (arena_current_chunk m a) = p" and next_p: "chunk_next m' p = NULL"
    and old: "\<And>y. y \<in> set (arena_chunks a rs) \<Longrightarrow> y \<noteq> arena_current_chunk m a \<Longrightarrow> chunk_next m' y = chunk_next m y"
  shows "chain m' 0 (a + 64) (arena_chunks a (rs @ [(p, n)]))"
proof -
  define x where "x = arena_current_chunk m a"
  have "arena_chunks a rs = butlast (arena_chunks a rs) @ [last (arena_chunks a rs)]" by (simp add: arena_chunks_def)
  moreover have "last (arena_chunks a rs) = x" using rep by (simp add: arena_rep_def x_def)
  ultimately obtain ys where ys: "arena_chunks a rs = ys @ [x]" by metis
  have "chain m 0 (a + 64) (ys @ [x])" using rep ys by (simp add: arena_rep_def)
  then have s: "seg m 0 (a + 64) ys x" "x \<noteq> NULL" by auto
  have "load64 m' (y + 0) = load64 m (y + 0)" if "y \<in> set ys" for y
    using old [of y] that dis ys by (auto simp: x_def)
  then have "seg m' 0 (a + 64) ys x" using seg_cong [of ys m' 0 m "a + 64" x] s(1) by blast
  moreover have "arena_chunks a (rs @ [(p, n)]) = ys @ [x, p]" using ys by (simp add: arena_chunks_def)
  ultimately show ?thesis using next_x next_p p s(2) by (simp add: x_def)
qed

lemma arena_link:
  assumes rep: "arena_rep m a n0 rs" and ok: "maps_ok E ((a, n0) # (rs @ [(p, n)]) @ bs)" and n: "64 < unat n"
  defines "x \<equiv> arena_current_chunk m a"
  defines "m1 \<equiv> init_chunk m p n (n - 64) (p + 64)"
  defines "m3 \<equiv> store64 (store64 m1 x p) (a + 16) p"
  shows "arena_current_chunk m1 a = x" "arena_rep m3 a n0 (rs @ [(p, n)])" "chunk_used m3 p = 0"
    "arena_live m3 a (rs @ [(p, n)]) = arena_live m a rs"
    "agree m m3 (- (arena_headers a rs \<union> area p 64))"
    "arena_allocation_count m3 a = arena_allocation_count m a" "arena_growable m3 a = arena_growable m a"
    "arena_max_chunk_size m3 a = arena_max_chunk_size m a"
proof -
  have ok0: "maps_ok E ((a, n0) # rs @ (p, n) # bs)" using ok by simp
  note ab = arena_bounds [OF rep ok0]
  have pb: "4096 \<le> unat p" "unat p + unat n \<le> 140737488355328" using block_bounds [OF ok0, of p n] by auto
  obtain xb xn xo where t: "(x, xb, xn, xo) \<in> set (chunk_blocks a n0 rs)"
    using current_chunk_block [OF rep] unfolding x_def .
  note xb = chunk_bounds [OF rep ok0 t]
  note psep = new_block_sep [OF ok n]
  have a64: "area a 64 \<subseteq> area a (unat n0)" using ab(3) by auto
  have lim: "unat a + 64 \<le> 18446744073709551616" "unat x + 64 \<le> 18446744073709551616"
    "unat p + 64 \<le> 18446744073709551616" using ab(3,5) xb(8) pb n by simp_all
  have sep: "area x 64 \<inter> area a 64 = {}" "area p 64 \<inter> area a 64 = {}" "area x 64 \<inter> area p 64 = {}"
    using chunk_head_sep [OF rep ok0 t] psep [of a n0] a64 psep [OF xb(6)] xb(7) by auto
  have m3: "m3 = link_chunk m a x p n" by (simp add: m3_def m1_def link_chunk_def)
  note lf = link_chunk_fields [OF lim n sep, where m = m, folded m3]
  note old = link_old_chunk [OF rep ok n _ lf(1,7) [unfolded x_def m3], folded x_def, folded m3]
  show "arena_current_chunk m1 a = x" using lf(2) by (simp add: m1_def x_def)
  show "arena_allocation_count m3 a = arena_allocation_count m a"
    "arena_max_chunk_size m3 a = arena_max_chunk_size m a" "arena_growable m3 a = arena_growable m a"
    using lf(4,5) by simp_all
  show "chunk_used m3 p = 0" by (rule lf(9))
  have "p \<noteq> NULL" using pb by auto
  have "chain m3 0 (a + 64) (arena_chunks a (rs @ [(p, n)]))"
  proof (rule link_chain [OF rep distinct_chunks [OF rep ok0] \<open>p \<noteq> NULL\<close> lf(6) [unfolded x_def] lf(10)])
    fix y assume y: "y \<in> set (arena_chunks a rs)" "y \<noteq> arena_current_chunk m a"
    obtain yb yn yo where "(y, yb, yn, yo) \<in> set (chunk_blocks a n0 rs)" using chunk_block_exists [OF y(1)] .
    from old(3) [OF this] show "chunk_next m3 y = chunk_next m y" using y(2) by (simp add: x_def)
  qed
  moreover have "set (chunk_blocks a n0 (rs @ [(p, n)])) = insert (p, p, n, 64) (set (chunk_blocks a n0 rs))"
    by (auto simp: chunk_blocks_def)
  then have "\<forall>(y, yb, yn, yo) \<in> set (chunk_blocks a n0 (rs @ [(p, n)])). chunk_rep m3 y yb yn yo"
    using old(1) lf(8) by auto
  moreover have "arena_first_chunk m3 a = a + 64" using lf(5) [of 8] rep by (simp add: arena_rep_def)
  ultimately show "arena_rep m3 a n0 (rs @ [(p, n)])"
    unfolding arena_rep_alt using lf(3) by (simp add: arena_chunks_def)
  have "chunk_live m3 y = chunk_live m y" if yc: "y \<in> set (arena_chunks a rs)" for y
  proof -
    obtain yb yn yo where "(y, yb, yn, yo) \<in> set (chunk_blocks a n0 rs)" using chunk_block_exists [OF yc] .
    then show ?thesis by (rule old(2))
  qed
  moreover have "chunk_live m3 p = {}" using lf(9) by (simp add: chunk_live_def area_def)
  moreover have "set (arena_chunks a (rs @ [(p, n)])) = insert p (set (arena_chunks a rs))" by (auto simp: arena_chunks_def)
  ultimately show "arena_live m3 a (rs @ [(p, n)]) = arena_live m a rs" by (simp add: arena_live_def)
  have "area x 8 \<subseteq> area x 64" by auto
  then have "area x 8 \<subseteq> arena_headers a rs" "area a 64 \<subseteq> arena_headers a rs"
    using xb(9) by (blast, auto simp: arena_headers_def)
  then show "agree m m3 (- (arena_headers a rs \<union> area p 64))" by (intro agree_subset [OF lf(1)]) blast
qed

end
