(* ===== verification/BC_Arena_Spec.thy ===== *)
theory BC_Arena_Spec
  imports BC_Arena_Alloc
begin

text \<open>
  Growth and allocation of an arena over the whole machine: the invariant, the ownership of the mappings, the
  bytes handed out before, and everything outside the arena.
\<close>

text \<open>What an arena operation leaves alone: other blocks, the pool region, the tag table and the struct.\<close>

definition arena_frame :: "mem \<Rightarrow> mem \<Rightarrow> bc_context \<Rightarrow> maps \<Rightarrow> bool" where
  "arena_frame m m' c bs \<longleftrightarrow> agree m m' (mapped_bytes (bs @ fixed_mappings c))"

lemma ctx_mappings_fixed: "mapped_bytes (fixed_mappings c) \<subseteq> mapped_bytes (ctx_mappings c)"
  by (auto simp: ctx_mappings_def fixed_mappings_def mapped_bytes_def simp del: in_area)

lemma world_new_block_disjoint:
  assumes "world E w c ((p, n) # bs)"
  shows "area p (unat n) \<inter> mapped_bytes (bs @ fixed_mappings c) = {}"
proof -
  have "maps_apart ((p, n) # bs @ ctx_mappings c)"
    using world_blocks(2) [OF assms] by (simp add: maps_ok_def)
  then have "area p (unat n) \<inter> mapped_bytes (bs @ ctx_mappings c) = {}" by (rule maps_apart_Cons_disjoint)
  then show ?thesis using ctx_mappings_fixed [of c] by (simp only: mapped_bytes_append) blast
qed

lemma world_mapped:
  assumes "world E w c bs"
  shows "mapped_bytes (bs @ fixed_mappings c) \<subseteq> mapped_bytes (mc_maps w)"
proof -
  have "mset (bs @ ctx_mappings c) \<subseteq># mset (mc_maps w)" using assms by (simp add: world_def add.commute)
  then have "mapped_bytes (bs @ ctx_mappings c) \<subseteq> mapped_bytes (mc_maps w)" by (rule mapped_bytes_subset)
  then show ?thesis using ctx_mappings_fixed [of c] by (simp only: mapped_bytes_append) blast
qed

lemma maps_apart_append_disjoint:
  "maps_apart (xs @ ys) \<Longrightarrow> mapped_bytes xs \<inter> mapped_bytes ys = {}"
proof (induction xs)
  case Nil
  then show ?case by (simp add: mapped_bytes_def)
next
  case (Cons e xs)
  obtain p n where e: "e = (p, n)" by fastforce
  have "area p (unat n) \<inter> mapped_bytes (xs @ ys) = {}"
    using Cons.prems e by (intro maps_apart_Cons_disjoint) simp
  moreover have "mapped_bytes xs \<inter> mapped_bytes ys = {}" using Cons.prems e by (intro Cons.IH) simp
  ultimately show ?case unfolding e mapped_bytes_Cons mapped_bytes_append by blast
qed

text \<open>Headers of one arena are away from the blocks of everybody else.\<close>

lemma headers_frame:
  assumes "arena_rep m a n0 rs" "world E w c ((a, n0) # rs @ bs)"
  shows "mapped_bytes ((a, n0) # rs) \<inter> mapped_bytes (bs @ fixed_mappings c) = {}"
    "arena_headers a rs \<inter> mapped_bytes (bs @ fixed_mappings c) = {}"
proof -
  have "maps_apart (((a, n0) # rs) @ bs @ ctx_mappings c)"
    using world_blocks(2) [OF assms(2)] by (simp add: maps_ok_def)
  then have "mapped_bytes ((a, n0) # rs) \<inter> mapped_bytes (bs @ ctx_mappings c) = {}"
    by (rule maps_apart_append_disjoint)
  then show d: "mapped_bytes ((a, n0) # rs) \<inter> mapped_bytes (bs @ fixed_mappings c) = {}"
    using ctx_mappings_fixed [of c] by (simp only: mapped_bytes_append) blast
  have "maps_ok E ((a, n0) # rs @ bs)" using world_blocks(1) [OF assms(2)] by simp
  then show "arena_headers a rs \<inter> mapped_bytes (bs @ fixed_mappings c) = {}"
    using arena_headers_mapped [OF assms(1)] d by blast
qed

section \<open>Growth\<close>

text \<open>What a successful growth leaves.\<close>

definition arena_grown :: "env \<Rightarrow> machine \<Rightarrow> bc_context \<Rightarrow> u64 \<Rightarrow> u64 \<Rightarrow> maps \<Rightarrow> maps \<Rightarrow> u64 \<Rightarrow> machine \<Rightarrow> bc_context \<Rightarrow> u64 \<Rightarrow> u64 \<Rightarrow> bool" where
  "arena_grown E w c a n0 rs bs mc w' c' p n \<longleftrightarrow> arena_inv E w' c' a n0 (rs @ [(p, n)]) bs
      \<and> arena_current_chunk (mc_mem w') a = p
      \<and> chunk_used (mc_mem w') p = 0 \<and> unat mc + 64 \<le> unat n
      \<and> arena_live (mc_mem w') a (rs @ [(p, n)]) = arena_live (mc_mem w) a rs
      \<and> agree (mc_mem w) (mc_mem w') (arena_live (mc_mem w) a rs)
      \<and> arena_frame (mc_mem w) (mc_mem w') c bs
      \<and> other_mappings w' c' ((a, n0) # (rs @ [(p, n)]) @ bs) = other_mappings w c ((a, n0) # rs @ bs)"

context bc_os
begin

lemma page_round_up:
  assumes "platform_get_page_size E = Some ps" "core_safe_add E k v = Some t" "core_align_up E t ps = Some n"
    "0 < unat k"
  shows "unat n = round_up (unat k + unat v) (unat ps)" "unat k + unat v \<le> unat n" "4096 \<le> unat n"
proof -
  obtain j where j: "12 \<le> j" "unat ps = 2 ^ j" using page_size_pow2 [OF assms(1)] by metis
  have t: "unat t = unat k + unat v"
    using assms(2) safe_add [of k v] by (auto simp: no_wrap split: if_splits)
  show n: "unat n = round_up (unat k + unat v) (unat ps)" using align_up_Some [OF j(2) assms(3)] t by simp
  then show ge: "unat k + unat v \<le> unat n" using round_up_ge [of "unat ps"] j(2) by simp
  have "unat ps dvd unat n" using n by simp
  then have "unat ps \<le> unat n" using ge assms(4) by (intro dvd_imp_le) auto
  moreover have "(2::nat) ^ 12 \<le> 2 ^ j" using j(1) by (intro power_increasing) auto
  ultimately show "4096 \<le> unat n" using j(2) by simp
qed

lemma new_chunk_grown:
  assumes inv: "arena_inv E w c a n0 rs bs" and mb: "arena_map_block E w c n = (Some p, w1, c1)"
    and n: "unat mc + 64 \<le> unat n" "4096 \<le> unat n"
  defines "m1 \<equiv> init_chunk (mc_mem w1) p n (n - 64) (p + 64)"
  defines "m3 \<equiv> store64 (store64 m1 (arena_current_chunk m1 a) p) (a + 16) p"
  shows "arena_grown E w c a n0 rs bs mc (w1\<lparr>mc_mem := m3\<rparr>) (track_mapped c1 n) p n"
proof -
  define m where "m = mc_mem w"
  have rep: "arena_rep m a n0 rs" and W: "world E w c ((a, n0) # rs @ bs)" using inv by (auto simp: arena_inv_def m_def)
  note mb0 = map_block_ok [OF W mb] and mb2 = map_block_ok(2) [OF W mb refl]
  have W0: "world E w1 c1 ((p, n) # (a, n0) # rs @ bs)" using mb2 by blast
  have W1: "world E w1 c1 ((a, n0) # (rs @ [(p, n)]) @ bs)"
    and oth: "other_mappings w1 c1 ((a, n0) # (rs @ [(p, n)]) @ bs) = other_mappings w c ((a, n0) # rs @ bs)"
    using mb2 world_perm [of "(p, n) # (a, n0) # rs @ bs" "(a, n0) # (rs @ [(p, n)]) @ bs"] by auto
  have ok0: "maps_ok E ((a, n0) # rs @ bs)" using world_blocks(1) [OF W] .
  have ok1: "maps_ok E ((a, n0) # (rs @ [(p, n)]) @ bs)" using world_blocks(1) [OF W1] .
  have ag: "agree m (mc_mem w1) (mapped_bytes (mc_maps w))" using mb2 by (simp add: m_def)
  have wm: "mapped_bytes (((a, n0) # rs @ bs) @ fixed_mappings c) \<subseteq> mapped_bytes (mc_maps w)" by (rule world_mapped [OF W])
  have own: "mapped_bytes ((a, n0) # rs) \<subseteq> mapped_bytes (mc_maps w)" using wm by auto
  have "arena_headers a rs \<subseteq> mapped_bytes (mc_maps w)" using arena_headers_mapped [OF rep ok0] own by blast
  note rc = arena_rep_cong [OF rep ok0 agree_subset [OF ag this]]
  have n64: "64 < unat n" using n(2) by simp
  note lk = arena_link [OF rc(1) ok1 n64, folded m1_def]
  have m3: "m3 = store64 (store64 m1 (arena_current_chunk (mc_mem w1) a) p) (a + 16) p" by (simp add: m3_def lk(1))
  note lk = lk [folded m3]
  have "area p (unat n) \<inter> mapped_bytes (((a, n0) # rs @ bs) @ fixed_mappings c) = {}"
    using world_new_block_disjoint [OF W0] unfolding mb0(9) .
  moreover have "area p 64 \<subseteq> area p (unat n)" using n64 by auto
  ultimately have pd: "area p 64 \<inter> mapped_bytes (((a, n0) # rs @ bs) @ fixed_mappings c) = {}" by blast
  have lv: "arena_live m a rs \<subseteq> mapped_bytes ((a, n0) # rs)" "arena_live m a rs \<inter> arena_headers a rs = {}"
    using live_outside_headers [OF rep ok0] by auto
  have "agree m (mc_mem w1) (arena_live m a rs)" using lv own by (intro agree_subset [OF ag]) blast
  moreover have "agree (mc_mem w1) m3 (arena_live m a rs)" using lv pd by (intro agree_subset [OF lk(5)]) auto
  ultimately have live: "agree m m3 (arena_live m a rs)" by (rule agree_trans)
  have "agree m (mc_mem w1) (mapped_bytes (bs @ fixed_mappings c))" using wm by (intro agree_subset [OF ag]) auto
  moreover have "arena_headers a rs \<inter> mapped_bytes (bs @ fixed_mappings c) = {}" by (rule headers_frame(2) [OF rep W])
  then have "agree (mc_mem w1) m3 (mapped_bytes (bs @ fixed_mappings c))" using pd by (intro agree_subset [OF lk(5)]) auto
  ultimately have "arena_frame m m3 c bs" unfolding arena_frame_def by (rule agree_trans)
  moreover have "arena_inv E (w1\<lparr>mc_mem := m3\<rparr>) (track_mapped c1 n) a n0 (rs @ [(p, n)]) bs"
    using W1 lk(2) by (simp add: arena_inv_def)
  moreover have "arena_current_chunk m3 a = p" by (simp add: m3_def)
  moreover have "arena_live m3 a (rs @ [(p, n)]) = arena_live m a rs" using lk(4) rc(2) by simp
  ultimately show ?thesis using n(1) oth lk(3) live unfolding arena_grown_def by (simp add: m_def)
qed

lemma arena_grow_ok:
  assumes inv: "arena_inv E w c a n0 rs bs" and run: "arena_grow E w c a mc = (ok, w', c')"
  shows "\<not> ok \<Longrightarrow> c' = c \<and> mc_mem w' = mc_mem w \<and> mc_maps w' = mc_maps w"
    and "ok \<Longrightarrow> \<exists>p n. arena_inv E w' c' a n0 (rs @ [(p, n)]) bs \<and> arena_current_chunk (mc_mem w') a = p
      \<and> chunk_used (mc_mem w') p = 0 \<and> unat mc + 64 \<le> unat n
      \<and> arena_live (mc_mem w') a (rs @ [(p, n)]) = arena_live (mc_mem w) a rs
      \<and> agree (mc_mem w) (mc_mem w') (arena_live (mc_mem w) a rs)
      \<and> arena_frame (mc_mem w) (mc_mem w') c bs
      \<and> other_mappings w' c' ((a, n0) # (rs @ [(p, n)]) @ bs) = other_mappings w c ((a, n0) # rs @ bs)"
    and "pool_view c' = pool_view c" "stat_view c' = stat_view c" "fixed_mappings c' = fixed_mappings c"
proof -
  define target where
    "target = grow_target (chunk_capacity (mc_mem w) (arena_current_chunk (mc_mem w) a)) (arena_max_chunk_size (mc_mem w) a) mc"
  have W: "world E w c ((a, n0) # rs @ bs)" using inv by (simp add: arena_inv_def)
  then have ps: "platform_get_page_size E = Some (cx_page_size c)" by (simp add: world_def)
  note run' = run [unfolded arena_grow_def Let_def, folded target_def]
  have "(\<not> ok \<longrightarrow> c' = c \<and> mc_mem w' = mc_mem w \<and> mc_maps w' = mc_maps w)
    \<and> (ok \<longrightarrow> (\<exists>p n. arena_grown E w c a n0 rs bs mc w' c' p n))
    \<and> pool_view c' = pool_view c \<and> stat_view c' = stat_view c \<and> fixed_mappings c' = fixed_mappings c" (is ?goal)
  proof (cases "\<exists>t n. core_safe_add E CHUNK_HEADER_ALIGNED target = Some t \<and> core_align_up E t (cx_page_size c) = Some n")
    case False
    then have "(ok, w', c') = (False, w, c)" using run' by (auto split: option.splits)
    then show ?goal by simp
  next
    case True
    then obtain t n where tn: "core_safe_add E CHUNK_HEADER_ALIGNED target = Some t"
      "core_align_up E t (cx_page_size c) = Some n" by blast
    have "0 < unat CHUNK_HEADER_ALIGNED" by (simp add: header_sizes)
    note sz = page_round_up [OF ps tn this]
    have "unat mc \<le> unat target" using grow_target_ge unfolding target_def by (simp add: word_le_nat_alt)
    then have mcn: "unat mc + 64 \<le> unat n" using sz(2) by (simp add: header_sizes)
    obtain r w1 c1 where mb: "arena_map_block E w c n = (r, w1, c1)" by (metis prod_cases3)
    note mbo = map_block_ok [OF W mb]
    show ?goal
    proof (cases r)
      case None
      then have "ok = False" "w' = w1" "c' = c1" using run' tn mb by simp_all
      then show ?goal using mbo(1) None by simp
    next
      case (Some p)
      note gr = new_chunk_grown [OF inv mb [unfolded Some] mcn sz(3)]
      have "ok" "c' = track_mapped c1 n" "\<exists>p n. arena_grown E w c a n0 rs bs mc w' c' p n"
        using run' tn mb Some gr by (auto simp: header_sizes)
      then show ?goal using mbo(3,4,9) by (auto simp: fixed_mappings_def)
    qed
  qed
  then show "\<not> ok \<Longrightarrow> c' = c \<and> mc_mem w' = mc_mem w \<and> mc_maps w' = mc_maps w"
    and "ok \<Longrightarrow> \<exists>p n. arena_inv E w' c' a n0 (rs @ [(p, n)]) bs \<and> arena_current_chunk (mc_mem w') a = p
      \<and> chunk_used (mc_mem w') p = 0 \<and> unat mc + 64 \<le> unat n
      \<and> arena_live (mc_mem w') a (rs @ [(p, n)]) = arena_live (mc_mem w) a rs
      \<and> agree (mc_mem w) (mc_mem w') (arena_live (mc_mem w) a rs)
      \<and> arena_frame (mc_mem w) (mc_mem w') c bs
      \<and> other_mappings w' c' ((a, n0) # (rs @ [(p, n)]) @ bs) = other_mappings w c ((a, n0) # rs @ bs)"
    and "pool_view c' = pool_view c" "stat_view c' = stat_view c" "fixed_mappings c' = fixed_mappings c"
    unfolding arena_grown_def by blast+
qed

end

end
