(* ===== verification/BC_Arena_Allocate.thy ===== *)
theory BC_Arena_Allocate
  imports BC_Arena_Spec
begin

text \<open>
  \<^verbatim>\<open>bc_allocators_arena_allocate\<close> as a whole. \<open>arena_kept\<close> is what every allocation keeps, granted or not:
  the invariant with the blocks \<open>rs'\<close>, the ownership of all other mappings, the bytes of everybody else and the bytes
  handed out before.
\<close>

definition arena_kept ::
  "env \<Rightarrow> u64 \<Rightarrow> u64 \<Rightarrow> maps \<Rightarrow> machine \<Rightarrow> bc_context \<Rightarrow> maps \<Rightarrow> machine \<Rightarrow> bc_context \<Rightarrow> maps \<Rightarrow> bool" where
  "arena_kept E a n0 bs w c rs w' c' rs' \<longleftrightarrow>
     arena_inv E w' c' a n0 rs' bs \<and>
     other_mappings w' c' ((a, n0) # rs' @ bs) = other_mappings w c ((a, n0) # rs @ bs) \<and>
     arena_frame (mc_mem w) (mc_mem w') c bs \<and>
     agree (mc_mem w) (mc_mem w') (arena_live (mc_mem w) a rs) \<and>
     pool_view c' = pool_view c \<and> stat_view c' = stat_view c \<and> fixed_mappings c' = fixed_mappings c"

lemma arena_kept_refl: "arena_inv E w c a n0 rs bs \<Longrightarrow> arena_kept E a n0 bs w c rs w c rs"
  by (simp add: arena_kept_def arena_frame_def)

lemma arena_invD:
  assumes "arena_inv E w c a n0 rs bs"
  shows "arena_rep (mc_mem w) a n0 rs" "world E w c ((a, n0) # rs @ bs)" "maps_ok E ((a, n0) # rs @ bs)"
  using assms world_blocks(1) by (auto simp: arena_inv_def)

text \<open>A write to the headers of the arena alone.\<close>

lemma arena_kept_write:
  assumes inv: "arena_inv E w c a n0 rs bs" and rep: "arena_rep m' a n0 rs"
    and out: "agree (mc_mem w) m' (- arena_headers a rs)"
  shows "arena_kept E a n0 bs w c rs (w\<lparr>mc_mem := m'\<rparr>) c rs"
proof -
  note d = arena_invD [OF inv]
  have "arena_frame (mc_mem w) m' c bs"
    unfolding arena_frame_def by (rule agree_off [OF out headers_frame(2) [OF d(1,2)]])
  moreover have "agree (mc_mem w) m' (arena_live (mc_mem w) a rs)"
    using live_outside_headers(1) [OF d(1,3)] by (intro agree_off [OF out]) blast
  ultimately show ?thesis using rep d(2) by (simp add: arena_kept_def arena_inv_def)
qed

text \<open>Whether the current chunk has room.\<close>

definition arena_fits :: "mem \<Rightarrow> u64 \<Rightarrow> u64 \<Rightarrow> u64 \<Rightarrow> bool" where
  "arena_fits m a sz al \<longleftrightarrow>
     (let x = arena_current_chunk m a
      in round_up (unat (chunk_memory_start m x) + unat (chunk_used m x)) (unat al) + unat sz
           \<le> unat (chunk_memory_start m x) + unat (chunk_capacity m x))"

context bc_core
begin

lemma arena_try_iff_fits:
  assumes rep: "arena_rep m a n0 rs" and ok: "maps_ok E' ((a, n0) # rs @ bs)" and al: "pow2 al"
  shows "fst (arena_try_alloc_in_chunk E m (arena_current_chunk m a) sz al) \<noteq> None \<longleftrightarrow> arena_fits m a sz al"
proof -
  obtain base n ov where t: "(arena_current_chunk m a, base, n, ov) \<in> set (chunk_blocks a n0 rs)"
    using current_chunk_block [OF rep] .
  note b = chunk_bounds [OF rep ok t] and l = chunk_live_block(3,4) [OF rep ok t]
  have top: "unat base + ov + (unat n - ov) = unat base + unat n" using b(5) by simp
  show ?thesis
    using try_alloc_eq [OF b(10,1,4) al, of sz] by (simp add: arena_fits_def Let_def l top)
qed

end

context bc_os
begin

lemma arena_allocate_cases:
  assumes inv: "arena_inv E w c a n0 rs bs" and run: "bc_allocators_arena_allocate E w c a sz al = (r, w', c')"
  obtains (refused) "sz = 0 \<or> \<not> pow2 al" "r = None" "w' = w" "c' = c"
  | (here) p m1 where "sz \<noteq> 0" "pow2 al" "arena_fits (mc_mem w) a sz al" "r = Some p" "c' = c"
      "arena_try_alloc_in_chunk E (mc_mem w) (arena_current_chunk (mc_mem w) a) sz al = (Some p, m1)"
      "w' = w\<lparr>mc_mem := count_allocation m1 a\<rparr>"
  | (full) "sz \<noteq> 0" "pow2 al" "\<not> arena_fits (mc_mem w) a sz al" "r = None" "w' = w" "c' = c"
      "\<not> arena_growable (mc_mem w) a"
  | (no_growth) "sz \<noteq> 0" "pow2 al" "\<not> arena_fits (mc_mem w) a sz al" "arena_growable (mc_mem w) a" "r = None"
      "arena_grow E w c a (sz + al) = (False, w', c')"
  | (grown) w2 where "sz \<noteq> 0" "pow2 al" "\<not> arena_fits (mc_mem w) a sz al" "arena_growable (mc_mem w) a"
      "arena_grow E w c a (sz + al) = (True, w2, c')"
      "(case arena_try_alloc_in_chunk E (mc_mem w2) (arena_current_chunk (mc_mem w2) a) sz al of
          (None, m3) \<Rightarrow> (None, w2\<lparr>mc_mem := m3\<rparr>)
        | (Some p, m3) \<Rightarrow> (Some p, w2\<lparr>mc_mem := count_allocation m3 a\<rparr>)) = (r, w')"
proof (cases "sz = 0 \<or> \<not> pow2 al")
  case True
  then have "(r, w', c') = (None, w, c)"
  proof (cases "sz = 0 \<or> al = 0")
    case False
    then have "al AND (al - 1) \<noteq> 0" using True pow2_test [of al] by blast
    then show ?thesis using run False unfolding bc_allocators_arena_allocate_def by simp
  qed (use run in \<open>simp add: bc_allocators_arena_allocate_def\<close>)
  then show thesis using refused True by simp
next
  case False
  then have ok: "sz \<noteq> 0" "pow2 al" and al0: "al \<noteq> 0" using pow2_pos [of al] by auto
  have tst: "al AND (al - 1) = 0" using pow2_test [OF al0] ok(2) by simp
  note d = arena_invD [OF inv]
  note ff = arena_try_iff_fits [OF d(1,3) ok(2), of sz]
  obtain r1 m1 where tr: "arena_try_alloc_in_chunk E (mc_mem w) (arena_current_chunk (mc_mem w) a) sz al = (r1, m1)"
    by fastforce
  have run1: "(case (r1, m1) of
          (Some p, m1) \<Rightarrow> (Some p, w\<lparr>mc_mem := count_allocation m1 a\<rparr>, c)
        | (None, m1) \<Rightarrow>
            if \<not> arena_growable m1 a then (None, w\<lparr>mc_mem := m1\<rparr>, c)
            else
              (case arena_grow E (w\<lparr>mc_mem := m1\<rparr>) c a (sz + al) of
                 (False, w2, c2) \<Rightarrow> (None, w2, c2)
               | (True, w2, c2) \<Rightarrow>
                   (case arena_try_alloc_in_chunk E (mc_mem w2) (arena_current_chunk (mc_mem w2) a) sz al of
                      (None, m3) \<Rightarrow> (None, w2\<lparr>mc_mem := m3\<rparr>, c2)
                    | (Some p, m3) \<Rightarrow> (Some p, w2\<lparr>mc_mem := count_allocation m3 a\<rparr>, c2)))) = (r, w', c')"
    using run ok(1) al0 tst unfolding bc_allocators_arena_allocate_def tr by simp
  show thesis
  proof (cases r1)
    case (Some p)
    then show thesis using here ok run1 tr ff by auto
  next
    case None
    have m1: "m1 = mc_mem w" using arena_try_None [OF d(1,3) ok(2)] tr None by simp
    have nf: "\<not> arena_fits (mc_mem w) a sz al" using ff tr None by simp
    have w: "w\<lparr>mc_mem := m1\<rparr> = w" by (simp add: m1)
    show thesis
    proof (cases "arena_growable (mc_mem w) a")
      case False
      then show thesis using full ok nf run1 None m1 w by simp
    next
      case True
      obtain g w2 c2 where gr: "arena_grow E w c a (sz + al) = (g, w2, c2)" by (metis prod_cases3)
      show thesis
      proof (cases g)
        case False
        then show thesis using no_growth ok nf True run1 None gr w by (simp add: m1)
      next
        case gg: True
        have "(case arena_try_alloc_in_chunk E (mc_mem w2) (arena_current_chunk (mc_mem w2) a) sz al of
            (None, m3) \<Rightarrow> (None, w2\<lparr>mc_mem := m3\<rparr>)
          | (Some p, m3) \<Rightarrow> (Some p, w2\<lparr>mc_mem := count_allocation m3 a\<rparr>)) = (r, w') \<and> c' = c2"
          using run1 None gr w True gg by (auto simp: m1 split: prod.splits option.splits)
        note x = this
        show thesis by (rule grown [OF ok nf True _ conjunct1 [OF x]]) (use gr gg x in simp)
      qed
    qed
  qed
qed

lemma arena_allocate_ok:
  assumes inv: "arena_inv E w c a n0 rs bs" and run: "bc_allocators_arena_allocate E w c a sz al = (r, w', c')"
  shows "\<exists>rs'. arena_kept E a n0 bs w c rs w' c' rs'
    \<and> (rs' = rs \<or> (arena_growable (mc_mem w) a \<and> (\<exists>e. rs' = rs @ [e])))
    \<and> (case r of None \<Rightarrow> arena_live (mc_mem w') a rs' = arena_live (mc_mem w) a rs
       | Some p \<Rightarrow> arena_grant (mc_mem w) a rs sz al p (mc_mem w') rs')"
  using inv run
proof (cases rule: arena_allocate_cases)
  case refused
  then show ?thesis using arena_kept_refl [OF inv] by auto
next
  case (here p m1)
  note d = arena_invD [OF inv]
  note bo = arena_bump_ok [OF d(1,3) here(2,6)]
  show ?thesis using arena_kept_write [OF inv bo(1,3)] bo(2) here by auto
next
  case full
  then show ?thesis using arena_kept_refl [OF inv] by auto
next
  case no_growth
  note g = arena_grow_ok [OF inv no_growth(6)]
  have "arena_inv E w' c' a n0 rs bs \<and> other_mappings w' c' ((a, n0) # rs @ bs) = other_mappings w c ((a, n0) # rs @ bs)"
    using g(1) inv by (simp add: arena_inv_def world_def other_mappings_def)
  then show ?thesis using g(1) no_growth(5) by (intro exI [of _ rs]) (simp add: arena_kept_def arena_frame_def)
next
  case (grown w2)
  note g = arena_grow_ok [OF inv grown(5)]
  obtain p n where pn: "arena_inv E w2 c' a n0 (rs @ [(p, n)]) bs"
    "arena_live (mc_mem w2) a (rs @ [(p, n)]) = arena_live (mc_mem w) a rs"
    "agree (mc_mem w) (mc_mem w2) (arena_live (mc_mem w) a rs)" "arena_frame (mc_mem w) (mc_mem w2) c bs"
    "other_mappings w2 c' ((a, n0) # (rs @ [(p, n)]) @ bs) = other_mappings w c ((a, n0) # rs @ bs)"
    using g(2) by blast
  define rs' where "rs' = rs @ [(p, n)]"
  have K: "arena_kept E a n0 bs w c rs w2 c' rs'"
    using pn g(3-5) by (simp add: arena_kept_def rs'_def)
  note d = arena_invD [OF pn(1), folded rs'_def]
  obtain r3 m3 where tr: "arena_try_alloc_in_chunk E (mc_mem w2) (arena_current_chunk (mc_mem w2) a) sz al = (r3, m3)"
    by fastforce
  show ?thesis
  proof (cases r3)
    case None
    have "m3 = mc_mem w2" using arena_try_None [OF d(1,3) grown(2)] tr None by simp
    then have "r = None" "w' = w2" using grown(6) tr None by simp_all
    then show ?thesis using K pn(2) grown(4) by (intro exI [of _ rs']) (auto simp: rs'_def)
  next
    case (Some q)
    have res: "r = Some q" "w' = w2\<lparr>mc_mem := count_allocation m3 a\<rparr>" using grown(6) tr Some by simp_all
    note bo = arena_bump_ok [OF d(1,3) grown(2) tr [unfolded Some]]
    have K2: "arena_kept E a n0 bs w2 c' rs' w' c' rs'"
      unfolding res(2) using pn(1) bo(1,3) by (intro arena_kept_write) (simp_all add: rs'_def)
    have lv: "arena_live (mc_mem w2) a rs' = arena_live (mc_mem w) a rs" using pn(2) by (simp add: rs'_def)
    have fx: "fixed_mappings c' = fixed_mappings c" using g(5) .
    have "arena_kept E a n0 bs w c rs w' c' rs'"
      using K K2 lv fx unfolding arena_kept_def arena_frame_def by (auto intro: agree_trans)
    moreover have "arena_grant (mc_mem w) a rs sz al q (mc_mem w') rs'"
      using bo(2) lv pn(3) unfolding arena_grant_def res(2) by (auto intro: agree_trans)
    ultimately show ?thesis using res(1) grown(4) by (intro exI [of _ rs']) (auto simp: rs'_def)
  qed
qed

end

end
