(* ===== verification/BC_Arena_Life.thy ===== *)
theory BC_Arena_Life
  imports BC_Arena_Allocate
begin

text \<open>
  The life of an arena around its allocations: creation, reset, destruction and the read-only walks. Every block the
  arena took is given back to the cache or to the system, exactly once, and the counters follow.
\<close>

section \<open>Arena statistics of the context\<close>

definition arena_view :: "bc_context \<Rightarrow> bool \<times> u64 \<times> u64 \<times> u64 \<times> u64 \<times> u64" where
  "arena_view c = (cx_tracking_enabled c, cx_arena_create_count c, cx_arena_destroy_count c,
     cx_arena_total_bytes c, cx_total_mapped_bytes c, cx_peak_mapped_bytes c)"

lemma arena_view_map_block: "arena_map_block E w c n = (r, w', c') \<Longrightarrow> arena_view c' = arena_view c"
  by (auto simp: arena_map_block_def arena_view_def split: option.splits prod.splits)

lemma arena_view_release: "arena_release_block E w c p n = (w', c') \<Longrightarrow> arena_view c' = arena_view c"
  by (auto simp: arena_release_block_def arena_view_def split: if_splits)

lemma track_mapped_totals:
  assumes "cx_tracking_enabled c"
  shows "cx_total_mapped_bytes (track_mapped c n) = cx_total_mapped_bytes c + n"
    "cx_total_mapped_bytes (track_mapped c n) \<le> cx_peak_mapped_bytes (track_mapped c n)"
  using assms by (simp_all add: track_mapped_def Let_def not_less)

section \<open>Creation\<close>

text \<open>The two headers in a new block: an arena with one empty chunk.\<close>

lemma first_block_headers:
  fixes m :: mem and a n s ini mx :: u64 and g :: bool
  assumes ab: "4096 \<le> unat a" "unat a + unat n \<le> 140737488355328" "4096 \<le> unat n"
  defines "m' \<equiv> init_arena (init_chunk m (a + 64) n (n - 128) (a + 128)) a s (a + 64) ini mx g"
  shows "arena_rep m' a n []" "arena_live m' a [] = {}" "arena_growable m' a = g" "arena_max_chunk_size m' a = mx"
    "arena_allocation_count m' a = 0" "agree m m' (- area a (unat n))"
proof -
  define m1 where "m1 = init_chunk m (a + 64) n (n - 128) (a + 128)"
  have m': "m' = init_arena m1 a s (a + 64) ini mx g" by (simp add: m'_def m1_def)
  have a64: "unat (a + 64) = unat a + 64" using ab by (simp add: no_wrap)
  have l1: "unat (a + 64) + 40 \<le> 18446744073709551616" "unat a + 56 \<le> 18446744073709551616" using a64 ab by simp_all
  note ic = init_chunk_fields [OF l1(1), of m n "n - 128" "a + 128", folded m1_def]
  note ia = init_arena_fields [OF l1(2), of m1 s "a + 64" ini mx g, folded m']
  have "area a 56 \<inter> area (a + 64) 64 = {}" using a64 by auto
  then have h2: "agree m1 m' (area (a + 64) 64)" by (rule agree_off [OF ia(6)])
  have "128 < unat n" using ab(3) by simp
  then have ci: "chunk_rep m1 (a + 64) a n 128" using ic(2-5) by (simp add: chunk_rep_def)
  have l2: "unat (a + 64) + 64 \<le> 18446744073709551616" using a64 ab by simp
  note cc = chunk_rep_cong [OF ci h2 l2]
  have live0: "chunk_live m1 (a + 64) = {}" using ic(4) by (simp add: chunk_live_def area_def)
  have "a + 64 \<noteq> NULL" using a64 by auto
  then show "arena_rep m' a n []" using ia(1,2) cc(1,3) ic(1) by (simp add: arena_rep_def arena_chunks_def)
  show "arena_live m' a [] = {}" using cc(2) live0 by (simp add: arena_live_def arena_chunks_def)
  show "arena_growable m' a = g" "arena_max_chunk_size m' a = mx" "arena_allocation_count m' a = 0"
    using ia(3-5) by simp_all
  show "agree m m' (- area a (unat n))"
  proof (rule agree_trans)
    show "agree m m1 (- area a (unat n))" by (rule agree_subset [OF ic(6)]) (use a64 ab(3) in auto)
    show "agree m1 m' (- area a (unat n))" by (rule agree_subset [OF ia(6)]) (use ab(3) in auto)
  qed
qed

text \<open>What a granted creation leaves.\<close>

definition arena_started :: "env \<Rightarrow> machine \<Rightarrow> bc_context \<Rightarrow> maps \<Rightarrow> u64 \<Rightarrow> u64 \<Rightarrow> bool \<Rightarrow> machine \<Rightarrow> bc_context \<Rightarrow> u64 \<Rightarrow> u64 \<Rightarrow> bool" where
  "arena_started E w c bs cap mx g w' c' a n0 \<longleftrightarrow> arena_inv E w' c' a n0 [] bs \<and> cap \<noteq> 0
      \<and> unat n0 = round_up (128 + unat cap) (pool_page c)
      \<and> arena_live (mc_mem w') a [] = {} \<and> arena_growable (mc_mem w') a = g
      \<and> arena_max_chunk_size (mc_mem w') a = mx \<and> arena_allocation_count (mc_mem w') a = 0
      \<and> arena_frame (mc_mem w) (mc_mem w') c bs
      \<and> other_mappings w' c' ((a, n0) # bs) = other_mappings w c bs
      \<and> (cx_tracking_enabled c \<longrightarrow> cx_arena_create_count c' = cx_arena_create_count c + 1
            \<and> cx_total_mapped_bytes c' = cx_total_mapped_bytes c + n0
            \<and> cx_total_mapped_bytes c' \<le> cx_peak_mapped_bytes c')"

context bc_os
begin

lemma first_block_started:
  fixes ini mx n :: u64 and g :: bool
  assumes W: "world E w c bs" and mb: "arena_map_block E w c n = (Some a, w1, c1)"
    and n: "cap \<noteq> 0" "unat n = round_up (128 + unat cap) (pool_page c)" "4096 \<le> unat n"
  defines "m2 \<equiv> init_arena (init_chunk (mc_mem w1) (a + 64) n (n - 128) (a + 128)) a (cx_self c1) (a + 64) ini mx g"
  defines "c2 \<equiv> (if cx_tracking_enabled c1 then c1\<lparr>cx_arena_create_count := cx_arena_create_count c1 + 1\<rparr> else c1)"
  shows "arena_started E w c bs cap mx g (w1\<lparr>mc_mem := m2\<rparr>) (track_mapped c2 n) a n"
    "pool_view (track_mapped c2 n) = pool_view c" "stat_view (track_mapped c2 n) = stat_view c"
    "fixed_mappings (track_mapped c2 n) = fixed_mappings c"
proof -
  note mb0 = map_block_ok [OF W mb] and mb2 = map_block_ok(2) [OF W mb refl]
  have W1: "world E w1 c1 ((a, n) # bs)" using mb2 by simp
  have ok1: "maps_ok E ((a, n) # [] @ bs)" using world_blocks(1) [OF W1] by simp
  have ab: "4096 \<le> unat a" "unat a + unat n \<le> 140737488355328" using block_bounds [OF ok1, of a n] by auto
  note fh = first_block_headers [OF ab n(3), of "mc_mem w1" "cx_self c1" ini mx g, folded m2_def]
  have fx: "fixed_mappings c1 = fixed_mappings c" by (rule mb0(9))
  have c2: "ctx_mappings c2 = ctx_mappings c1" "pool_view c2 = pool_view c1" "stat_view c2 = stat_view c1"
    "fixed_mappings c2 = fixed_mappings c1"
    by (simp_all add: c2_def ctx_mappings_def pool_view_def stat_view_def fixed_mappings_def)
  then show "pool_view (track_mapped c2 n) = pool_view c" "stat_view (track_mapped c2 n) = stat_view c"
    using mb0(3,4) by simp_all
  show "fixed_mappings (track_mapped c2 n) = fixed_mappings c" using c2(4) fx by (simp add: fixed_mappings_def)
  have cm: "ctx_mappings (track_mapped c2 n) = ctx_mappings c1" using c2(1) by (simp add: ctx_mappings_def)
  have inv: "arena_inv E (w1\<lparr>mc_mem := m2\<rparr>) (track_mapped c2 n) a n [] bs"
    using fh(1) W1 by (simp add: arena_inv_def c2_def world_def ctx_mappings_def)
  have "arena_frame (mc_mem w) m2 c bs"
    unfolding arena_frame_def
  proof (rule agree_trans)
    show "agree (mc_mem w) (mc_mem w1) (mapped_bytes (bs @ fixed_mappings c))"
      by (rule agree_subset [OF _ world_mapped [OF W]]) (use mb2 in blast)
    have "area a (unat n) \<inter> mapped_bytes (bs @ fixed_mappings c) = {}"
      using world_new_block_disjoint [OF W1] unfolding fx .
    then show "agree (mc_mem w1) m2 (mapped_bytes (bs @ fixed_mappings c))" by (rule agree_off [OF fh(6)])
  qed
  moreover have "other_mappings (w1\<lparr>mc_mem := m2\<rparr>) (track_mapped c2 n) ((a, n) # bs) = other_mappings w c bs"
    using mb2 cm by (simp add: other_mappings_def)
  moreover have "cx_arena_create_count (track_mapped c2 n) = cx_arena_create_count c + 1"
    "cx_total_mapped_bytes (track_mapped c2 n) = cx_total_mapped_bytes c + n"
    "cx_total_mapped_bytes c + n \<le> cx_peak_mapped_bytes (track_mapped c2 n)" if tr: "cx_tracking_enabled c"
    using arena_view_map_block [OF mb] tr track_mapped_totals [of c2 n] by (simp_all add: arena_view_def c2_def)
  ultimately show "arena_started E w c bs cap mx g (w1\<lparr>mc_mem := m2\<rparr>) (track_mapped c2 n) a n"
    unfolding arena_started_def using n inv fh(2-5) by simp
qed

lemma make_first_ok:
  assumes W: "world E w c bs" and run: "arena_make_first E w c cap ini mx g = (r, w', c')"
  shows "r = None \<Longrightarrow> c' = c \<and> mc_mem w' = mc_mem w \<and> mc_maps w' = mc_maps w"
    and "r = Some a \<Longrightarrow> \<exists>n0. arena_inv E w' c' a n0 [] bs \<and> cap \<noteq> 0
      \<and> unat n0 = round_up (128 + unat cap) (pool_page c)
      \<and> arena_live (mc_mem w') a [] = {} \<and> arena_growable (mc_mem w') a = g
      \<and> arena_max_chunk_size (mc_mem w') a = mx \<and> arena_allocation_count (mc_mem w') a = 0
      \<and> arena_frame (mc_mem w) (mc_mem w') c bs
      \<and> other_mappings w' c' ((a, n0) # bs) = other_mappings w c bs
      \<and> (cx_tracking_enabled c \<longrightarrow> cx_arena_create_count c' = cx_arena_create_count c + 1
            \<and> cx_total_mapped_bytes c' = cx_total_mapped_bytes c + n0
            \<and> cx_total_mapped_bytes c' \<le> cx_peak_mapped_bytes c')"
    and "pool_view c' = pool_view c" "stat_view c' = stat_view c" "fixed_mappings c' = fixed_mappings c"
proof -
  have ps: "platform_get_page_size E = Some (cx_page_size c)" using W by (simp add: world_def)
  note run' = run [unfolded arena_make_first_def Let_def]
  have "(r = None \<longrightarrow> c' = c \<and> mc_mem w' = mc_mem w \<and> mc_maps w' = mc_maps w)
    \<and> (\<forall>a. r = Some a \<longrightarrow> (\<exists>n0. arena_started E w c bs cap mx g w' c' a n0))
    \<and> pool_view c' = pool_view c \<and> stat_view c' = stat_view c \<and> fixed_mappings c' = fixed_mappings c" (is ?goal)
  proof (cases "cap \<noteq> 0 \<and> (\<exists>t n. core_safe_add E (ARENA_HEADER_ALIGNED + CHUNK_HEADER_ALIGNED) cap = Some t
      \<and> core_align_up E t (cx_page_size c) = Some n)")
    case False
    then have "(r, w', c') = (None, w, c)" using run' by (auto split: option.splits)
    then show ?goal by simp
  next
    case True
    then obtain t n where tn: "core_safe_add E (ARENA_HEADER_ALIGNED + CHUNK_HEADER_ALIGNED) cap = Some t"
      "core_align_up E t (cx_page_size c) = Some n" and cap: "cap \<noteq> 0" by blast
    have oh: "unat (ARENA_HEADER_ALIGNED + CHUNK_HEADER_ALIGNED) = 128" by (simp add: header_sizes)
    then have "0 < unat (ARENA_HEADER_ALIGNED + CHUNK_HEADER_ALIGNED)" by simp
    note sz = page_round_up [OF ps tn this, unfolded oh]
    obtain r1 w1 c1 where mb: "arena_map_block E w c n = (r1, w1, c1)" by (metis prod_cases3)
    show ?goal
    proof (cases r1)
      case None
      then have "r = None" "w' = w1" "c' = c1" using run' tn mb cap by simp_all
      then show ?goal using map_block_ok [OF W mb] None by simp
    next
      case (Some a)
      note fs = first_block_started [OF W mb [unfolded Some] cap sz(1,3)]
      show ?goal
        using run' tn mb Some cap fs by (auto simp: header_sizes add.assoc)
    qed
  qed
  then show "r = None \<Longrightarrow> c' = c \<and> mc_mem w' = mc_mem w \<and> mc_maps w' = mc_maps w"
    and "r = Some a \<Longrightarrow> \<exists>n0. arena_inv E w' c' a n0 [] bs \<and> cap \<noteq> 0
      \<and> unat n0 = round_up (128 + unat cap) (pool_page c)
      \<and> arena_live (mc_mem w') a [] = {} \<and> arena_growable (mc_mem w') a = g
      \<and> arena_max_chunk_size (mc_mem w') a = mx \<and> arena_allocation_count (mc_mem w') a = 0
      \<and> arena_frame (mc_mem w) (mc_mem w') c bs
      \<and> other_mappings w' c' ((a, n0) # bs) = other_mappings w c bs
      \<and> (cx_tracking_enabled c \<longrightarrow> cx_arena_create_count c' = cx_arena_create_count c + 1
            \<and> cx_total_mapped_bytes c' = cx_total_mapped_bytes c + n0
            \<and> cx_total_mapped_bytes c' \<le> cx_peak_mapped_bytes c')"
    and "pool_view c' = pool_view c" "stat_view c' = stat_view c" "fixed_mappings c' = fixed_mappings c"
    unfolding arena_started_def by blast+
qed

section \<open>Giving the grown chunks back\<close>

lemma release_chunks_ok:
  assumes "chain (mc_mem w) 0 h (map fst rs)" "\<forall>(x, n) \<in> set rs. chunk_mmap_size (mc_mem w) x = n"
    and "world E w c (rs @ bs)"
  shows "\<exists>w' c'. release_chunks E h w c = Some (w', c') \<and> world E w' c' bs \<and> mc_mem w' = mc_mem w
    \<and> other_mappings w' c' bs = other_mappings w c (rs @ bs)
    \<and> pool_view c' = pool_view c \<and> stat_view c' = stat_view c \<and> fixed_mappings c' = fixed_mappings c
    \<and> cx_tracking_enabled c' = cx_tracking_enabled c
    \<and> cx_arena_create_count c' = cx_arena_create_count c \<and> cx_arena_destroy_count c' = cx_arena_destroy_count c
    \<and> (cx_tracking_enabled c \<longrightarrow> cx_total_mapped_bytes c' = cx_total_mapped_bytes c - sum_list (map snd rs))"
  using assms
proof (induction rs arbitrary: h w c)
  case Nil
  then show ?case by (simp add: release_chunks.simps)
next
  case (Cons e rs)
  obtain x n where e: "e = (x, n)" by fastforce
  have h: "h = x" "x \<noteq> NULL" "chain (mc_mem w) 0 (chunk_next (mc_mem w) x) (map fst rs)"
    using Cons.prems(1) e by auto
  have sz: "chunk_mmap_size (mc_mem w) x = n" using Cons.prems(2) e by auto
  obtain w1 c1 where rl: "arena_release_block E w (track_unmapped c n) x n = (w1, c1)" by fastforce
  have W: "world E w (track_unmapped c n) ((x, n) # rs @ bs)" using Cons.prems(3) e by simp
  note ro = release_block_ok [OF W rl]
  have av: "arena_view c1 = arena_view (track_unmapped c n)" by (rule arena_view_release [OF rl])
  have step: "release_chunks E h w c = release_chunks E (chunk_next (mc_mem w) x) w1 c1"
    using h sz rl by (subst release_chunks.simps) simp
  have "chain (mc_mem w1) 0 (chunk_next (mc_mem w) x) (map fst rs)"
    "\<forall>(x, n) \<in> set rs. chunk_mmap_size (mc_mem w1) x = n"
    using h(3) ro(3) Cons.prems(2) by auto
  from Cons.IH [OF this ro(1)] obtain w' c' where ih: "release_chunks E (chunk_next (mc_mem w) x) w1 c1 = Some (w', c')"
    "world E w' c' bs" "mc_mem w' = mc_mem w1" "other_mappings w' c' bs = other_mappings w1 c1 (rs @ bs)"
    "pool_view c' = pool_view c1" "stat_view c' = stat_view c1" "fixed_mappings c' = fixed_mappings c1"
    "cx_tracking_enabled c' = cx_tracking_enabled c1"
    "cx_arena_create_count c' = cx_arena_create_count c1" "cx_arena_destroy_count c' = cx_arena_destroy_count c1"
    "cx_tracking_enabled c1 \<longrightarrow> cx_total_mapped_bytes c' = cx_total_mapped_bytes c1 - sum_list (map snd rs)"
    by blast
  have tu: "cx_tracking_enabled c \<Longrightarrow> cx_total_mapped_bytes (track_unmapped c n) = cx_total_mapped_bytes c - n"
    by (simp add: track_unmapped_def)
  have fx: "fixed_mappings (track_unmapped c n) = fixed_mappings c" by (simp add: fixed_mappings_def)
  have av': "cx_tracking_enabled c1 = cx_tracking_enabled c" "cx_arena_create_count c1 = cx_arena_create_count c"
    "cx_arena_destroy_count c1 = cx_arena_destroy_count c"
    "cx_total_mapped_bytes c1 = cx_total_mapped_bytes (track_unmapped c n)"
    using av by (simp_all add: arena_view_def)
  have "other_mappings w1 c1 (rs @ bs) = other_mappings w c (e # rs @ bs)" using ro(2) by (simp add: e)
  then show ?case
    using ih ro(3-5,9) av' tu step fx by (simp add: e diff_diff_add)
qed

end

end
