(* ===== verification/BC_Arena_Reset.thy ===== *)
theory BC_Arena_Reset
  imports BC_Arena_Life
begin

text \<open>
  Destroying and resetting an arena. Both give every grown block back, once; \<^verbatim>\<open>destroy\<close> also gives the first block
  back, \<^verbatim>\<open>reset\<close> keeps it as an empty arena.
\<close>

lemma arena_rep_first_next:
  assumes "arena_rep m a n0 rs"
  shows "arena_first_chunk m a = a + 64" "chunk_mmap_size m (a + 64) = n0"
    "chain m 0 (chunk_next m (a + 64)) (map fst rs)" "\<forall>(x, n) \<in> set rs. chunk_mmap_size m x = n"
  using assms by (auto simp: arena_rep_def arena_chunks_def chunk_rep_def)

context bc_os
begin

lemma release_tail:
  assumes inv: "arena_inv E w c a n0 rs bs"
  obtains w1 c1 where "release_chunks E (chunk_next (mc_mem w) (arena_first_chunk (mc_mem w) a)) w c = Some (w1, c1)"
    "world E w1 c1 ((a, n0) # bs)" "mc_mem w1 = mc_mem w"
    "other_mappings w1 c1 ((a, n0) # bs) = other_mappings w c ((a, n0) # rs @ bs)"
    "pool_view c1 = pool_view c" "stat_view c1 = stat_view c" "fixed_mappings c1 = fixed_mappings c"
    "cx_tracking_enabled c1 = cx_tracking_enabled c"
    "cx_arena_create_count c1 = cx_arena_create_count c" "cx_arena_destroy_count c1 = cx_arena_destroy_count c"
    "cx_tracking_enabled c \<longrightarrow> cx_total_mapped_bytes c1 = cx_total_mapped_bytes c - sum_list (map snd rs)"
proof -
  note d = arena_invD [OF inv]
  note f = arena_rep_first_next [OF d(1)]
  have p: "mset ((a, n0) # rs @ bs) = mset (rs @ (a, n0) # bs)" by simp
  have W: "world E w c (rs @ (a, n0) # bs)" using d(2) world_perm(1) [OF p] by simp
  obtain w1 c1 where r: "release_chunks E (chunk_next (mc_mem w) (a + 64)) w c = Some (w1, c1)"
    "world E w1 c1 ((a, n0) # bs)" "mc_mem w1 = mc_mem w"
    "other_mappings w1 c1 ((a, n0) # bs) = other_mappings w c (rs @ (a, n0) # bs)"
    "pool_view c1 = pool_view c" "stat_view c1 = stat_view c" "fixed_mappings c1 = fixed_mappings c"
    "cx_tracking_enabled c1 = cx_tracking_enabled c"
    "cx_arena_create_count c1 = cx_arena_create_count c" "cx_arena_destroy_count c1 = cx_arena_destroy_count c"
    "cx_tracking_enabled c \<longrightarrow> cx_total_mapped_bytes c1 = cx_total_mapped_bytes c - sum_list (map snd rs)"
    using release_chunks_ok [OF f(3,4) W] by blast
  show thesis
    by (rule that [OF _ r(2,3) _ r(5-11)]) (use r(1,4) f(1) world_perm(2) [OF p] in simp_all)
qed

theorem arena_destroy_ok:
  assumes inv: "arena_inv E w c a n0 rs bs"
  shows "\<exists>w' c'. bc_allocators_arena_destroy E w c a = Some (w', c') \<and> world E w' c' bs \<and> mc_mem w' = mc_mem w
    \<and> other_mappings w' c' bs = other_mappings w c ((a, n0) # rs @ bs)
    \<and> pool_view c' = pool_view c \<and> stat_view c' = stat_view c \<and> fixed_mappings c' = fixed_mappings c
    \<and> (cx_tracking_enabled c \<longrightarrow> cx_arena_create_count c' = cx_arena_create_count c
        \<and> cx_arena_destroy_count c' = cx_arena_destroy_count c + 1
        \<and> cx_total_mapped_bytes c' = cx_total_mapped_bytes c - sum_list (map snd ((a, n0) # rs)))"
proof -
  note d = arena_invD [OF inv]
  note f = arena_rep_first_next [OF d(1)]
  obtain w1 c1 where r: "release_chunks E (chunk_next (mc_mem w) (arena_first_chunk (mc_mem w) a)) w c = Some (w1, c1)"
    and W1: "world E w1 c1 ((a, n0) # bs)" and m1: "mc_mem w1 = mc_mem w"
    and o1: "other_mappings w1 c1 ((a, n0) # bs) = other_mappings w c ((a, n0) # rs @ bs)"
    and v1: "pool_view c1 = pool_view c" "stat_view c1 = stat_view c" "fixed_mappings c1 = fixed_mappings c"
    and s1: "cx_tracking_enabled c1 = cx_tracking_enabled c"
      "cx_arena_create_count c1 = cx_arena_create_count c" "cx_arena_destroy_count c1 = cx_arena_destroy_count c"
      "cx_tracking_enabled c \<longrightarrow> cx_total_mapped_bytes c1 = cx_total_mapped_bytes c - sum_list (map snd rs)"
    by (rule release_tail [OF inv])
  define c2 where "c2 = (if cx_tracking_enabled c1
      then c1\<lparr>cx_arena_destroy_count := cx_arena_destroy_count c1 + 1\<rparr> else c1)"
  have c2: "ctx_mappings c2 = ctx_mappings c1" "pool_view c2 = pool_view c1" "stat_view c2 = stat_view c1"
    "fixed_mappings c2 = fixed_mappings c1"
    by (simp_all add: c2_def ctx_mappings_def pool_view_def stat_view_def fixed_mappings_def)
  obtain w' c' where rl: "arena_release_block E w1 (track_unmapped c2 n0) a n0 = (w', c')" by fastforce
  have run: "bc_allocators_arena_destroy E w c a = Some (w', c')"
    using r rl m1 f(1,2) unfolding bc_allocators_arena_destroy_def c2_def by (simp add: Let_def)
  have Wc2: "world E w1 c2 ((a, n0) # bs)" using W1 c2(1) by (simp add: world_def c2_def)
  have W2: "world E w1 (track_unmapped c2 n0) ((a, n0) # bs)" using Wc2 by simp
  note ro = release_block_ok [OF W2 rl]
  have "other_mappings w' c' bs = other_mappings w1 c2 ((a, n0) # bs)" using ro(2) by simp
  also have "\<dots> = other_mappings w1 c1 ((a, n0) # bs)" using c2(1) by (simp add: other_mappings_def)
  finally have o2: "other_mappings w' c' bs = other_mappings w1 c1 ((a, n0) # bs)" .
  have av: "arena_view c' = arena_view (track_unmapped c2 n0)" by (rule arena_view_release [OF rl])
  have fx: "fixed_mappings (track_unmapped c2 n0) = fixed_mappings c2" by (simp add: fixed_mappings_def)
  have cnt: "cx_tracking_enabled c \<longrightarrow> cx_arena_create_count c' = cx_arena_create_count c
        \<and> cx_arena_destroy_count c' = cx_arena_destroy_count c + 1
        \<and> cx_total_mapped_bytes c' = cx_total_mapped_bytes c - sum_list (map snd ((a, n0) # rs))"
    using av s1 by (auto simp: arena_view_def c2_def track_unmapped_def)
  show ?thesis using run ro(1,3-5,9) o1 o2 m1 v1 c2 fx cnt by simp
qed

text \<open>Reset: the memory written is the headers of the first block.\<close>

lemma arena_reset_writes:
  assumes rep: "arena_rep m a n0 rs" and ok: "maps_ok E ((a, n0) # rs @ bs)"
  defines "m4 \<equiv> store64 (store64 (store64 (store64 m (a + 64) NULL) (a + 64 + 24) 0) (a + 16) (a + 64)) (a + 24) 0"
  shows "arena_rep m4 a n0 []" "arena_live m4 a [] = {}" "arena_allocation_count m4 a = 0"
    "arena_growable m4 a = arena_growable m a" "arena_max_chunk_size m4 a = arena_max_chunk_size m a"
    "agree m m4 (- area a 128)"
    "arena_first_chunk m a = a + 64" "arena_first_chunk (store64 m (a + 64) NULL) a = a + 64"
    "arena_first_chunk (store64 (store64 m (a + 64) NULL) (a + 64 + 24) 0) a = a + 64"
proof -
  note b = arena_bounds [OF rep ok]
  have al: "unat a + 128 \<le> 18446744073709551616" using b(3,5) by simp
  have off: "a + 64 + 24 = a + 88" "a + 64 + 8 = a + 72" "a + 64 + 16 = a + 80" "a + 64 + 32 = a + 96"
    by (simp_all add: add.assoc)
  have r: "arena_first_chunk m a = a + 64" "chunk_rep m (a + 64) a n0 128" using rep by (auto simp: arena_rep_def)
  show "arena_first_chunk m a = a + 64" "arena_first_chunk (store64 m (a + 64) NULL) a = a + 64"
    "arena_first_chunk (store64 (store64 m (a + 64) NULL) (a + 64 + 24) 0) a = a + 64"
    using r(1) al by (simp_all add: off field_other)
  have k: "load64 m4 (a + j) = load64 m (a + j)"
    if "unat j + 8 \<le> 128" "unat j + 8 \<le> 16 \<or> 32 \<le> unat j" "unat j + 8 \<le> 64 \<or> 72 \<le> unat j"
      "unat j + 8 \<le> 88 \<or> 96 \<le> unat j" for j
    unfolding m4_def off using al that by (elim disjE) (simp_all add: field_other)
  have n: "load64 m4 (a + 64) = NULL" "load64 m4 (a + 88) = 0" "arena_current_chunk m4 a = a + 64"
    "arena_allocation_count m4 a = 0"
    unfolding m4_def off using al by (simp_all add: field_other)
  show "arena_allocation_count m4 a = 0" by (rule n(4))
  have "a + 64 \<noteq> NULL" using b(1) by (metis add_is_0 unat_0 zero_neq_numeral)
  then show "arena_rep m4 a n0 []"
    using r n k [of 8] k [of 72] k [of 80] k [of 96]
    by (simp add: arena_rep_def arena_chunks_def chunk_rep_def off)
  show "arena_live m4 a [] = {}" using n(2) by (simp add: arena_live_def arena_chunks_def chunk_live_def off area_def)
  show "arena_max_chunk_size m4 a = arena_max_chunk_size m a" using k [of 40] by simp
  have f: "agree m' (store64 m' (a + i) v) (- area a 128)" if "unat i + 8 \<le> 128" for m' i v
    using agree_field [of a 128 i] al that by simp
  show "agree m m4 (- area a 128)"
    unfolding m4_def off by (intro agree_trans [OF _ f] f) simp_all
  have a48: "unat (a + 48) = unat a + 48" using al by (simp add: no_wrap)
  have "m4 (a + 48) = m (a + 48)"
    unfolding m4_def off using al a48 by (simp add: store64_other no_wrap)
  then show "arena_growable m4 a = arena_growable m a" by simp
qed

theorem arena_reset_ok:
  assumes inv: "arena_inv E w c a n0 rs bs"
  shows "\<exists>w' c'. bc_allocators_arena_reset E w c a = Some (w', c') \<and> arena_inv E w' c' a n0 [] bs
    \<and> arena_live (mc_mem w') a [] = {} \<and> arena_allocation_count (mc_mem w') a = 0
    \<and> arena_growable (mc_mem w') a = arena_growable (mc_mem w) a
    \<and> arena_max_chunk_size (mc_mem w') a = arena_max_chunk_size (mc_mem w) a
    \<and> agree (mc_mem w) (mc_mem w') (- area a 128) \<and> arena_frame (mc_mem w) (mc_mem w') c bs
    \<and> other_mappings w' c' ((a, n0) # bs) = other_mappings w c ((a, n0) # rs @ bs)
    \<and> pool_view c' = pool_view c \<and> stat_view c' = stat_view c \<and> fixed_mappings c' = fixed_mappings c
    \<and> (cx_tracking_enabled c \<longrightarrow> cx_arena_create_count c' = cx_arena_create_count c
        \<and> cx_arena_destroy_count c' = cx_arena_destroy_count c
        \<and> cx_total_mapped_bytes c' = cx_total_mapped_bytes c - sum_list (map snd rs))"
proof -
  note d = arena_invD [OF inv]
  obtain w1 c1 where r: "release_chunks E (chunk_next (mc_mem w) (arena_first_chunk (mc_mem w) a)) w c = Some (w1, c1)"
    and W1: "world E w1 c1 ((a, n0) # bs)" and m1: "mc_mem w1 = mc_mem w"
    and o1: "other_mappings w1 c1 ((a, n0) # bs) = other_mappings w c ((a, n0) # rs @ bs)"
    and v1: "pool_view c1 = pool_view c" "stat_view c1 = stat_view c" "fixed_mappings c1 = fixed_mappings c"
    and s1: "cx_tracking_enabled c1 = cx_tracking_enabled c"
      "cx_arena_create_count c1 = cx_arena_create_count c" "cx_arena_destroy_count c1 = cx_arena_destroy_count c"
      "cx_tracking_enabled c \<longrightarrow> cx_total_mapped_bytes c1 = cx_total_mapped_bytes c - sum_list (map snd rs)"
    by (rule release_tail [OF inv])
  define m4 where "m4 = store64 (store64 (store64 (store64 (mc_mem w) (a + 64) NULL) (a + 64 + 24) 0)
      (a + 16) (a + 64)) (a + 24) 0"
  note rw = arena_reset_writes [OF d(1,3), folded m4_def]
  have run: "bc_allocators_arena_reset E w c a = Some (w1\<lparr>mc_mem := m4\<rparr>, c1)"
    using r m1 rw(7-9) unfolding bc_allocators_arena_reset_def m4_def by (simp add: Let_def)
  have "arena_inv E (w1\<lparr>mc_mem := m4\<rparr>) c1 a n0 [] bs" using rw(1) W1 by (simp add: arena_inv_def)
  moreover have "arena_frame (mc_mem w) m4 c bs"
    unfolding arena_frame_def
  proof (rule agree_off [OF rw(6)])
    have "area a 128 \<subseteq> arena_headers a rs" by (auto simp: arena_headers_def)
    then show "area a 128 \<inter> mapped_bytes (bs @ fixed_mappings c) = {}" using headers_frame(2) [OF d(1,2)] by blast
  qed
  ultimately show ?thesis using run rw(2-6) o1 v1 s1 by simp
qed

end

end
