(* ===== verification/BC_Arena_Stats.thy ===== *)
theory BC_Arena_Stats
  imports BC_Arena_Reset
begin

text \<open>
  What \<^verbatim>\<open>bc_allocators_arena_get_stats\<close> reports, as cardinalities: the reserved bytes are the mapped bytes of the
  arena, the used bytes are the bytes handed out (with their alignment padding), and no sum wraps.
\<close>

section \<open>Counting bytes\<close>

lemma card_area:
  assumes "unat p + n \<le> 18446744073709551616"
  shows "finite (area p n)" "card (area p n) = n"
proof -
  have im: "unat ` area p n = {unat p ..< unat p + n}"
  proof (intro set_eqI iffI)
    fix v assume "v \<in> {unat p ..< unat p + n}"
    then have "unat (of_nat v :: u64) = v" "of_nat v \<in> area p n" using assms by (auto simp: unat_of_nat_no_wrap)
    then show "v \<in> unat ` area p n" by (metis imageI)
  qed auto
  have inj: "inj_on unat (area p n)" by (simp add: inj_on_def u64_eq_iff)
  show "finite (area p n)" by simp
  show "card (area p n) = n" using card_image [OF inj] im by simp
qed

lemma card_mapped_bytes:
  assumes "maps_ok E ms"
  shows "card (mapped_bytes ms) = sum_list (map (\<lambda>e. unat (snd e)) ms)" "card (mapped_bytes ms) \<le> 140737488355328"
proof -
  show "card (mapped_bytes ms) = sum_list (map (\<lambda>e. unat (snd e)) ms)"
    using assms
  proof (induction ms)
    case Nil
    then show ?case by (simp add: mapped_bytes_def)
  next
    case (Cons e ms)
    obtain p n where e: "e = (p, n)" by fastforce
    have ok: "maps_ok E ms" using Cons.prems by (auto simp: maps_ok_def e)
    have "unat p + unat n \<le> 140737488355328" using block_bounds [OF Cons.prems, of p n] e by simp
    then have "card (area p (unat n)) = unat n" by (intro card_area) simp
    moreover have "area p (unat n) \<inter> mapped_bytes ms = {}"
      using Cons.prems e by (intro maps_apart_Cons_disjoint) (simp add: maps_ok_def)
    moreover have "finite (mapped_bytes ms)" by simp
    ultimately show ?case using Cons.IH [OF ok] by (simp add: e card_Un_disjoint del: in_area)
  qed
  have "unat ` mapped_bytes ms \<subseteq> {..< 140737488355328}"
    using block_bounds(2) [OF assms] by (fastforce simp: mapped_bytes_def)
  then have "card (unat ` mapped_bytes ms) \<le> 140737488355328" by (metis card_lessThan card_mono finite_lessThan)
  moreover have "card (unat ` mapped_bytes ms) = card (mapped_bytes ms)"
    by (intro card_image inj_onI) (simp add: u64_eq_iff)
  ultimately show "card (mapped_bytes ms) \<le> 140737488355328" by simp
qed

lemma unat_sum_list:
  fixes ws :: "u64 list"
  shows "sum_list (map unat ws) < 18446744073709551616 \<Longrightarrow> unat (sum_list ws) = sum_list (map unat ws)"
  by (induction ws) (simp_all add: no_wrap)

lemma card_arena_live:
  assumes "arena_rep m a n0 rs" "maps_ok E ((a, n0) # rs @ bs)"
  shows "card (arena_live m a rs) = sum_list (map (\<lambda>x. unat (chunk_used m x)) (arena_chunks a rs))"
proof -
  have c: "card (chunk_live m x) = unat (chunk_used m x)" if xc: "x \<in> set (arena_chunks a rs)" for x
  proof -
    obtain base n ov where t: "(x, base, n, ov) \<in> set (chunk_blocks a n0 rs)" using chunk_block_exists [OF xc] .
    note b = chunk_bounds [OF assms t] and l = chunk_live_block [OF assms t]
    have "unat (chunk_used m x) \<le> unat n - ov" using b(10) by (simp add: chunk_rep_def)
    then show ?thesis unfolding chunk_live_def using l(3) b(4,5) by (intro card_area) linarith
  qed
  have dis: "chunk_live m x \<inter> chunk_live m y = {}"
    if xy: "x \<in> set (arena_chunks a rs)" "y \<in> set (arena_chunks a rs)" "x \<noteq> y" for x y
  proof -
    obtain base n ov where t: "(x, base, n, ov) \<in> set (chunk_blocks a n0 rs)" using chunk_block_exists [OF xy(1)] .
    obtain base' n' ov' where t': "(y, base', n', ov') \<in> set (chunk_blocks a n0 rs)" using chunk_block_exists [OF xy(2)] .
    show ?thesis
      using chunk_sep [OF assms(2) t t' xy(3)] chunk_live_block(1) [OF assms t] chunk_live_block(1) [OF assms t'] by blast
  qed
  have "card (arena_live m a rs) = (\<Sum>x \<in> set (arena_chunks a rs). card (chunk_live m x))"
    unfolding arena_live_def using dis by (intro card_UN_disjoint) auto
  also have "\<dots> = (\<Sum>x \<in> set (arena_chunks a rs). unat (chunk_used m x))" using c by simp
  also have "\<dots> = sum_list (map (\<lambda>x. unat (chunk_used m x)) (arena_chunks a rs))"
    using distinct_chunks [OF assms] by (simp add: sum_list_distinct_conv_sum_set)
  finally show ?thesis .
qed

section \<open>The statistics walk\<close>

lemma sum_chunks_ok:
  "chain m 0 h xs \<Longrightarrow> sum_chunks m h (k, cap, used, res) =
     Some (k + of_nat (length xs), cap + sum_list (map (chunk_capacity m) xs),
       used + sum_list (map (chunk_used m) xs), res + sum_list (map (chunk_mmap_size m) xs))"
proof (induction xs arbitrary: h k cap used res)
  case Nil
  then show ?case by (simp add: sum_chunks.simps)
next
  case (Cons x xs)
  then have "h = x" "x \<noteq> NULL" "chain m 0 (chunk_next m x) xs" by auto
  then show ?case using Cons.IH by (subst sum_chunks.simps) (simp add: add.assoc)
qed

lemma chunk_sizes:
  assumes "arena_rep m a n0 rs"
  shows "map (chunk_mmap_size m) (arena_chunks a rs) = n0 # map snd rs"
    "sum_list (map (\<lambda>x. unat (chunk_capacity m x)) (arena_chunks a rs)) + 128 + 64 * length rs
      = unat n0 + sum_list (map (\<lambda>e. unat (snd e)) rs)"
    "sum_list (map (\<lambda>x. unat (chunk_used m x)) (arena_chunks a rs))
      \<le> sum_list (map (\<lambda>x. unat (chunk_capacity m x)) (arena_chunks a rs))"
proof -
  have c: "unat (chunk_capacity m x) = unat n - ov \<and> ov < unat n \<and> unat (chunk_used m x) \<le> unat n - ov"
    if r: "chunk_rep m x base n ov" and o: "ov = 64 \<or> ov = 128" for x base n ov
  proof -
    have "unat (of_nat ov :: u64) = ov" using o by auto
    then show ?thesis using r by (simp add: chunk_rep_def no_wrap)
  qed
  have r0: "chunk_rep m (a + 64) a n0 128" and rr: "\<forall>e \<in> set rs. chunk_rep m (fst e) (fst e) (snd e) 64"
    using assms by (auto simp: arena_rep_def)
  note c0 = c [OF r0 disjI2 [OF refl]]
  have cr: "\<forall>e \<in> set rs. unat (chunk_capacity m (fst e)) + 64 = unat (snd e)
      \<and> unat (chunk_used m (fst e)) \<le> unat (chunk_capacity m (fst e))"
    using c [OF _ disjI1 [OF refl]] rr by fastforce
  have "map (chunk_mmap_size m \<circ> fst) rs = map snd rs" using rr by (simp add: chunk_rep_def)
  then show "map (chunk_mmap_size m) (arena_chunks a rs) = n0 # map snd rs"
    using r0 by (simp add: arena_chunks_def chunk_rep_def)
  have "sum_list (map (\<lambda>e. unat (chunk_capacity m (fst e))) rs) + 64 * length rs
      = sum_list (map (\<lambda>e. unat (snd e)) rs)"
    using cr by (induction rs) auto
  then show "sum_list (map (\<lambda>x. unat (chunk_capacity m x)) (arena_chunks a rs)) + 128 + 64 * length rs
      = unat n0 + sum_list (map (\<lambda>e. unat (snd e)) rs)"
    using c0 by (simp add: arena_chunks_def comp_def)
  have "sum_list (map (\<lambda>e. unat (chunk_used m (fst e))) rs) \<le> sum_list (map (\<lambda>e. unat (chunk_capacity m (fst e))) rs)"
    using cr by (intro sum_list_mono) auto
  then show "sum_list (map (\<lambda>x. unat (chunk_used m x)) (arena_chunks a rs))
      \<le> sum_list (map (\<lambda>x. unat (chunk_capacity m x)) (arena_chunks a rs))"
    using c0 by (simp add: arena_chunks_def comp_def) linarith
qed

lemma arena_get_stats_ok:
  assumes rep: "arena_rep m a n0 rs" and ok: "maps_ok E ((a, n0) # rs @ bs)"
  shows "\<exists>s. bc_allocators_arena_get_stats m a = Some (True, s)
    \<and> as_allocation_count s = arena_allocation_count m a
    \<and> unat (as_chunk_count s) = Suc (length rs)
    \<and> unat (as_total_reserved s) = card (mapped_bytes ((a, n0) # rs))
    \<and> unat (as_used s) = card (arena_live m a rs)
    \<and> unat (as_capacity s) + 128 + 64 * length rs = unat (as_total_reserved s)
    \<and> as_used s \<le> as_capacity s"
proof -
  define xs where "xs = arena_chunks a rs"
  have ch: "chain m 0 (a + 64) xs" and f: "arena_first_chunk m a = a + 64" using rep by (auto simp: arena_rep_def xs_def)
  note cs = chunk_sizes [OF rep, folded xs_def]
  define s where "s = \<lparr>as_capacity = sum_list (map (chunk_capacity m) xs), as_used = sum_list (map (chunk_used m) xs),
    as_allocation_count = arena_allocation_count m a, as_chunk_count = of_nat (length xs),
    as_total_reserved = sum_list (map (chunk_mmap_size m) xs)\<rparr>"
  have run: "bc_allocators_arena_get_stats m a = Some (True, s)"
    using sum_chunks_ok [OF ch, of 0 0 0 0] by (simp add: bc_allocators_arena_get_stats_def f s_def)
  have ok': "maps_ok E ((a, n0) # rs)" by (rule maps_ok_subset [OF ok]) simp
  note cm = card_mapped_bytes [OF ok']
  have len: "length xs = Suc (length rs)" by (simp add: xs_def arena_chunks_def)
  have tot: "unat n0 + sum_list (map (\<lambda>e. unat (snd e)) rs) = card (mapped_bytes ((a, n0) # rs))" using cm(1) by simp
  have res: "unat (as_total_reserved s) = card (mapped_bytes ((a, n0) # rs))"
  proof -
    have "map (chunk_mmap_size m) xs = n0 # map snd rs" by (rule cs(1))
    then have "as_total_reserved s = sum_list (n0 # map snd rs)" by (simp add: s_def)
    moreover have "unat (sum_list (n0 # map snd rs)) = sum_list (map unat (n0 # map snd rs))"
      using cm(2) tot by (intro unat_sum_list) (simp add: comp_def)
    ultimately show ?thesis using tot by (simp add: comp_def)
  qed
  have cap: "unat (as_capacity s) = sum_list (map (\<lambda>x. unat (chunk_capacity m x)) xs)"
    using unat_sum_list [of "map (chunk_capacity m) xs"] cs(2) tot cm(2) by (simp add: s_def comp_def)
  have used: "unat (as_used s) = sum_list (map (\<lambda>x. unat (chunk_used m x)) xs)"
    using unat_sum_list [of "map (chunk_used m) xs"] cs(2,3) tot cm(2) by (simp add: s_def comp_def)
  have "unat (as_used s) = card (arena_live m a rs)" using used card_arena_live [OF rep ok] by (simp add: xs_def)
  moreover have "unat (as_capacity s) + 128 + 64 * length rs = unat (as_total_reserved s)" using cap cs(2) tot res by simp
  moreover have "as_used s \<le> as_capacity s" using cap used cs(3) by (simp add: word_le_nat_alt)
  moreover have "unat (as_chunk_count s) = Suc (length rs)"
    using cs(2) tot cm(2) len by (simp add: s_def unat_of_nat_no_wrap del: of_nat_Suc)
  moreover have "as_allocation_count s = arena_allocation_count m a" by (simp add: s_def)
  ultimately show ?thesis using run res by blast
qed

end
