(* ===== verification/BC_Arena_Walk.thy ===== *)
theory BC_Arena_Walk
  imports BC_Arena_Stats
begin

text \<open>
  The two walks that hand pages back to the system, and the copy of a string. A chunk's memory starts 64 or
  128 bytes after a page boundary, so the address given to \<^verbatim>\<open>madvise\<close> is never page-aligned: the call fails,
  its result is ignored and the bytes stay as they are. What \<^verbatim>\<open>reset_secure\<close> promises, the erasure of all bytes handed
  out, holds by the explicit zeroing before the call.
\<close>

context bc_os
begin

lemma chunk_start_unaligned:
  assumes inv: "arena_inv E w c a n0 rs bs" and x: "x \<in> set (arena_chunks a rs)"
  shows "\<not> nat (os_sysconf_pagesize E) dvd unat (chunk_memory_start (mc_mem w) x)"
proof -
  note d = arena_invD [OF inv]
  obtain base n ov where t: "(x, base, n, ov) \<in> set (chunk_blocks a n0 rs)" using chunk_block_exists [OF x] .
  note b = chunk_bounds [OF d(1,3) t] and l = chunk_live_block(3) [OF d(1,3) t]
  obtain k where k: "12 \<le> k" "nat (os_sysconf_pagesize E) = 2 ^ k"
    using d(2) page_size_pow2 unfolding world_def by metis
  have "(2::nat) ^ 12 \<le> 2 ^ k" using k(1) by (intro power_increasing) auto
  then have big: "ov < 2 ^ k" "0 < ov" using b(1) by auto
  have "map_ok (2 ^ k) (base, n)" using d(3) b(6) k(2) by (auto simp: maps_ok_def)
  then have "2 ^ k dvd unat base" by (simp add: map_ok_def)
  then have "2 ^ k dvd unat base + ov \<longleftrightarrow> 2 ^ k dvd ov" by (simp add: dvd_add_right_iff)
  moreover have "\<not> 2 ^ k dvd ov" using big by (auto dest: dvd_imp_le)
  ultimately show ?thesis by (simp add: l k(2))
qed

lemma advise_unaligned:
  "\<not> nat (os_sysconf_pagesize E) dvd unat p \<Longrightarrow>
     platform_advise E w p n adv = (-1, w\<lparr>mc_clock := mc_clock w + 1\<rparr>)"
  by (simp add: platform_advise_def madvise_unaligned)

lemma advise_chunks_ok:
  assumes "chain (mc_mem w) 0 h ys"
    and "\<And>y. y \<in> set ys \<Longrightarrow> \<not> nat (os_sysconf_pagesize E) dvd unat (chunk_memory_start (mc_mem w) y)"
  shows "advise_chunks E h w = Some (w\<lparr>mc_clock := mc_clock w + length ys\<rparr>)"
  using assms
proof (induction ys arbitrary: h w)
  case Nil
  then show ?case by (simp add: advise_chunks.simps)
next
  case (Cons y ys)
  have h: "h = y" "y \<noteq> NULL" "chain (mc_mem w) 0 (chunk_next (mc_mem w) y) ys" using Cons.prems(1) by auto
  have un: "\<not> nat (os_sysconf_pagesize E) dvd unat (chunk_memory_start (mc_mem w) y)"
    by (rule Cons.prems(2)) simp
  have "advise_chunks E (chunk_next (mc_mem w) y) (w\<lparr>mc_clock := mc_clock w + 1\<rparr>) =
      Some (w\<lparr>mc_clock := mc_clock w + 1, mc_clock := mc_clock w + 1 + length ys\<rparr>)"
    using Cons.IH [of "w\<lparr>mc_clock := mc_clock w + 1\<rparr>" "chunk_next (mc_mem w) y"] h(3) Cons.prems(2) by simp
  then show ?case
    using h(1,2) advise_unaligned [OF un] by (subst advise_chunks.simps) simp
qed

lemma arena_release_pages_ok:
  assumes inv: "arena_inv E w c a n0 rs bs"
  shows "bc_allocators_arena_release_pages E w a = Some (True, w\<lparr>mc_clock := mc_clock w + length (arena_chunks a rs)\<rparr>)"
proof -
  have "chain (mc_mem w) 0 (arena_first_chunk (mc_mem w) a) (arena_chunks a rs)"
    using arena_invD(1) [OF inv] by (simp add: arena_rep_def)
  from advise_chunks_ok [OF this chunk_start_unaligned [OF inv]] show ?thesis
    by (simp add: bc_allocators_arena_release_pages_def)
qed

section \<open>Secure reset\<close>

text \<open>Zeroing the bytes of one chunk leaves every header as it is.\<close>

lemma arena_zero_chunk:
  assumes inv: "arena_inv E w c a n0 rs bs" and x: "x \<in> set (arena_chunks a rs)"
  defines "m' \<equiv> fill_bytes (mc_mem w) (chunk_memory_start (mc_mem w) x) (chunk_used (mc_mem w) x) 0"
  shows "agree (mc_mem w) m' (- chunk_live (mc_mem w) x)" "\<And>b. b \<in> chunk_live (mc_mem w) x \<Longrightarrow> m' b = 0"
    "arena_inv E (w\<lparr>mc_mem := m', mc_clock := t'\<rparr>) c a n0 rs bs"
    "\<And>y. y \<in> set (arena_chunks a rs) \<Longrightarrow> chunk_live m' y = chunk_live (mc_mem w) y
      \<and> chunk_next m' y = chunk_next (mc_mem w) y"
    "chunk_memory_start m' x = chunk_memory_start (mc_mem w) x"
proof -
  note d = arena_invD [OF inv]
  define m where "m = mc_mem w"
  obtain base n ov where t: "(x, base, n, ov) \<in> set (chunk_blocks a n0 rs)" using chunk_block_exists [OF x] .
  note b = chunk_bounds [OF d(1,3) t, folded m_def] and l = chunk_live_block [OF d(1,3) t, folded m_def]
  have "unat (chunk_used m x) \<le> unat n - ov" using b(10) by (simp add: chunk_rep_def)
  then have lim: "unat (chunk_memory_start m x) + unat (chunk_used m x) \<le> 18446744073709551616"
    using l(3) b(4,5) by simp
  note fb = fill_bytes_apply [OF lim, of m 0, folded chunk_live_def]
  show out: "agree (mc_mem w) m' (- chunk_live (mc_mem w) x)"
    "\<And>b. b \<in> chunk_live (mc_mem w) x \<Longrightarrow> m' b = 0"
    using fb by (auto simp: agree_def m'_def m_def simp del: in_area)
  have "chunk_live (mc_mem w) x \<subseteq> arena_live (mc_mem w) a rs" using x by (auto simp: arena_live_def)
  then have hd: "agree (mc_mem w) m' (arena_headers a rs)"
    using live_outside_headers(1) [OF d(1,3)] by (intro agree_off [OF out(1)]) blast
  have "arena_rep m' a n0 rs" by (rule arena_rep_cong(1) [OF d(1,3) hd])
  then show "arena_inv E (w\<lparr>mc_mem := m', mc_clock := t'\<rparr>) c a n0 rs bs"
    using d(2) by (simp add: arena_inv_def world_def)
  have k: "chunk_rep m' y yb yn yo \<and> chunk_live m' y = chunk_live (mc_mem w) y \<and> chunk_next m' y = chunk_next (mc_mem w) y
      \<and> chunk_memory_start m' y = chunk_memory_start (mc_mem w) y"
    if y: "(y, yb, yn, yo) \<in> set (chunk_blocks a n0 rs)" for y yb yn yo
  proof -
    note yb = chunk_bounds [OF d(1,3) y]
    have ag: "agree (mc_mem w) m' (area y 64)" by (rule agree_subset [OF hd yb(9)])
    have "unat y + 64 \<le> 18446744073709551616" using yb(8) by simp
    from chunk_rep_cong [OF yb(10) ag this] show ?thesis using yb(10) by (simp add: chunk_rep_def)
  qed
  then show "chunk_live m' y = chunk_live (mc_mem w) y \<and> chunk_next m' y = chunk_next (mc_mem w) y"
    if yc: "y \<in> set (arena_chunks a rs)" for y
    using chunk_block_exists [OF yc] by metis
  show "chunk_memory_start m' x = chunk_memory_start (mc_mem w) x" using k [OF t] by blast
qed

lemma secure_chunks_ok:
  assumes "arena_inv E w c a n0 rs bs" "chain (mc_mem w) 0 h ys" "set ys \<subseteq> set (arena_chunks a rs)"
  shows "\<exists>w'. secure_chunks E h w = Some w' \<and> arena_inv E w' c a n0 rs bs \<and> mc_maps w' = mc_maps w
    \<and> arena_live (mc_mem w') a rs = arena_live (mc_mem w) a rs
    \<and> agree (mc_mem w) (mc_mem w') (- (\<Union>y \<in> set ys. chunk_live (mc_mem w) y))
    \<and> (\<forall>b \<in> (\<Union>y \<in> set ys. chunk_live (mc_mem w) y). mc_mem w' b = 0)"
  using assms
proof (induction ys arbitrary: h w)
  case Nil
  then show ?case by (simp add: secure_chunks.simps)
next
  case (Cons y ys)
  have h: "h = y" "y \<noteq> NULL" "chain (mc_mem w) 0 (chunk_next (mc_mem w) y) ys" using Cons.prems(2) by auto
  have y: "y \<in> set (arena_chunks a rs)" "set ys \<subseteq> set (arena_chunks a rs)" using Cons.prems(3) by auto
  define m1 where "m1 = fill_bytes (mc_mem w) (chunk_memory_start (mc_mem w) y) (chunk_used (mc_mem w) y) 0"
  define w1 where "w1 = w\<lparr>mc_mem := m1, mc_clock := mc_clock w + 1\<rparr>"
  note z = arena_zero_chunk [OF Cons.prems(1) y(1), folded m1_def]
  have un: "\<not> nat (os_sysconf_pagesize E) dvd unat (chunk_memory_start m1 y)"
    using chunk_start_unaligned [OF Cons.prems(1) y(1)] z(5) by simp
  have step: "secure_chunks E h w = secure_chunks E (chunk_next m1 y) w1"
    using h(1,2) advise_unaligned [OF un, of "w\<lparr>mc_mem := m1\<rparr>"]
    by (subst secure_chunks.simps) (simp add: Let_def zero_secure m1_def [symmetric] w1_def)
  have inv1: "arena_inv E w1 c a n0 rs bs" unfolding w1_def by (rule z(3))
  have "load64 m1 (v + 0) = load64 (mc_mem w) (v + 0)" if "v \<in> set ys" for v using z(4) y(2) that by auto
  then have "chain m1 0 (chunk_next m1 y) ys" using h(3) seg_cong z(4) [OF y(1)] by metis
  then have ch1: "chain (mc_mem w1) 0 (chunk_next m1 y) ys" by (simp add: w1_def)
  obtain w' where ih: "secure_chunks E (chunk_next m1 y) w1 = Some w'" "arena_inv E w' c a n0 rs bs"
    "mc_maps w' = mc_maps w1" "arena_live (mc_mem w') a rs = arena_live (mc_mem w1) a rs"
    "agree (mc_mem w1) (mc_mem w') (- (\<Union>v \<in> set ys. chunk_live (mc_mem w1) v))"
    "\<forall>b \<in> (\<Union>v \<in> set ys. chunk_live (mc_mem w1) v). mc_mem w' b = 0"
    using Cons.IH [OF inv1 ch1 y(2)] by blast
  have lv: "(\<Union>v \<in> set ys. chunk_live (mc_mem w1) v) = (\<Union>v \<in> set ys. chunk_live (mc_mem w) v)"
    using z(4) y(2) by (intro SUP_cong) (auto simp: w1_def)
  have lv2: "arena_live (mc_mem w1) a rs = arena_live (mc_mem w) a rs"
    unfolding arena_live_def using z(4) by (intro SUP_cong) (auto simp: w1_def)
  define Z where "Z = (\<Union>v \<in> set ys. chunk_live (mc_mem w) v)"
  have U: "(\<Union>v \<in> set (y # ys). chunk_live (mc_mem w) v) = chunk_live (mc_mem w) y \<union> Z" by (simp add: Z_def)
  have a1: "agree (mc_mem w) m1 (- chunk_live (mc_mem w) y)" and a2: "agree m1 (mc_mem w') (- Z)"
    and z2: "\<forall>b \<in> Z. mc_mem w' b = 0"
    using z(1) ih(5,6) unfolding lv Z_def [symmetric] by (simp_all add: w1_def)
  have "agree (mc_mem w) (mc_mem w') (- (chunk_live (mc_mem w) y \<union> Z))"
    using a1 a2 by (auto simp: agree_def)
  moreover have "mc_mem w' b = 0" if b: "b \<in> chunk_live (mc_mem w) y \<union> Z" for b
  proof (cases "b \<in> Z")
    case False
    then have "mc_mem w' b = m1 b" using a2 by (simp add: agree_def)
    then show ?thesis using z(2) b False by simp
  qed (use z2 in blast)
  ultimately show ?case
    unfolding U using ih(1-4) step lv2 by (intro exI [of _ w']) (simp add: w1_def)
qed

theorem arena_reset_secure_ok:
  assumes inv: "arena_inv E w c a n0 rs bs"
  shows "\<exists>w' c'. bc_allocators_arena_reset_secure E w c a = Some (w', c') \<and> arena_inv E w' c' a n0 [] bs
    \<and> arena_live (mc_mem w') a [] = {} \<and> (\<forall>b \<in> arena_live (mc_mem w) a rs. mc_mem w' b = 0)
    \<and> agree (mc_mem w) (mc_mem w') (- (area a 128 \<union> arena_live (mc_mem w) a rs))
    \<and> arena_frame (mc_mem w) (mc_mem w') c bs
    \<and> other_mappings w' c' ((a, n0) # bs) = other_mappings w c ((a, n0) # rs @ bs)
    \<and> pool_view c' = pool_view c \<and> stat_view c' = stat_view c \<and> fixed_mappings c' = fixed_mappings c"
proof -
  note d = arena_invD [OF inv]
  have ch: "chain (mc_mem w) 0 (arena_first_chunk (mc_mem w) a) (arena_chunks a rs)"
    using d(1) by (simp add: arena_rep_def)
  obtain w1 where s: "secure_chunks E (arena_first_chunk (mc_mem w) a) w = Some w1"
    "arena_inv E w1 c a n0 rs bs" "mc_maps w1 = mc_maps w"
    "agree (mc_mem w) (mc_mem w1) (- arena_live (mc_mem w) a rs)"
    "\<forall>b \<in> arena_live (mc_mem w) a rs. mc_mem w1 b = 0"
    using secure_chunks_ok [OF inv ch subset_refl] unfolding arena_live_def by blast
  obtain w' c' where r: "bc_allocators_arena_reset E w1 c a = Some (w', c')" "arena_inv E w' c' a n0 [] bs"
    "arena_live (mc_mem w') a [] = {}" "agree (mc_mem w1) (mc_mem w') (- area a 128)"
    "other_mappings w' c' ((a, n0) # bs) = other_mappings w1 c ((a, n0) # rs @ bs)"
    "pool_view c' = pool_view c" "stat_view c' = stat_view c" "fixed_mappings c' = fixed_mappings c"
    using arena_reset_ok [OF s(2)] by blast
  have hd: "area a 128 \<subseteq> arena_headers a rs" by (auto simp: arena_headers_def)
  note lo = live_outside_headers [OF d(1,3)]
  have z: "mc_mem w' b = 0" if b: "b \<in> arena_live (mc_mem w) a rs" for b
  proof -
    have "b \<notin> area a 128" using b lo(1) hd by blast
    then have "mc_mem w' b = mc_mem w1 b" using r(4) by (simp add: agree_def del: in_area)
    then show ?thesis using s(5) b by simp
  qed
  have ag: "agree (mc_mem w) (mc_mem w') (- (area a 128 \<union> arena_live (mc_mem w) a rs))"
    using s(4) r(4) by (simp add: agree_def del: in_area)
  have fr: "arena_frame (mc_mem w) (mc_mem w') c bs"
    unfolding arena_frame_def
  proof (rule agree_off [OF ag])
    show "(area a 128 \<union> arena_live (mc_mem w) a rs) \<inter> mapped_bytes (bs @ fixed_mappings c) = {}"
      using headers_frame [OF d(1,2)] hd lo(2) by blast
  qed
  have "other_mappings w1 c ((a, n0) # rs @ bs) = other_mappings w c ((a, n0) # rs @ bs)"
    using s(3) by (simp add: other_mappings_def)
  then show ?thesis
    using s(1) r(1,2,3,5-8) z ag fr by (simp add: bc_allocators_arena_reset_secure_def)
qed

end

end
