(* ===== verification/BC_Arena_More.thy ===== *)
theory BC_Arena_More
  imports BC_Arena_Walk
begin

text \<open>
  When an allocation is refused, and the copy of a string. An allocation fails only for a bad argument, for lack of
  room in a fixed arena, when the system refuses a block, or when size plus alignment wraps; in the last case
  the arena may keep a block it took in vain.
\<close>

context bc_os
begin

lemma arena_grow_fits:
  assumes inv: "arena_inv E w c a n0 rs bs" and run: "arena_grow E w c a (sz + al) = (True, w', c')"
    and al: "pow2 al" and nw: "unat sz + unat al < 18446744073709551616"
  shows "arena_fits (mc_mem w') a sz al"
proof -
  obtain p n where pn: "arena_inv E w' c' a n0 (rs @ [(p, n)]) bs" "arena_current_chunk (mc_mem w') a = p"
    "chunk_used (mc_mem w') p = 0" "unat (sz + al) + 64 \<le> unat n"
    using arena_grow_ok(2) [OF inv run] by blast
  note d = arena_invD [OF pn(1)]
  have t: "(p, p, n, 64) \<in> set (chunk_blocks a n0 (rs @ [(p, n)]))" by (simp add: chunk_blocks_def)
  note l = chunk_live_block(3,4) [OF d(1) d(3) t]
  have "round_up (unat p + 64) (unat al) < unat p + 64 + unat al" by (rule round_up_less) (rule pow2_pos [OF al])
  moreover have "unat (sz + al) = unat sz + unat al" using nw by (simp add: no_wrap)
  ultimately show ?thesis using pn(2-4) l by (simp add: arena_fits_def)
qed

theorem arena_allocate_none_iff:
  assumes inv: "arena_inv E w c a n0 rs bs" and run: "bc_allocators_arena_allocate E w c a sz al = (r, w', c')"
    and nw: "unat sz + unat al < 18446744073709551616"
  shows "r = None \<longleftrightarrow> sz = 0 \<or> \<not> pow2 al
    \<or> (\<not> arena_fits (mc_mem w) a sz al
        \<and> (arena_growable (mc_mem w) a \<longrightarrow> \<not> fst (arena_grow E w c a (sz + al))))"
  using inv run
proof (cases rule: arena_allocate_cases)
  case (grown w2)
  obtain p n where pn: "arena_inv E w2 c' a n0 (rs @ [(p, n)]) bs"
    using arena_grow_ok(2) [OF inv grown(5)] by blast
  note d = arena_invD [OF pn]
  have "arena_fits (mc_mem w2) a sz al" by (rule arena_grow_fits [OF inv grown(5,2) nw])
  then have "fst (arena_try_alloc_in_chunk E (mc_mem w2) (arena_current_chunk (mc_mem w2) a) sz al) \<noteq> None"
    using arena_try_iff_fits [OF d(1,3) grown(2)] by simp
  then have "r \<noteq> None" using grown(6) by (auto split: prod.splits)
  then show ?thesis using grown(1-5) by simp
qed auto

text \<open>Size plus alignment wraps: the request fails, but a block taken for it stays in the arena.\<close>

lemma pow2_le_half: "pow2 al \<Longrightarrow> unat al \<le> 9223372036854775808"
proof -
  assume "pow2 al"
  then obtain k where k: "unat al = 2 ^ k" by (auto simp: pow2_def)
  have "k < 64"
  proof (rule ccontr)
    assume "\<not> k < 64"
    then have "(2::nat) ^ 64 \<le> 2 ^ k" by (intro power_increasing) auto
    then show False using k u64_max [of al] by simp
  qed
  then have "(2::nat) ^ k \<le> 2 ^ 63" by (intro power_increasing) auto
  then show ?thesis using k by simp
qed

lemma arena_too_large:
  assumes rep: "arena_rep m a n0 rs" and ok: "maps_ok E' ((a, n0) # rs @ bs)" and al: "pow2 al"
    and wrap: "18446744073709551616 \<le> unat sz + unat al"
  shows "\<not> arena_fits m a sz al"
proof -
  obtain base n ov where t: "(arena_current_chunk m a, base, n, ov) \<in> set (chunk_blocks a n0 rs)"
    using current_chunk_block [OF rep] .
  note b = chunk_bounds [OF rep ok t] and l = chunk_live_block(3,4) [OF rep ok t]
  have "9223372036854775808 \<le> unat sz" using pow2_le_half [OF al] wrap by linarith
  then show ?thesis using b(4,5) l by (simp add: arena_fits_def Let_def)
qed

theorem arena_allocate_wraps:
  assumes inv: "arena_inv E w c a n0 rs bs" and run: "bc_allocators_arena_allocate E w c a sz al = (r, w', c')"
    and al: "pow2 al" and g: "arena_growable (mc_mem w) a" and wrap: "18446744073709551616 \<le> unat sz + unat al"
  shows "r = None \<and> (fst (arena_grow E w c a (sz + al)) \<longrightarrow>
      (\<exists>e. arena_inv E w' c' a n0 (rs @ [e]) bs \<and> arena_live (mc_mem w') a (rs @ [e]) = arena_live (mc_mem w) a rs))"
  using inv run
proof (cases rule: arena_allocate_cases)
  case refused
  have "unat al < 18446744073709551616" by (rule u64_max)
  then have "sz \<noteq> 0" using wrap by (intro notI) (simp del: u64_max)
  then show ?thesis using refused al by simp
next
  case here
  then show ?thesis using arena_too_large [OF _ _ al wrap] arena_invD [OF inv] by blast
next
  case full
  then show ?thesis using g by simp
next
  case no_growth
  then show ?thesis by simp
next
  case (grown w2)
  obtain p n where pn: "arena_inv E w2 c' a n0 (rs @ [(p, n)]) bs"
    "arena_live (mc_mem w2) a (rs @ [(p, n)]) = arena_live (mc_mem w) a rs"
    using arena_grow_ok(2) [OF inv grown(5)] by blast
  note d = arena_invD [OF pn(1)]
  obtain r3 m3 where tr: "arena_try_alloc_in_chunk E (mc_mem w2) (arena_current_chunk (mc_mem w2) a) sz al = (r3, m3)"
    by fastforce
  have "r3 = None" using arena_try_iff_fits [OF d(1,3) al, of sz] arena_too_large [OF d(1,3) al wrap] tr by simp
  moreover from this have "m3 = mc_mem w2" using arena_try_None [OF d(1,3) al] tr by simp
  ultimately have "r = None" "w' = w2" using grown(6) tr by simp_all
  then show ?thesis using pn by blast
qed

section \<open>Copying a string\<close>

text \<open>Data written into bytes that were handed out does not touch the arena.\<close>

lemma arena_client_write:
  assumes inv: "arena_inv E w c a n0 rs bs" and out: "agree (mc_mem w) m' (- B)"
    and B: "B \<subseteq> arena_live (mc_mem w) a rs"
  shows "arena_inv E (w\<lparr>mc_mem := m'\<rparr>) c a n0 rs bs" "arena_live m' a rs = arena_live (mc_mem w) a rs"
    "arena_frame (mc_mem w) m' c bs"
proof -
  note d = arena_invD [OF inv]
  note lo = live_outside_headers [OF d(1,3)]
  have hd: "agree (mc_mem w) m' (arena_headers a rs)" using lo(1) B by (intro agree_off [OF out]) blast
  note c = arena_rep_cong [OF d(1,3) hd]
  show "arena_inv E (w\<lparr>mc_mem := m'\<rparr>) c a n0 rs bs" using c(1) d(2) by (simp add: arena_inv_def)
  show "arena_live m' a rs = arena_live (mc_mem w) a rs" by (rule c(2))
  show "arena_frame (mc_mem w) m' c bs"
    unfolding arena_frame_def using headers_frame(1) [OF d(1,2)] lo(2) B by (intro agree_off [OF out]) blast
qed

text \<open>The number of bytes of a string with its terminator, as a word that is not zero.\<close>

lemma unat_string_size:
  fixes s :: u64
  assumes "unat s + k < 18446744073709551616" "of_nat (Suc k) \<noteq> (0 :: u64)"
  shows "unat (of_nat (Suc k) :: u64) = Suc k"
proof -
  have "Suc k \<noteq> 2 ^ 64"
  proof
    assume "Suc k = 2 ^ 64"
    then have "of_nat (Suc k) = (of_nat (2 ^ 64) :: u64)" by (simp only:)
    then show False using assms(2) by simp
  qed
  then have "Suc k < 18446744073709551616" using assms(1) by simp
  then show ?thesis by (rule unat_of_nat_no_wrap)
qed

text \<open>What the copy of \<open>Suc k\<close> bytes to another place does.\<close>

lemma core_copy_bytes:
  assumes n: "unat n = Suc k" and p: "unat p + Suc k \<le> 140737488355328" and s: "unat s + k < 18446744073709551616"
    and ap: "area p (Suc k) \<inter> area s (Suc k) = {}"
  shows "agree m (core_copy E m p s n) (- area p (Suc k))"
    "i \<le> k \<Longrightarrow> core_copy E m p s n (p + of_nat i) = m (s + of_nat i)"
proof -
  have "apart p (unat n) s (unat n)" unfolding n using ap p s by (intro disjoint_apart) simp_all
  then have cp: "core_copy E m p s n = copy_bytes m p s n" using p s n by (intro copy) simp_all
  have b: "core_copy E m p s n b = (if b \<in> area p (Suc k) then m (s + (b - p)) else m b)" for b
  proof -
    have "b - p < n \<longleftrightarrow> b \<in> area p (Suc k)"
      using in_area_offset [of p "Suc k" b] p n by (simp add: word_less_nat_alt)
    then show ?thesis by (simp add: cp copy_bytes_def)
  qed
  show "agree m (core_copy E m p s n) (- area p (Suc k))" by (simp add: agree_def b del: in_area)
  assume "i \<le> k"
  then have "p + of_nat i \<in> area p (Suc k)" using p by (intro in_area_nth) simp_all
  then show "core_copy E m p s n (p + of_nat i) = m (s + of_nat i)" by (simp add: b del: in_area)
qed

theorem arena_copy_string_ok:
  assumes inv: "arena_inv E w c a n0 rs bs" and run: "bc_allocators_arena_copy_string E w c a s = (Some p, w', c')"
    and nul: "mc_mem w (s + of_nat k) = 0" "\<forall>i < k. mc_mem w (s + of_nat i) \<noteq> 0"
    and src: "unat s + k < 18446744073709551616"
      "area s (Suc k) \<subseteq> arena_live (mc_mem w) a rs \<union> mapped_bytes (bs @ fixed_mappings c)"
  shows "\<exists>rs'. arena_kept E a n0 bs w c rs w' c' rs' \<and> arena_grant (mc_mem w) a rs (of_nat (Suc k)) 1 p (mc_mem w') rs'
    \<and> (\<forall>i \<le> k. mc_mem w' (p + of_nat i) = mc_mem w (s + of_nat i))"
proof -
  define n where "n = (of_nat (Suc k) :: u64)"
  have len: "core_length E (mc_mem w) s 0 = of_nat k" by (rule length_char [OF nul src(1)])
  obtain r1 w1 c1 where al: "bc_allocators_arena_allocate E w c a n 1 = (r1, w1, c1)" by (metis prod_cases3)
  have n1: "of_nat k + 1 = n" by (simp add: n_def)
  define m2 where "m2 = core_copy E (mc_mem w1) p s n"
  have res: "r1 = Some p" "w' = w1\<lparr>mc_mem := m2\<rparr>" "c' = c1"
    using run al unfolding bc_allocators_arena_copy_string_def Let_def len n1 m2_def by (auto split: option.splits)
  obtain rs' where K: "arena_kept E a n0 bs w c rs w1 c1 rs'" and G: "arena_grant (mc_mem w) a rs n 1 p (mc_mem w1) rs'"
    using arena_allocate_ok [OF inv al] res(1) by auto
  note k = K [unfolded arena_kept_def] and g = G [unfolded arena_grant_def]
  have inv1: "arena_inv E w1 c1 a n0 rs' bs" and fr1: "arena_frame (mc_mem w) (mc_mem w1) c bs"
    and lv1: "agree (mc_mem w) (mc_mem w1) (arena_live (mc_mem w) a rs)" and fx: "fixed_mappings c1 = fixed_mappings c"
    using k by blast+
  have "n \<noteq> 0" using al res(1) by (intro notI) (simp add: bc_allocators_arena_allocate_def)
  then have un: "unat n = Suc k" using unat_string_size [OF src(1)] by (simp add: n_def)
  have gp: "unat p + Suc k \<le> 140737488355328" "area p (Suc k) \<inter> arena_live (mc_mem w) a rs = {}"
    "area p (Suc k) \<subseteq> arena_live (mc_mem w1) a rs'" using g un by auto
  note d1 = arena_invD [OF inv1]
  have "area p (Suc k) \<inter> mapped_bytes (bs @ fixed_mappings c) = {}"
    using headers_frame(1) [OF d1(1,2)] live_outside_headers(2) [OF d1(1,3)] gp(3) fx by auto
  then have "area p (Suc k) \<inter> area s (Suc k) = {}" using gp(2) src(2) by blast
  note cb = core_copy_bytes [OF un gp(1) src(1) this, where m = "mc_mem w1", folded m2_def]
  note cw = arena_client_write [OF inv1 cb(1) gp(3)]
  have old: "agree (mc_mem w) (mc_mem w1) (area s (Suc k))"
    by (rule agree_subset [OF _ src(2)]) (use lv1 fr1 in \<open>simp add: arena_frame_def\<close>)
  have bytes: "m2 (p + of_nat i) = mc_mem w (s + of_nat i)" if i: "i \<le> k" for i
  proof -
    have "s + of_nat i \<in> area s (Suc k)" using i src(1) by (intro in_area_nth) simp_all
    then have "mc_mem w1 (s + of_nat i) = mc_mem w (s + of_nat i)" using old unfolding agree_def by blast
    then show ?thesis using cb(2) [OF i] by simp
  qed
  have "arena_frame (mc_mem w) m2 c bs"
    using fr1 cw(3) fx unfolding arena_frame_def by (auto intro: agree_trans)
  moreover have lv2: "agree (mc_mem w) m2 (arena_live (mc_mem w) a rs)"
    using gp(2) by (intro agree_step [OF lv1 cb(1)]) blast
  moreover have "other_mappings (w1\<lparr>mc_mem := m2\<rparr>) c1 ((a, n0) # rs' @ bs) = other_mappings w1 c1 ((a, n0) # rs' @ bs)"
    by (simp add: other_mappings_def)
  ultimately have "arena_kept E a n0 bs w c rs w' c' rs'"
    using cw(1) res(2,3) k by (simp add: arena_kept_def)
  moreover have "arena_grant (mc_mem w) a rs n 1 p m2 rs'" using G cw(2) lv2 by (simp add: arena_grant_def)
  ultimately show ?thesis
    using bytes res(2) unfolding n_def by (intro exI [of _ rs']) simp
qed

end

end
