(* ===== verification/BC_Arena_Trace.thy ===== *)
theory BC_Arena_Trace
  imports BC_Arena_More
begin

text \<open>
  An arena in use, as a step relation over the machine, the context and the objects handed out since the last
  reset. Its client may allocate, write into its objects, reset, reset securely and release pages, in any order;
  the invariant holds in every reachable state.
\<close>

inductive arena_step :: "env \<Rightarrow> u64 \<Rightarrow> machine \<times> bc_context \<times> maps \<Rightarrow> machine \<times> bc_context \<times> maps \<Rightarrow> bool"
  for E :: env and a :: u64 where
  step_allocate: "bc_allocators_arena_allocate E w c a sz al = (Some p, w', c') \<Longrightarrow>
    arena_step E a (w, c, os) (w', c', (p, sz) # os)"
| step_refuse: "bc_allocators_arena_allocate E w c a sz al = (None, w', c') \<Longrightarrow>
    arena_step E a (w, c, os) (w', c', os)"
| step_write: "(p, n) \<in> set os \<Longrightarrow> agree (mc_mem w) m' (- area p (unat n)) \<Longrightarrow>
    arena_step E a (w, c, os) (w\<lparr>mc_mem := m'\<rparr>, c, os)"
| step_reset: "bc_allocators_arena_reset E w c a = Some (w', c') \<Longrightarrow> arena_step E a (w, c, os) (w', c', [])"
| step_reset_secure: "bc_allocators_arena_reset_secure E w c a = Some (w', c') \<Longrightarrow>
    arena_step E a (w, c, os) (w', c', [])"
| step_release_pages: "bc_allocators_arena_release_pages E w a = Some (r, w') \<Longrightarrow>
    arena_step E a (w, c, os) (w', c, os)"

inductive_cases arena_stepE: "arena_step E a (w, c, os) t"

text \<open>The objects of a client: apart, nonempty, inside the bytes handed out.\<close>

definition arena_objects :: "mem \<Rightarrow> u64 \<Rightarrow> maps \<Rightarrow> maps \<Rightarrow> bool" where
  "arena_objects m a rs os \<longleftrightarrow> maps_apart os \<and> mapped_bytes os \<subseteq> arena_live m a rs \<and>
     (\<forall>(p, n) \<in> set os. 0 < unat n \<and> unat p + unat n \<le> 140737488355328)"

lemma mapped_bytes_Nil [simp]: "mapped_bytes [] = {}"
  by (simp add: mapped_bytes_def)

lemma arena_objects_Nil [simp]: "arena_objects m a rs []"
  by (simp add: arena_objects_def)

lemma arena_objects_live: "arena_objects m a rs os \<Longrightarrow> arena_live m a rs \<subseteq> arena_live m' a rs' \<Longrightarrow> arena_objects m' a rs' os"
  by (auto simp: arena_objects_def simp del: in_area)

lemma arena_objects_grant:
  assumes os: "arena_objects m a rs os" and g: "arena_grant m a rs sz al p m' rs'" and sz: "sz \<noteq> 0"
  shows "arena_objects m' a rs' ((p, sz) # os)"
proof -
  note g' = g [unfolded arena_grant_def]
  have pos: "0 < unat sz" using sz by (simp add: unat_gt_0)
  have "apart p (unat sz) q (unat k)" if q: "(q, k) \<in> set os" for q k
  proof (rule disjoint_apart)
    have "area q (unat k) \<subseteq> mapped_bytes os" using q unfolding mapped_bytes_def by blast
    then show "area p (unat sz) \<inter> area q (unat k) = {}" using os g' unfolding arena_objects_def by blast
    show "0 < unat k" "unat q + unat k \<le> 18446744073709551616" using os q by (auto simp: arena_objects_def)
    show "0 < unat sz" "unat p + unat sz \<le> 18446744073709551616" using pos g' by auto
  qed
  then show ?thesis using os g' pos by (auto simp: arena_objects_def simp del: in_area)
qed

definition arena_state :: "env \<Rightarrow> u64 \<Rightarrow> u64 \<Rightarrow> maps \<Rightarrow> machine \<Rightarrow> bc_context
    \<Rightarrow> machine \<times> bc_context \<times> maps \<Rightarrow> (u64 \<times> u64) multiset \<Rightarrow> bool" where
  "arena_state E a n0 bs w0 c0 s others \<longleftrightarrow>
     (case s of (w, c, os) \<Rightarrow>
       \<exists>rs. arena_inv E w c a n0 rs bs \<and> arena_objects (mc_mem w) a rs os \<and>
         arena_frame (mc_mem w0) (mc_mem w) c0 bs \<and> fixed_mappings c = fixed_mappings c0 \<and>
         other_mappings w c ((a, n0) # rs @ bs) = others)"

lemma arena_stateI:
  assumes "arena_inv E w' c' a n0 rs bs" "arena_objects (mc_mem w') a rs os"
    and "arena_frame (mc_mem w0) (mc_mem w) c0 bs" "arena_frame (mc_mem w) (mc_mem w') c bs"
    and "fixed_mappings c = fixed_mappings c0" "fixed_mappings c' = fixed_mappings c"
    and "other_mappings w' c' ((a, n0) # rs @ bs) = others"
  shows "arena_state E a n0 bs w0 c0 (w', c', os) others"
proof -
  have "arena_frame (mc_mem w0) (mc_mem w') c0 bs"
    using assms(3-5) unfolding arena_frame_def by (auto intro: agree_trans)
  then show ?thesis using assms unfolding arena_state_def prod.case by auto
qed

lemma arena_stateE:
  assumes "arena_state E a n0 bs w0 c0 (w, c, os) others"
  obtains rs where "arena_inv E w c a n0 rs bs" "arena_objects (mc_mem w) a rs os"
    "arena_frame (mc_mem w0) (mc_mem w) c0 bs" "fixed_mappings c = fixed_mappings c0"
    "other_mappings w c ((a, n0) # rs @ bs) = others"
  using assms by (auto simp: arena_state_def)

text \<open>The two ways a step goes on: with the objects there are, or with none.\<close>

lemma arena_state_kept:
  assumes k: "arena_kept E a n0 bs w c rs w' c' rs'" and os: "arena_objects (mc_mem w') a rs' os"
    and fr: "arena_frame (mc_mem w0) (mc_mem w) c0 bs" "fixed_mappings c = fixed_mappings c0"
      "other_mappings w c ((a, n0) # rs @ bs) = others"
  shows "arena_state E a n0 bs w0 c0 (w', c', os) others"
  using k fr unfolding arena_kept_def by (intro arena_stateI [OF _ os, where w = w and c = c]) auto

lemma arena_state_emptied:
  assumes "arena_inv E w' c' a n0 [] bs" "arena_frame (mc_mem w) (mc_mem w') c bs"
    "other_mappings w' c' ((a, n0) # bs) = others" "fixed_mappings c' = fixed_mappings c"
    and fr: "arena_frame (mc_mem w0) (mc_mem w) c0 bs" "fixed_mappings c = fixed_mappings c0"
  shows "arena_state E a n0 bs w0 c0 (w', c', []) others"
  using assms by (intro arena_stateI [where rs = "[]" and w = w and c = c]) auto

context bc_os
begin

lemma arena_allocate_nonzero:
  "bc_allocators_arena_allocate E w c a sz al = (Some p, w', c') \<Longrightarrow> sz \<noteq> 0"
  by (auto simp: bc_allocators_arena_allocate_def)

lemma arena_step_keeps:
  assumes st: "arena_step E a s t" and I: "arena_state E a n0 bs w0 c0 s others"
  shows "arena_state E a n0 bs w0 c0 t others"
  using st I
proof (induction rule: arena_step.induct)
  case (step_allocate w c sz al p w' c' os)
  from step_allocate.prems obtain rs where i: "arena_inv E w c a n0 rs bs" "arena_objects (mc_mem w) a rs os"
    and fr: "arena_frame (mc_mem w0) (mc_mem w) c0 bs" "fixed_mappings c = fixed_mappings c0"
      "other_mappings w c ((a, n0) # rs @ bs) = others" by (rule arena_stateE)
  obtain rs' where k: "arena_kept E a n0 bs w c rs w' c' rs'"
    and g: "arena_grant (mc_mem w) a rs sz al p (mc_mem w') rs'"
    using arena_allocate_ok [OF i(1) step_allocate.hyps] by auto
  show ?case
    by (rule arena_state_kept [OF k arena_objects_grant [OF i(2) g arena_allocate_nonzero [OF step_allocate.hyps]] fr])
next
  case (step_refuse w c sz al w' c' os)
  from step_refuse.prems obtain rs where i: "arena_inv E w c a n0 rs bs" "arena_objects (mc_mem w) a rs os"
    and fr: "arena_frame (mc_mem w0) (mc_mem w) c0 bs" "fixed_mappings c = fixed_mappings c0"
      "other_mappings w c ((a, n0) # rs @ bs) = others" by (rule arena_stateE)
  obtain rs' where k: "arena_kept E a n0 bs w c rs w' c' rs'"
    and l: "arena_live (mc_mem w') a rs' = arena_live (mc_mem w) a rs"
    using arena_allocate_ok [OF i(1) step_refuse.hyps] by auto
  show ?case by (rule arena_state_kept [OF k arena_objects_live [OF i(2) equalityD2 [OF l]] fr])
next
  case (step_write p n os w m' c)
  from step_write.prems obtain rs where i: "arena_inv E w c a n0 rs bs" "arena_objects (mc_mem w) a rs os"
    and fr: "arena_frame (mc_mem w0) (mc_mem w) c0 bs" "fixed_mappings c = fixed_mappings c0"
      "other_mappings w c ((a, n0) # rs @ bs) = others" by (rule arena_stateE)
  have sub: "area p (unat n) \<subseteq> arena_live (mc_mem w) a rs"
    using i(2) step_write.hyps(1) unfolding arena_objects_def mapped_bytes_def by blast
  note cw = arena_client_write [OF i(1) step_write.hyps(2) sub]
  have "arena_objects m' a rs os" by (rule arena_objects_live [OF i(2)]) (simp add: cw(2))
  then show ?case using fr cw(1,3) by (intro arena_stateI [of E _ _ a n0 rs _ _ _ w _ c]) auto
next
  case (step_reset w c w' c' os)
  from step_reset.prems obtain rs where i: "arena_inv E w c a n0 rs bs"
    and fr: "arena_frame (mc_mem w0) (mc_mem w) c0 bs" "fixed_mappings c = fixed_mappings c0"
      "other_mappings w c ((a, n0) # rs @ bs) = others" by (rule arena_stateE)
  show ?case
    by (rule arena_state_emptied [OF _ _ _ _ fr(1,2)]) (use arena_reset_ok [OF i] step_reset.hyps fr(3) in auto)
next
  case (step_reset_secure w c w' c' os)
  from step_reset_secure.prems obtain rs where i: "arena_inv E w c a n0 rs bs"
    and fr: "arena_frame (mc_mem w0) (mc_mem w) c0 bs" "fixed_mappings c = fixed_mappings c0"
      "other_mappings w c ((a, n0) # rs @ bs) = others" by (rule arena_stateE)
  show ?case
    by (rule arena_state_emptied [OF _ _ _ _ fr(1,2)]) (use arena_reset_secure_ok [OF i] step_reset_secure.hyps fr(3) in auto)
next
  case (step_release_pages w r w' c os)
  from step_release_pages.prems obtain rs where i: "arena_inv E w c a n0 rs bs" "arena_objects (mc_mem w) a rs os"
    "arena_frame (mc_mem w0) (mc_mem w) c0 bs" "fixed_mappings c = fixed_mappings c0"
    "other_mappings w c ((a, n0) # rs @ bs) = others" by (rule arena_stateE)
  have "w' = w\<lparr>mc_clock := mc_clock w + length (arena_chunks a rs)\<rparr>"
    using arena_release_pages_ok [OF i(1)] step_release_pages.hyps by simp
  then show ?case
    using i by (auto simp: arena_state_def arena_inv_def world_def other_mappings_def)
qed

theorem arena_reachable_ok:
  assumes "(arena_step E a)\<^sup>*\<^sup>* (w, c, []) s" "arena_inv E w c a n0 rs bs"
  shows "arena_state E a n0 bs w c s (other_mappings w c ((a, n0) # rs @ bs))"
  using assms(1)
proof (induction rule: rtranclp_induct)
  case base
  then show ?case using assms(2) by (auto simp: arena_state_def arena_frame_def)
next
  case (step s t)
  then show ?case using arena_step_keeps by blast
qed

end

end
