(* ===== verification/BC_Arena_Demo.thy ===== *)
theory BC_Arena_Demo
  imports BC_Arena_Trace BC_Demo
begin

text \<open>
  A concrete growable arena of the demo context: created with an initial size of 100 bytes, so one page at
  139264 with 3968 bytes of room, and the states after an allocation of 4000 bytes, which grows it.
\<close>

lemma demo_maps: "mc_maps demo_machine = [(65536, 4096), (69632, 65536), (135168, 4096)]"
  using demo_facts(2) by (simp add: boot_def ctx_mappings_def demo_sel)

lemma demo_world: "world std_env demo_machine demo_ctx []"
  by (simp add: world_def demo_maps maps_ok_def map_ok_def apart_def std_core_simps demo_sel std_page ctx_mappings_def)

lemma std_map_arena:
  "mc_maps w = [(65536, 4096), (69632, 65536), (135168, 4096)] \<Longrightarrow> platform_map std_env w 4096 =
     (Some 139264, w\<lparr>mc_mem := fill_bytes (mc_mem w) 139264 4096 0,
        mc_maps := [(65536, 4096), (69632, 65536), (135168, 4096), (139264, 4096)], mc_clock := mc_clock w + 1\<rparr>)"
  "mc_maps w = [(65536, 4096), (69632, 65536), (135168, 4096), (139264, 4096)] \<Longrightarrow> platform_map std_env w 8192 =
     (Some 143360, w\<lparr>mc_mem := fill_bytes (mc_mem w) 143360 8192 0,
        mc_maps := [(65536, 4096), (69632, 65536), (135168, 4096), (139264, 4096), (143360, 8192)],
        mc_clock := mc_clock w + 1\<rparr>)"
  by (simp_all add: platform_map_def std_core_simps std_mmap_def round_up_def)

definition ar_machine :: machine where
  "ar_machine = fst (snd (bc_allocators_arena_create_growable std_env demo_machine demo_ctx 100 0))"

definition ar_ctx :: bc_context where
  "ar_ctx = snd (snd (bc_allocators_arena_create_growable std_env demo_machine demo_ctx 100 0))"

lemma ar_create:
  shows "bc_allocators_arena_create_growable std_env demo_machine demo_ctx 100 0 = (Some 139264, ar_machine, ar_ctx)"
    and "mc_maps ar_machine = [(65536, 4096), (69632, 65536), (135168, 4096), (139264, 4096)]"
    and "cx_arena_cache_count ar_ctx = 0" "cx_page_size ar_ctx = 4096"
proof -
  obtain w1 where m: "arena_map_block std_env demo_machine demo_ctx 4096 = (Some 139264, w1, demo_ctx)"
    "mc_maps w1 = [(65536, 4096), (69632, 65536), (135168, 4096), (139264, 4096)]"
    using std_map_arena(1) [OF demo_maps] by (simp add: arena_map_block_def demo_sel HUGEPAGE_THRESHOLD_def)
  have "\<exists>mem. bc_allocators_arena_create_growable std_env demo_machine demo_ctx 100 0 =
    (Some 139264, w1\<lparr>mc_mem := mem\<rparr>, track_mapped (demo_ctx\<lparr>cx_arena_create_count := cx_arena_create_count demo_ctx + 1\<rparr>) 4096)"
    by (simp add: bc_allocators_arena_create_growable_def arena_make_first_def Let_def std_core_simps
        header_sizes demo_sel round_up_def m(1)) blast
  then obtain mem where r: "bc_allocators_arena_create_growable std_env demo_machine demo_ctx 100 0 =
    (Some 139264, w1\<lparr>mc_mem := mem\<rparr>, track_mapped (demo_ctx\<lparr>cx_arena_create_count := cx_arena_create_count demo_ctx + 1\<rparr>) 4096)"
    by blast
  then show "bc_allocators_arena_create_growable std_env demo_machine demo_ctx 100 0 = (Some 139264, ar_machine, ar_ctx)"
    by (simp add: ar_machine_def ar_ctx_def)
  show "mc_maps ar_machine = [(65536, 4096), (69632, 65536), (135168, 4096), (139264, 4096)]"
    by (simp add: ar_machine_def r m(2))
  show "cx_arena_cache_count ar_ctx = 0" "cx_page_size ar_ctx = 4096"
    by (simp_all add: ar_ctx_def r demo_sel)
qed

lemma ar_first: "arena_make_first std_env demo_machine demo_ctx 100 100 0 True = (Some 139264, ar_machine, ar_ctx)"
  using ar_create(1) by (simp add: bc_allocators_arena_create_growable_def)

lemma ar_inv: "arena_inv std_env ar_machine ar_ctx 139264 4096 [] []"
  and ar_live: "arena_live (mc_mem ar_machine) 139264 [] = {}"
  and ar_growable: "arena_growable (mc_mem ar_machine) 139264"
  and ar_max: "arena_max_chunk_size (mc_mem ar_machine) 139264 = 0"
proof -
  obtain n0 where n: "arena_inv std_env ar_machine ar_ctx 139264 n0 [] []"
    "unat n0 = round_up (128 + unat (100 :: u64)) (pool_page demo_ctx)" "arena_live (mc_mem ar_machine) 139264 [] = {}"
    "arena_growable (mc_mem ar_machine) 139264 = True" "arena_max_chunk_size (mc_mem ar_machine) 139264 = 0"
    using std.make_first_ok(2) [OF demo_world ar_first refl] by metis
  have "unat n0 = unat (4096 :: u64)" using n(2) by (simp add: demo_sel round_up_def)
  then have "n0 = 4096" by (simp add: u64_eq_iff)
  then show "arena_inv std_env ar_machine ar_ctx 139264 4096 [] []" using n(1) by simp
  show "arena_live (mc_mem ar_machine) 139264 [] = {}" "arena_growable (mc_mem ar_machine) 139264"
    "arena_max_chunk_size (mc_mem ar_machine) 139264 = 0" using n(3-5) by simp_all
qed

lemma ar_room: "arena_fits (mc_mem ar_machine) 139264 sz al \<longleftrightarrow> round_up 139392 (unat al) + unat sz \<le> 143360"
proof -
  note d = arena_invD [OF ar_inv]
  have t: "(139328, 139264, 4096, 128) \<in> set (chunk_blocks 139264 4096 [])" by (simp add: chunk_blocks_def)
  note l = chunk_live_block(3,4) [OF d(1,3) t]
  have c: "load64 (mc_mem ar_machine) 139280 = 139328" using d(1) by (simp add: arena_rep_def arena_chunks_def)
  have "chunk_live (mc_mem ar_machine) 139328 = {}" using ar_live by (simp add: arena_live_def arena_chunks_def)
  then have "\<not> 0 < unat (chunk_used (mc_mem ar_machine) 139328)"
    unfolding chunk_live_def by (metis add_less_mono1 add_0 equals0D in_area le_refl add.commute)
  then show ?thesis using l by (simp add: arena_fits_def c Let_def)
qed

lemma ar_grow_le: "mc \<le> 7936 \<Longrightarrow> fst (arena_grow std_env ar_machine ar_ctx 139264 mc)"
proof -
  note d = arena_invD [OF ar_inv]
  have t: "(139328, 139264, 4096, 128) \<in> set (chunk_blocks 139264 4096 [])" by (simp add: chunk_blocks_def)
  have "unat (chunk_capacity (mc_mem ar_machine) 139328) = unat (3968 :: u64)"
    using chunk_live_block(4) [OF d(1,3) t] by simp
  then have cap: "load64 (mc_mem ar_machine) 139344 = 3968" by (simp add: u64_eq_iff)
  have mx: "load64 (mc_mem ar_machine) 139304 = 0" using ar_max by simp
  have c: "load64 (mc_mem ar_machine) 139280 = 139328" using d(1) by (simp add: arena_rep_def arena_chunks_def)
  assume "mc \<le> 7936"
  then have tg: "grow_target 3968 0 mc = 7936" by (auto simp: grow_target_def Let_def)
  show ?thesis
    by (simp add: arena_grow_def Let_def c cap mx tg std_core_simps header_sizes ar_create(3,4) round_up_def
        arena_map_block_def std_map_arena(2) [OF ar_create(2)] HUGEPAGE_THRESHOLD_def)
qed

lemma ar_grow: "fst (arena_grow std_env ar_machine ar_ctx 139264 4008)"
  and ar_grow0: "fst (arena_grow std_env ar_machine ar_ctx 139264 0)"
  by (simp_all add: ar_grow_le)

section \<open>After an allocation of 4000 bytes\<close>

definition ar1 :: "u64 option \<times> machine \<times> bc_context" where
  "ar1 = bc_allocators_arena_allocate std_env ar_machine ar_ctx 139264 4000 8"

lemma pow2_8: "pow2 8"
  unfolding pow2_def by (rule exI [of _ 3]) simp

lemma ar1_some: "fst ar1 \<noteq> None"
proof -
  obtain r w c where r: "bc_allocators_arena_allocate std_env ar_machine ar_ctx 139264 4000 8 = (r, w, c)"
    by (metis prod_cases3)
  have "r \<noteq> None"
    using std.arena_allocate_none_iff [OF ar_inv r] pow2_8 ar_grow ar_growable by simp
  then show ?thesis by (simp add: ar1_def r)
qed

end
