(* ===== verification/BC_Arena_Props.thy ===== *)
theory BC_Arena_Props
  imports BC_Arena_Demo
begin

text \<open>
  The properties of the arena. \<open>arena_inv E w c a n0 rs bs\<close> says that the machine holds a well-formed arena at
  \<open>a\<close> with first block \<open>(a, n0)\<close> and grown blocks \<open>rs\<close>, next to blocks \<open>bs\<close> of others.
\<close>

text \<open>C18: Allocation. Granted or refused, the arena stays well formed, at most one block is added (only if it is
  growable), no mapping of anybody else is touched, and every byte of others and every byte handed out before keeps its
  value. A granted block is aligned, not null, apart from all bytes handed out before, and counts as handed out.\<close>

theorem arena_allocate_correct:
  assumes "bc_os E" "arena_inv E w c a n0 rs bs" "bc_allocators_arena_allocate E w c a sz al = (r, w', c')"
  shows "\<exists>rs'. arena_kept E a n0 bs w c rs w' c' rs' \<and>
    (rs' = rs \<or> (arena_growable (mc_mem w) a \<and> (\<exists>e. rs' = rs @ [e]))) \<and>
    (case r of None \<Rightarrow> arena_live (mc_mem w') a rs' = arena_live (mc_mem w) a rs
     | Some p \<Rightarrow> arena_grant (mc_mem w) a rs sz al p (mc_mem w') rs')"
  by (rule bc_os.arena_allocate_ok [OF assms])

theorem arena_allocate_correct_witness:
  "\<exists>p rs'. fst ar1 = Some p \<and> arena_inv std_env (fst (snd ar1)) (snd (snd ar1)) 139264 4096 rs' [] \<and>
     8 dvd unat p \<and> area p 4000 \<subseteq> arena_live (mc_mem (fst (snd ar1))) 139264 rs'"
proof -
  obtain r w c where run: "bc_allocators_arena_allocate std_env ar_machine ar_ctx 139264 4000 8 = (r, w, c)"
    by (metis prod_cases3)
  then have e: "ar1 = (r, w, c)" by (simp add: ar1_def)
  have f: "fst ar1 = r" "fst (snd ar1) = w" "snd (snd ar1) = c" by (simp_all add: e)
  have "r \<noteq> None" using ar1_some by (simp add: e)
  then obtain p where p: "r = Some p" by blast
  from arena_allocate_correct [OF std.bc_os_axioms ar_inv run] obtain rs' where
    "arena_kept std_env 139264 4096 [] ar_machine ar_ctx [] w c rs'"
    "arena_grant (mc_mem ar_machine) 139264 [] 4000 8 p (mc_mem w) rs'" using p by auto
  then have "arena_inv std_env w c 139264 4096 rs' []" "8 dvd unat p" "area p 4000 \<subseteq> arena_live (mc_mem w) 139264 rs'"
    unfolding arena_kept_def arena_grant_def by simp_all
  then show ?thesis unfolding f p by blast
qed

text \<open>C19: Completeness. When size plus alignment does not wrap, an allocation is refused exactly when the size is zero or the
  alignment no power of two, or the current chunk has no room and the arena is fixed or cannot get a block.\<close>

theorem arena_allocate_refused_iff:
  assumes "bc_os E" "arena_inv E w c a n0 rs bs" "bc_allocators_arena_allocate E w c a sz al = (r, w', c')"
    and "unat sz + unat al < 18446744073709551616"
  shows "r = None \<longleftrightarrow> sz = 0 \<or> \<not> pow2 al \<or> (\<not> arena_fits (mc_mem w) a sz al \<and>
    (arena_growable (mc_mem w) a \<longrightarrow> \<not> fst (arena_grow E w c a (sz + al))))"
  by (rule bc_os.arena_allocate_none_iff [OF assms])

theorem arena_allocate_refused_iff_witness:
  "fst (bc_allocators_arena_allocate std_env ar_machine ar_ctx 139264 4000 8) \<noteq> None \<and>
   fst (bc_allocators_arena_allocate std_env ar_machine ar_ctx 139264 0 8) = None"
proof -
  obtain r w c where r: "bc_allocators_arena_allocate std_env ar_machine ar_ctx 139264 4000 8 = (r, w, c)"
    by (metis prod_cases3)
  obtain s v d where s: "bc_allocators_arena_allocate std_env ar_machine ar_ctx 139264 0 8 = (s, v, d)"
    by (metis prod_cases3)
  have "r \<noteq> None"
    using arena_allocate_refused_iff [OF std.bc_os_axioms ar_inv r] pow2_8 ar_grow ar_growable by simp
  moreover have "s = None" using arena_allocate_refused_iff [OF std.bc_os_axioms ar_inv s] by simp
  ultimately show ?thesis by (simp add: r s)
qed

text \<open>C20: Size plus alignment wraps (\<^verbatim>\<open>min_capacity\<close> in \<^verbatim>\<open>bc_allocators_arena_allocate\<close>). A growable arena refuses the
  request, but when the growth by the wrapped, small amount succeeds, the block mapped in vain stays linked.\<close>

theorem arena_allocate_wrap_keeps_block:
  assumes "bc_os E" "arena_inv E w c a n0 rs bs" "bc_allocators_arena_allocate E w c a sz al = (r, w', c')"
    and "pow2 al" "arena_growable (mc_mem w) a" "18446744073709551616 \<le> unat sz + unat al"
  shows "r = None \<and> (fst (arena_grow E w c a (sz + al)) \<longrightarrow>
    (\<exists>e. arena_inv E w' c' a n0 (rs @ [e]) bs \<and>
      arena_live (mc_mem w') a (rs @ [e]) = arena_live (mc_mem w) a rs))"
  by (rule bc_os.arena_allocate_wraps [OF assms])

theorem arena_allocate_wrap_keeps_block_witness:
  "\<exists>w' c' e. bc_allocators_arena_allocate std_env ar_machine ar_ctx 139264 18446744073709551615 1 = (None, w', c') \<and>
     arena_inv std_env w' c' 139264 4096 [e] []"
proof -
  obtain r w c where run: "bc_allocators_arena_allocate std_env ar_machine ar_ctx 139264 18446744073709551615 1 = (r, w, c)"
    by (metis prod_cases3)
  have p1: "pow2 1" unfolding pow2_def by (rule exI [of _ 0]) simp
  have "(18446744073709551615 :: u64) + 1 = 0" by simp
  then have g: "fst (arena_grow std_env ar_machine ar_ctx 139264 (18446744073709551615 + 1))" using ar_grow0 by metis
  have "r = None \<and> (\<exists>e. arena_inv std_env w c 139264 4096 [e] [])"
    using arena_allocate_wrap_keeps_block [OF std.bc_os_axioms ar_inv run p1 ar_growable] g by auto
  then show ?thesis using run by auto
qed

text \<open>C21: Creation of a fixed arena. On success the arena is empty and well formed, its block is the header overhead of 128
  bytes plus the capacity rounded up to pages, the bytes and mappings of others are untouched, the counters follow; on
  failure nothing is mapped, cached or written.\<close>

theorem arena_create_correct:
  assumes "bc_os E" "world E w c bs" "bc_allocators_arena_create E w c capacity = (r, w', c')"
  shows "case r of None \<Rightarrow> c' = c \<and> mc_mem w' = mc_mem w \<and> mc_maps w' = mc_maps w
    | Some a \<Rightarrow> \<exists>n0. arena_inv E w' c' a n0 [] bs \<and> capacity \<noteq> 0 \<and>
        unat n0 = round_up (128 + unat capacity) (pool_page c) \<and>
        arena_live (mc_mem w') a [] = {} \<and> \<not> arena_growable (mc_mem w') a \<and>
        arena_frame (mc_mem w) (mc_mem w') c bs \<and>
        other_mappings w' c' ((a, n0) # bs) = other_mappings w c bs \<and>
        (cx_tracking_enabled c \<longrightarrow> cx_arena_create_count c' = cx_arena_create_count c + 1 \<and>
           cx_total_mapped_bytes c' = cx_total_mapped_bytes c + n0 \<and>
           cx_total_mapped_bytes c' \<le> cx_peak_mapped_bytes c')"
  using bc_os.make_first_ok(1,2) [OF assms(1,2) assms(3) [unfolded bc_allocators_arena_create_def]]
  by (cases r) auto

theorem arena_create_correct_witness:
  "\<exists>a w c n0. bc_allocators_arena_create std_env demo_machine demo_ctx 100 = (Some a, w, c) \<and>
     arena_inv std_env w c a n0 [] [] \<and> unat n0 = 4096"
proof -
  obtain r w c where run: "bc_allocators_arena_create std_env demo_machine demo_ctx 100 = (r, w, c)"
    by (metis prod_cases3)
  have "fst (bc_allocators_arena_create std_env demo_machine demo_ctx 100) = Some 139264"
    using std_map_arena(1) [OF demo_maps]
    by (simp add: bc_allocators_arena_create_def arena_make_first_def Let_def std_core_simps header_sizes demo_sel
        round_up_def arena_map_block_def HUGEPAGE_THRESHOLD_def)
  then have r: "r = Some 139264" by (simp add: run)
  show ?thesis
    using arena_create_correct [OF std.bc_os_axioms demo_world run] run r by (auto simp: demo_sel round_up_def)
qed

text \<open>Creation of a growable arena. An initial size of zero, or above a nonzero maximum, is refused before anything
  happens; otherwise creation is as for a fixed arena, and the arena keeps the maximum for its growth.\<close>

theorem arena_create_growable_correct:
  assumes "bc_os E" "world E w c bs"
    and "bc_allocators_arena_create_growable E w c initial_size max_size = (r, w', c')"
  shows "case r of None \<Rightarrow> c' = c \<and> mc_mem w' = mc_mem w \<and> mc_maps w' = mc_maps w
    | Some a \<Rightarrow> initial_size \<noteq> 0 \<and> (max_size \<noteq> 0 \<longrightarrow> initial_size \<le> max_size) \<and>
        (\<exists>n0. arena_inv E w' c' a n0 [] bs \<and>
          unat n0 = round_up (128 + unat initial_size) (pool_page c) \<and>
          arena_live (mc_mem w') a [] = {} \<and> arena_growable (mc_mem w') a \<and>
          arena_max_chunk_size (mc_mem w') a = max_size \<and>
          arena_frame (mc_mem w) (mc_mem w') c bs \<and>
          other_mappings w' c' ((a, n0) # bs) = other_mappings w c bs)"
proof (cases "initial_size = 0 \<or> (max_size \<noteq> 0 \<and> max_size < initial_size)")
  case True
  then have "(r, w', c') = (None, w, c)"
    using assms(3) by (auto simp: bc_allocators_arena_create_growable_def split: if_splits)
  then show ?thesis by simp
next
  case False
  then have "arena_make_first E w c initial_size initial_size max_size True = (r, w', c')"
    using assms(3) by (auto simp: bc_allocators_arena_create_growable_def)
  note mf = bc_os.make_first_ok(1,2) [OF assms(1,2) this]
  show ?thesis using mf False by (cases r) (auto simp: not_less)
qed

theorem arena_create_growable_correct_witness:
  "\<exists>n0. arena_inv std_env ar_machine ar_ctx 139264 n0 [] [] \<and> unat n0 = 4096 \<and>
     fst (bc_allocators_arena_create_growable std_env demo_machine demo_ctx 100 99) = None"
proof -
  obtain r w c where r: "bc_allocators_arena_create_growable std_env demo_machine demo_ctx 100 99 = (r, w, c)"
    by (metis prod_cases3)
  have "r = None"
    using arena_create_growable_correct [OF std.bc_os_axioms demo_world r] by (auto split: option.splits)
  then show ?thesis
    using arena_create_growable_correct [OF std.bc_os_axioms demo_world ar_create(1)] r
    by (auto simp: demo_sel round_up_def)
qed

text \<open>C22: Destruction. It returns, writes no memory, and gives every block of the arena back to the cache or to the system:
  the mappings that belong neither to the context nor to others are the same before and after; the counters follow.\<close>

theorem arena_destroy_correct:
  assumes "bc_os E" "arena_inv E w c a n0 rs bs"
  shows "\<exists>w' c'. bc_allocators_arena_destroy E w c a = Some (w', c') \<and> world E w' c' bs \<and> mc_mem w' = mc_mem w \<and>
    other_mappings w' c' bs = other_mappings w c ((a, n0) # rs @ bs) \<and>
    pool_view c' = pool_view c \<and> stat_view c' = stat_view c \<and> fixed_mappings c' = fixed_mappings c \<and>
    (cx_tracking_enabled c \<longrightarrow> cx_arena_create_count c' = cx_arena_create_count c \<and>
       cx_arena_destroy_count c' = cx_arena_destroy_count c + 1 \<and>
       cx_total_mapped_bytes c' = cx_total_mapped_bytes c - sum_list (map snd ((a, n0) # rs)))"
  by (rule bc_os.arena_destroy_ok [OF assms])

theorem arena_destroy_correct_witness:
  "\<exists>w' c'. bc_allocators_arena_destroy std_env ar_machine ar_ctx 139264 = Some (w', c') \<and> world std_env w' c' []"
  using arena_destroy_correct [OF std.bc_os_axioms ar_inv] by blast

text \<open>C23: Reset. It returns, keeps only the first block, empty, gives every grown block back, writes nothing outside the
  headers of the first block, and keeps the growth settings.\<close>

theorem arena_reset_correct:
  assumes "bc_os E" "arena_inv E w c a n0 rs bs"
  shows "\<exists>w' c'. bc_allocators_arena_reset E w c a = Some (w', c') \<and> arena_inv E w' c' a n0 [] bs \<and>
    arena_live (mc_mem w') a [] = {} \<and> arena_allocation_count (mc_mem w') a = 0 \<and>
    arena_growable (mc_mem w') a = arena_growable (mc_mem w) a \<and>
    arena_max_chunk_size (mc_mem w') a = arena_max_chunk_size (mc_mem w) a \<and>
    agree (mc_mem w) (mc_mem w') (- area a 128) \<and> arena_frame (mc_mem w) (mc_mem w') c bs \<and>
    other_mappings w' c' ((a, n0) # bs) = other_mappings w c ((a, n0) # rs @ bs) \<and>
    pool_view c' = pool_view c \<and> stat_view c' = stat_view c \<and> fixed_mappings c' = fixed_mappings c \<and>
    (cx_tracking_enabled c \<longrightarrow> cx_arena_create_count c' = cx_arena_create_count c \<and>
       cx_arena_destroy_count c' = cx_arena_destroy_count c \<and>
       cx_total_mapped_bytes c' = cx_total_mapped_bytes c - sum_list (map snd rs))"
  by (rule bc_os.arena_reset_ok [OF assms])

lemma ar1_inv:
  obtains p rs where "ar1 = (Some p, fst (snd ar1), snd (snd ar1))"
    "arena_inv std_env (fst (snd ar1)) (snd (snd ar1)) 139264 4096 rs []"
    "area p 4000 \<subseteq> arena_live (mc_mem (fst (snd ar1))) 139264 rs"
proof -
  obtain r w c where run: "bc_allocators_arena_allocate std_env ar_machine ar_ctx 139264 4000 8 = (r, w, c)"
    by (metis prod_cases3)
  then have e: "ar1 = (r, w, c)" by (simp add: ar1_def)
  have f: "fst ar1 = r" "fst (snd ar1) = w" "snd (snd ar1) = c" by (simp_all add: e)
  have "r \<noteq> None" using ar1_some by (simp add: e)
  then obtain p where p: "r = Some p" by blast
  obtain rs' where "arena_kept std_env 139264 4096 [] ar_machine ar_ctx [] w c rs'"
    "arena_grant (mc_mem ar_machine) 139264 [] 4000 8 p (mc_mem w) rs'"
    using std.arena_allocate_ok [OF ar_inv run] p by auto
  then have "arena_inv std_env w c 139264 4096 rs' []" "area p 4000 \<subseteq> arena_live (mc_mem w) 139264 rs'"
    unfolding arena_kept_def arena_grant_def by simp_all
  then show thesis using e unfolding p by (intro that [of p rs']) (simp_all only: f fst_conv snd_conv)
qed

theorem arena_reset_correct_witness:
  "\<exists>w' c'. bc_allocators_arena_reset std_env (fst (snd ar1)) (snd (snd ar1)) 139264 = Some (w', c') \<and>
     arena_inv std_env w' c' 139264 4096 [] [] \<and> arena_live (mc_mem w') 139264 [] = {}"
proof -
  obtain rs where "arena_inv std_env (fst (snd ar1)) (snd (snd ar1)) 139264 4096 rs []" using ar1_inv by blast
  from arena_reset_correct [OF std.bc_os_axioms this] show ?thesis by blast
qed

text \<open>C24: Secure reset. It returns, every byte handed out since the last reset reads zero afterwards, and the arena is
  empty as after a reset; nothing else is written but the headers of the first block.\<close>

theorem arena_reset_secure_correct:
  assumes "bc_os E" "arena_inv E w c a n0 rs bs"
  shows "\<exists>w' c'. bc_allocators_arena_reset_secure E w c a = Some (w', c') \<and> arena_inv E w' c' a n0 [] bs \<and>
    arena_live (mc_mem w') a [] = {} \<and> (\<forall>b \<in> arena_live (mc_mem w) a rs. mc_mem w' b = 0) \<and>
    agree (mc_mem w) (mc_mem w') (- (area a 128 \<union> arena_live (mc_mem w) a rs)) \<and>
    arena_frame (mc_mem w) (mc_mem w') c bs \<and>
    other_mappings w' c' ((a, n0) # bs) = other_mappings w c ((a, n0) # rs @ bs)"
  using bc_os.arena_reset_secure_ok [OF assms] by blast

theorem arena_reset_secure_correct_witness:
  "\<exists>p w' c'. fst ar1 = Some p \<and>
     bc_allocators_arena_reset_secure std_env (fst (snd ar1)) (snd (snd ar1)) 139264 = Some (w', c') \<and>
     (\<forall>b \<in> area p 4000. mc_mem w' b = 0)"
proof -
  obtain p rs where p: "ar1 = (Some p, fst (snd ar1), snd (snd ar1))"
    "arena_inv std_env (fst (snd ar1)) (snd (snd ar1)) 139264 4096 rs []"
    "area p 4000 \<subseteq> arena_live (mc_mem (fst (snd ar1))) 139264 rs" by (rule ar1_inv)
  from p(1) have "fst ar1 = Some p" by (metis fst_conv)
  with arena_reset_secure_correct [OF std.bc_os_axioms p(2)] p(3) show ?thesis by blast
qed

text \<open>C25: Releasing pages does nothing. The call answers true, but the memory of a chunk starts behind its header and so
  never on a page boundary, every \<^verbatim>\<open>madvise\<close> fails and the machine is unchanged but for the number of system calls.\<close>

theorem arena_release_pages_no_effect:
  assumes "bc_os E" "arena_inv E w c a n0 rs bs"
  shows "bc_allocators_arena_release_pages E w a =
    Some (True, w\<lparr>mc_clock := mc_clock w + length (arena_chunks a rs)\<rparr>)"
  by (rule bc_os.arena_release_pages_ok [OF assms])

theorem arena_release_pages_no_effect_witness:
  "bc_allocators_arena_release_pages std_env ar_machine 139264 = Some (True, ar_machine\<lparr>mc_clock := mc_clock ar_machine + 1\<rparr>)"
  using arena_release_pages_no_effect [OF std.bc_os_axioms ar_inv] by (simp add: arena_chunks_def)

text \<open>C26: Statistics. The walk returns and no sum wraps: the chunk count, the reserved bytes (the bytes mapped for the
  arena) and the used bytes (the bytes handed out, padding included) are exact, and the capacity is the reserved bytes less
  the headers.\<close>

theorem arena_get_stats_correct:
  assumes "arena_inv E w c a n0 rs bs"
  shows "\<exists>s. bc_allocators_arena_get_stats (mc_mem w) a = Some (True, s) \<and>
    as_allocation_count s = arena_allocation_count (mc_mem w) a \<and> unat (as_chunk_count s) = Suc (length rs) \<and>
    unat (as_total_reserved s) = card (mapped_bytes ((a, n0) # rs)) \<and>
    unat (as_used s) = card (arena_live (mc_mem w) a rs) \<and>
    unat (as_capacity s) + 128 + 64 * length rs = unat (as_total_reserved s) \<and> as_used s \<le> as_capacity s"
  using arena_get_stats_ok arena_invD(1,3) [OF assms] by blast

theorem arena_get_stats_correct_witness:
  "\<exists>s. bc_allocators_arena_get_stats (mc_mem ar_machine) 139264 = Some (True, s) \<and> unat (as_used s) = 0 \<and>
     unat (as_chunk_count s) = 1"
  using arena_get_stats_correct [OF ar_inv] ar_live by auto

text \<open>C27: Copying a string. The source ends at its first zero byte, \<open>k\<close> bytes from its start, and lies in memory of somebody
  (bytes of the arena, the pool region or other blocks). A successful copy is a fresh allocation that holds the same
  \<open>k + 1\<close> bytes, the zero included.\<close>

theorem arena_copy_string_correct:
  assumes "bc_os E" "arena_inv E w c a n0 rs bs" "bc_allocators_arena_copy_string E w c a s = (Some p, w', c')"
    and "mc_mem w (s + of_nat k) = 0" "\<forall>i < k. mc_mem w (s + of_nat i) \<noteq> 0" "unat s + k < 18446744073709551616"
    and "area s (Suc k) \<subseteq> arena_live (mc_mem w) a rs \<union> mapped_bytes (bs @ fixed_mappings c)"
  shows "\<exists>rs'. arena_inv E w' c' a n0 rs' bs \<and> arena_grant (mc_mem w) a rs (of_nat (Suc k)) 1 p (mc_mem w') rs' \<and>
    arena_frame (mc_mem w) (mc_mem w') c bs \<and> (\<forall>i \<le> k. mc_mem w' (p + of_nat i) = mc_mem w (s + of_nat i))"
  using bc_os.arena_copy_string_ok [OF assms] unfolding arena_kept_def by blast

theorem arena_copy_string_correct_witness:
  "\<exists>w p w' c'. bc_allocators_arena_copy_string std_env w ar_ctx 139264 69632 = (Some p, w', c') \<and>
     mc_mem w 69632 = 104 \<and> mc_mem w' p = 104 \<and> mc_mem w' (p + 1) = 105 \<and> mc_mem w' (p + 2) = 0"
proof -
  define m where "m = (mc_mem ar_machine)(69632 := 104, 69633 := 105, 69634 := 0)"
  define v where "v = ar_machine\<lparr>mc_mem := m\<rparr>"
  note d = arena_invD [OF ar_inv]
  have hd: "agree (mc_mem ar_machine) m (arena_headers 139264 [])" by (auto simp: agree_def m_def arena_headers_def)
  have rep: "arena_rep m 139264 4096 []" by (rule arena_rep_cong(1) [OF d(1,3) hd])
  then have inv: "arena_inv std_env v ar_ctx 139264 4096 [] []" using d(2) by (simp add: arena_inv_def v_def)
  have mv: "mc_mem v = m" by (simp add: v_def)
  have s: "m 69632 = 104" "m 69633 = 105" "m 69634 = 0" by (simp_all add: m_def)
  have nul: "mc_mem v (69632 + of_nat 2) = 0" "\<forall>i < 2. mc_mem v (69632 + of_nat i) \<noteq> 0"
    using s by (auto simp: mv less_2_cases_iff)
  have len: "core_length std_env (mc_mem v) 69632 0 = of_nat 2" by (rule std.length_char [OF nul]) simp
  obtain r w1 c1 where al: "bc_allocators_arena_allocate std_env v ar_ctx 139264 3 1 = (r, w1, c1)" by (metis prod_cases3)
  have "arena_fits (mc_mem v) 139264 3 1"
  proof -
    have h: "agree (mc_mem ar_machine) m (area 139264 64)" "agree (mc_mem ar_machine) m (area 139328 64)"
      by (auto simp: agree_def m_def)
    have cur: "load64 (mc_mem ar_machine) 139280 = 139328"
      using d(1) by (simp add: arena_rep_def arena_chunks_def)
    have "load64 m 139280 = load64 (mc_mem ar_machine) 139280"
      using head_fields_cong(1) [OF h(1), of 16] by simp
    moreover have "load64 m 139352 = load64 (mc_mem ar_machine) 139352" "load64 m 139344 = load64 (mc_mem ar_machine) 139344"
      "load64 m 139360 = load64 (mc_mem ar_machine) 139360"
      using head_fields_cong(1) [OF h(2), of 24] head_fields_cong(1) [OF h(2), of 16] head_fields_cong(1) [OF h(2), of 32]
      by simp_all
    ultimately have "arena_fits m 139264 3 1 = arena_fits (mc_mem ar_machine) 139264 3 1"
      using cur by (simp add: arena_fits_def Let_def)
    then show ?thesis using ar_room [of 3 1] by (simp add: mv)
  qed
  moreover have "pow2 1" unfolding pow2_def by (rule exI [of _ 0]) simp
  ultimately have "r \<noteq> None" using std.arena_allocate_none_iff [OF inv al] by simp
  then obtain p where "r = Some p" by blast
  then obtain w' c' where run: "bc_allocators_arena_copy_string std_env v ar_ctx 139264 69632 = (Some p, w', c')"
    using al len by (simp add: bc_allocators_arena_copy_string_def Let_def)
  have fx: "fixed_mappings ar_ctx = [(135168, 4096), (69632, 65536), (65536, 4096)]"
    using std.make_first_ok(5) [OF demo_world ar_first] by (simp add: fixed_mappings_def demo_sel)
  have lim: "unat (69632 :: u64) + 2 < 18446744073709551616" by simp
  have src: "area 69632 (Suc 2) \<subseteq> arena_live (mc_mem v) 139264 [] \<union> mapped_bytes ([] @ fixed_mappings ar_ctx)"
    by (auto simp: fx)
  have "\<forall>i \<le> 2. mc_mem w' (p + of_nat i) = mc_mem v (69632 + of_nat i)"
    using arena_copy_string_correct [OF std.bc_os_axioms inv run nul lim src] by blast
  from this [rule_format, of 0] this [rule_format, of 1] this [rule_format, of 2]
  show ?thesis using run s mv by (intro exI [of _ v] exI [of _ p] exI [of _ w'] exI [of _ c']) simp
qed

end
