(* ===== verification/BC_Slab.thy ===== *)
theory BC_Slab
  imports BC_Pool_Since
begin

text \<open>
  \<^verbatim>\<open>src/slab/bc_allocators_slab.c\<close>, function by function. The slab struct, the page structs and the links of the free objects
  lie in pool memory, at the offsets of the C structs (56 and 16 bytes on LP64). The context a slab belongs to
  (\<^verbatim>\<open>slab->memory\<close>) is passed and returned. The two loops re-read the struct on every turn as the C code does, so they are
  \<^verbatim>\<open>partial_function (option)\<close>: on corrupted memory they would not return.
  The product of \<^verbatim>\<open>allocate_new_page\<close> wraps as in C; the theorems bound it by \<open>2 ^ 63\<close>, because behind a page that wrapped
  \<open>push_slots\<close> stores to addresses where the process would fault, and the model, whose memory is total, would not.
\<close>

section \<open>Layout\<close>

definition sizeof_slab :: u64 where
  "sizeof_slab = 56"

definition sizeof_slab_page :: u64 where
  "sizeof_slab_page = 16"

abbreviation slab_object_size :: "mem \<Rightarrow> u64 \<Rightarrow> u64" where
  "slab_object_size m s \<equiv> load64 m (s + 8)"

abbreviation slab_objects_per_slab :: "mem \<Rightarrow> u64 \<Rightarrow> u64" where
  "slab_objects_per_slab m s \<equiv> load64 m (s + 16)"

abbreviation slab_free_list_head :: "mem \<Rightarrow> u64 \<Rightarrow> u64" where
  "slab_free_list_head m s \<equiv> load64 m (s + 24)"

abbreviation slab_pages :: "mem \<Rightarrow> u64 \<Rightarrow> u64" where
  "slab_pages m s \<equiv> load64 m (s + 32)"

abbreviation slab_slab_count :: "mem \<Rightarrow> u64 \<Rightarrow> u64" where
  "slab_slab_count m s \<equiv> load64 m (s + 40)"

abbreviation slab_used_objects :: "mem \<Rightarrow> u64 \<Rightarrow> u64" where
  "slab_used_objects m s \<equiv> load64 m (s + 48)"

abbreviation page_objects :: "mem \<Rightarrow> u64 \<Rightarrow> u64" where
  "page_objects m p \<equiv> load64 m p"

abbreviation page_next :: "mem \<Rightarrow> u64 \<Rightarrow> u64" where
  "page_next m p \<equiv> load64 m (p + 8)"

text \<open>The free list with its head in the struct: \<^verbatim>\<open>bc_allocators_free_list_push(&slab->free_list_head, block)\<close>.\<close>

definition slab_push :: "mem \<Rightarrow> u64 \<Rightarrow> u64 \<Rightarrow> mem" where
  "slab_push m slab block =
     (case bc_allocators_free_list_push m (slab_free_list_head m slab) block of
        (m1, head) \<Rightarrow> store64 m1 (slab + 24) head)"

definition slab_pop :: "mem \<Rightarrow> u64 \<Rightarrow> u64 \<times> mem" where
  "slab_pop m slab =
     (case bc_allocators_free_list_pop m (slab_free_list_head m slab) of
        (block, head) \<Rightarrow> (block, if block \<noteq> NULL then store64 m (slab + 24) head else m))"

section \<open>Operations\<close>

partial_function (option) push_slots :: "mem \<Rightarrow> u64 \<Rightarrow> u64 \<Rightarrow> u64 \<Rightarrow> mem option" where
  "push_slots m slab objects_ptr slot_index =
     (if slot_index < slab_objects_per_slab m slab
      then push_slots (slab_push m slab (objects_ptr + slot_index * slab_object_size m slab)) slab objects_ptr
             (slot_index + 1)
      else Some m)"

definition allocate_new_page :: "env \<Rightarrow> mem \<Rightarrow> bc_context \<Rightarrow> u64 \<Rightarrow> (bool \<times> mem \<times> bc_context) option" where
  "allocate_new_page E m c slab =
     (case bc_allocators_pool_allocate E m c sizeof_slab_page of
        (None, m1, c1) \<Rightarrow> Some (False, m1, c1)
      | (Some page, m1, c1) \<Rightarrow>
          (case bc_allocators_pool_allocate E m1 c1
                  (slab_objects_per_slab m1 slab * slab_object_size m1 slab) of
             (None, m2, c2) \<Rightarrow> (case bc_allocators_pool_free m2 c2 page of (m3, c3) \<Rightarrow> Some (False, m3, c3))
           | (Some objects_ptr, m2, c2) \<Rightarrow>
               let m3 = store64 m2 page objects_ptr;
                   m4 = store64 m3 (page + 8) (slab_pages m3 slab);
                   m5 = store64 m4 (slab + 32) page;
                   m6 = store64 m5 (slab + 40) (slab_slab_count m5 slab + 1);
                   m7 = slab_push m6 slab objects_ptr
               in (case push_slots m7 slab objects_ptr 1 of None \<Rightarrow> None | Some m8 \<Rightarrow> Some (True, m8, c2))))"

definition init_slab :: "mem \<Rightarrow> u64 \<Rightarrow> u64 \<Rightarrow> u64 \<Rightarrow> u64 \<Rightarrow> mem" where
  "init_slab m slab memory object_size objects_per_slab =
     (let m1 = store64 m slab memory;
          m2 = store64 m1 (slab + 8) object_size;
          m3 = store64 m2 (slab + 16) objects_per_slab;
          m4 = store64 m3 (slab + 24) NULL;
          m5 = store64 m4 (slab + 32) NULL;
          m6 = store64 m5 (slab + 40) 0
      in store64 m6 (slab + 48) 0)"

definition bc_allocators_slab_create ::
  "env \<Rightarrow> mem \<Rightarrow> bc_context \<Rightarrow> u64 \<Rightarrow> u64 \<Rightarrow> (u64 option \<times> mem \<times> bc_context) option" where
  "bc_allocators_slab_create E m c object_size objects_per_slab =
     (if object_size < 8 \<or> objects_per_slab = 0 then Some (None, m, c)
      else
        case bc_allocators_pool_allocate E m c sizeof_slab of
          (None, m1, c1) \<Rightarrow> Some (None, m1, c1)
        | (Some slab, m1, c1) \<Rightarrow>
            let m2 = init_slab m1 slab (cx_self c1) object_size objects_per_slab
            in (case allocate_new_page E m2 c1 slab of
                  None \<Rightarrow> None
                | Some (False, m3, c3) \<Rightarrow>
                    (case bc_allocators_pool_free m3 c3 slab of (m4, c4) \<Rightarrow> Some (None, m4, c4))
                | Some (True, m3, c3) \<Rightarrow> Some (Some slab, m3, c3)))"

partial_function (option) free_pages :: "mem \<Rightarrow> bc_context \<Rightarrow> u64 \<Rightarrow> (mem \<times> bc_context) option" where
  "free_pages m c page =
     (if page = NULL then Some (m, c)
      else
        let next = page_next m page;
            s = bc_allocators_pool_free m c (page_objects m page);
            t = bc_allocators_pool_free (fst s) (snd s) page
        in free_pages (fst t) (snd t) next)"

definition bc_allocators_slab_destroy :: "mem \<Rightarrow> bc_context \<Rightarrow> u64 \<Rightarrow> (mem \<times> bc_context) option" where
  "bc_allocators_slab_destroy m c slab =
     (case free_pages m c (slab_pages m slab) of
        None \<Rightarrow> None
      | Some (m1, c1) \<Rightarrow> Some (bc_allocators_pool_free m1 c1 slab))"

definition slab_take :: "mem \<Rightarrow> u64 \<Rightarrow> u64 \<times> mem" where
  "slab_take m slab =
     (case slab_pop m slab of
        (ptr, m1) \<Rightarrow> (ptr, store64 m1 (slab + 48) (slab_used_objects m1 slab + 1)))"

definition bc_allocators_slab_allocate ::
  "env \<Rightarrow> mem \<Rightarrow> bc_context \<Rightarrow> u64 \<Rightarrow> (u64 option \<times> mem \<times> bc_context) option" where
  "bc_allocators_slab_allocate E m c slab =
     (if slab_free_list_head m slab = NULL then
        (case allocate_new_page E m c slab of
           None \<Rightarrow> None
         | Some (False, m1, c1) \<Rightarrow> Some (None, m1, c1)
         | Some (True, m1, c1) \<Rightarrow> (case slab_take m1 slab of (ptr, m2) \<Rightarrow> Some (Some ptr, m2, c1)))
      else (case slab_take m slab of (ptr, m2) \<Rightarrow> Some (Some ptr, m2, c)))"

definition bc_allocators_slab_free :: "mem \<Rightarrow> u64 \<Rightarrow> u64 \<Rightarrow> mem" where
  "bc_allocators_slab_free m slab ptr =
     (let m1 = slab_push m slab ptr in store64 m1 (slab + 48) (slab_used_objects m1 slab - 1))"

record slab_stats =
  ss_object_size :: u64
  ss_objects_per_slab :: u64
  ss_slab_count :: u64
  ss_total_objects :: u64
  ss_used_objects :: u64
  ss_free_objects :: u64

definition bc_allocators_slab_get_stats :: "mem \<Rightarrow> u64 \<Rightarrow> bool \<times> slab_stats" where
  "bc_allocators_slab_get_stats m slab =
     (let total_objects = slab_slab_count m slab * slab_objects_per_slab m slab
      in (True, \<lparr>ss_object_size = slab_object_size m slab, ss_objects_per_slab = slab_objects_per_slab m slab,
            ss_slab_count = slab_slab_count m slab, ss_total_objects = total_objects,
            ss_used_objects = slab_used_objects m slab,
            ss_free_objects = total_objects - slab_used_objects m slab\<rparr>))"

section \<open>Slots\<close>

definition slots :: "u64 \<Rightarrow> u64 \<Rightarrow> u64 \<Rightarrow> u64 list" where
  "slots q osz ops = map (\<lambda>i. q + of_nat i * osz) [0 ..< unat ops]"

definition all_slots :: "u64 \<Rightarrow> u64 \<Rightarrow> (u64 \<times> u64) list \<Rightarrow> u64 set" where
  "all_slots osz ops ps = (\<Union>(p, q) \<in> set ps. set (slots q osz ops))"

lemma slot_addr:
  fixes q osz ops :: u64
  assumes "unat q + unat ops * unat osz \<le> 140737488355328" "i < unat ops"
  shows "unat (q + of_nat i * osz) = unat q + i * unat osz" "i * unat osz + unat osz \<le> unat ops * unat osz"
proof -
  have "Suc i * unat osz \<le> unat ops * unat osz" using assms(2) by (intro mult_le_mono1) simp
  then show b: "i * unat osz + unat osz \<le> unat ops * unat osz" by simp
  have "unat (of_nat i :: u64) = i" using assms(2) u64_max [of ops] by (intro unat_of_nat_no_wrap) linarith
  moreover from this have "unat (of_nat i * osz) = i * unat osz" using b assms(1) by (simp add: no_wrap)
  ultimately show "unat (q + of_nat i * osz) = unat q + i * unat osz" using b assms(1) by (simp add: no_wrap)
qed

lemma slots_facts:
  assumes lim: "unat q + unat ops * unat osz \<le> 140737488355328" and osz: "8 \<le> unat osz" and q: "q \<noteq> NULL"
  shows "distinct (slots q osz ops)"
    "b \<in> set (slots q osz ops) \<Longrightarrow> node b \<and> area b (unat osz) \<subseteq> area q (unat ops * unat osz)"
    "b \<in> set (slots q osz ops) \<Longrightarrow> b' \<in> set (slots q osz ops) \<Longrightarrow> b \<noteq> b' \<Longrightarrow> apart b (unat osz) b' (unat osz)"
proof -
  note ad = slot_addr [OF lim]
  have inj: "i = j" if "i < unat ops" "j < unat ops" "q + of_nat i * osz = q + of_nat j * osz" for i j
  proof -
    have "i * unat osz = j * unat osz" using ad(1) [OF that(1)] ad(1) [OF that(2)] that(3) by (metis add_left_cancel)
    then show ?thesis using osz by auto
  qed
  then show "distinct (slots q osz ops)" by (auto simp: slots_def distinct_map inj_on_def)
  show "node b \<and> area b (unat osz) \<subseteq> area q (unat ops * unat osz)" if b: "b \<in> set (slots q osz ops)"
  proof -
    obtain i where i: "i < unat ops" "b = q + of_nat i * osz" using b by (auto simp: slots_def)
    note a = ad [OF i(1), folded i(2)]
    have "0 < unat q" using q by (simp add: unat_gt_0)
    then have "b \<noteq> NULL" using a(1) by auto
    moreover have "unat b + 8 \<le> 18446744073709551616" using a lim osz by linarith
    ultimately show ?thesis using a by (auto simp: node_def)
  qed
  show "apart b (unat osz) b' (unat osz)"
    if b: "b \<in> set (slots q osz ops)" "b' \<in> set (slots q osz ops)" "b \<noteq> b'"
  proof -
    obtain i j where i: "i < unat ops" "b = q + of_nat i * osz" "j < unat ops" "b' = q + of_nat j * osz"
      using b by (auto simp: slots_def)
    note a = ad(1) [OF i(1), folded i(2)] ad(1) [OF i(3), folded i(4)]
    have "i \<noteq> j" using b(3) i(2,4) by blast
    then have "Suc i \<le> j \<or> Suc j \<le> i" by auto
    then have "Suc i * unat osz \<le> j * unat osz \<or> Suc j * unat osz \<le> i * unat osz" using mult_le_mono1 by blast
    then show ?thesis using a by (auto simp: apart_def)
  qed
qed

end
