(* ===== verification/BC_Slab_Inv.thy ===== *)
theory BC_Slab_Inv
  imports BC_Slab
begin

text \<open>
  The invariant of a slab. Its objects in the pool are the struct, the page structs and the object arrays; \<open>slab_rep\<close>
  says what the bytes of these objects mean: the pages \<open>ps\<close> with their arrays, the free slots \<open>fs\<close> in list order, and the
  counters. The slots not free are in use, and the slab never writes to them.
\<close>

definition slab_heads :: "mem \<Rightarrow> u64 \<Rightarrow> u64 \<Rightarrow> u64 \<Rightarrow> (u64 \<times> u64) list \<Rightarrow> bool" where
  "slab_heads m s osz ops ps \<longleftrightarrow>
     slab_object_size m s = osz \<and> slab_objects_per_slab m s = ops \<and>
     chain m 8 (slab_pages m s) (map fst ps) \<and> (\<forall>(p, q) \<in> set ps. page_objects m p = q) \<and>
     slab_slab_count m s = of_nat (length ps)"

definition slab_rep :: "mem \<Rightarrow> u64 \<Rightarrow> u64 \<Rightarrow> u64 \<Rightarrow> (u64 \<times> u64) list \<Rightarrow> u64 list \<Rightarrow> bool" where
  "slab_rep m s osz ops ps fs \<longleftrightarrow>
     slab_heads m s osz ops ps \<and>
     intrusive_rep m (slab_free_list_head m s) fs \<and> distinct fs \<and> set fs \<subseteq> all_slots osz ops ps \<and>
     slab_used_objects m s = of_nat (card (all_slots osz ops ps - set fs))"

lemma slab_repD:
  assumes "slab_rep m s osz ops ps fs"
  shows "slab_heads m s osz ops ps" "intrusive_rep m (slab_free_list_head m s) fs" "distinct fs"
    "set fs \<subseteq> all_slots osz ops ps" "slab_used_objects m s = of_nat (card (all_slots osz ops ps - set fs))"
  using assms by (auto simp: slab_rep_def)

definition slab_ptrs :: "u64 \<Rightarrow> (u64 \<times> u64) list \<Rightarrow> u64 list" where
  "slab_ptrs s ps = s # map fst ps @ map snd ps"

definition slab_own :: "u64 \<Rightarrow> (u64 \<times> u64) list \<Rightarrow> (u64 \<Rightarrow> nat) \<Rightarrow> objects" where
  "slab_own s ps N = (\<lambda>p. (p, N p)) ` set (slab_ptrs s ps)"

definition slab_sizes :: "u64 \<Rightarrow> u64 \<Rightarrow> u64 \<Rightarrow> (u64 \<times> u64) list \<Rightarrow> (u64 \<Rightarrow> nat) \<Rightarrow> bool" where
  "slab_sizes s osz ops ps N \<longleftrightarrow>
     8 \<le> unat osz \<and> 0 < unat ops \<and> unat ops * unat osz \<le> 9223372036854775808 \<and> 56 \<le> N s \<and>
     (\<forall>(p, q) \<in> set ps. 16 \<le> N p \<and> unat ops * unat osz \<le> N q) \<and> distinct (slab_ptrs s ps)"

definition slab_inv :: "mem \<times> bc_context \<Rightarrow> mem \<Rightarrow> bc_context \<Rightarrow> u64 \<Rightarrow> u64 \<Rightarrow> u64 \<Rightarrow> (u64 \<times> u64) list \<Rightarrow> u64 list
    \<Rightarrow> (u64 \<Rightarrow> nat) \<Rightarrow> objects \<Rightarrow> bool" where
  "slab_inv g m c s osz ops ps fs N R \<longleftrightarrow>
     slab_rep m s osz ops ps fs \<and> slab_sizes s osz ops ps N \<and>
     pool_since g m c (slab_own s ps N \<union> R) \<and> slab_own s ps N \<inter> R = {}"

definition slab_used :: "u64 \<Rightarrow> u64 \<Rightarrow> (u64 \<times> u64) list \<Rightarrow> u64 list \<Rightarrow> u64 set" where
  "slab_used osz ops ps fs = all_slots osz ops ps - set fs"

text \<open>All slots in use keep their bytes.\<close>

definition used_kept :: "mem \<Rightarrow> mem \<Rightarrow> u64 \<Rightarrow> u64 set \<Rightarrow> bool" where
  "used_kept m m' osz U \<longleftrightarrow> (\<forall>b \<in> U. agree m m' (area b (unat osz)))"

lemma used_kept_refl [simp]: "used_kept m m osz U"
  by (simp add: used_kept_def)

lemma used_kept_trans: "used_kept m m' osz U \<Longrightarrow> used_kept m' m'' osz U \<Longrightarrow> used_kept m m'' osz U"
  by (auto simp: used_kept_def intro: agree_trans)

lemma used_kept_subset: "used_kept m m' osz U \<Longrightarrow> V \<subseteq> U \<Longrightarrow> used_kept m m' osz V"
  by (auto simp: used_kept_def)

section \<open>Where the pieces of a slab lie\<close>

lemma slab_own_mem:
  "(s, N s) \<in> slab_own s ps N"
  "(p, q) \<in> set ps \<Longrightarrow> (p, N p) \<in> slab_own s ps N \<and> (q, N q) \<in> slab_own s ps N"
  by (force simp: slab_own_def slab_ptrs_def)+

text \<open>A region of one object: its bounds, and its separation from the regions of other objects.\<close>

definition slab_pieces :: "u64 \<Rightarrow> u64 \<Rightarrow> u64 \<Rightarrow> (u64 \<times> u64) list \<Rightarrow> (u64 \<times> nat) set" where
  "slab_pieces s osz ops ps =
     insert (s, 56) (\<Union>(p, q) \<in> set ps. {(p, 16), (q, unat ops * unat osz)})"

lemma slab_piece_own:
  assumes "slab_sizes s osz ops ps N" "(p, n) \<in> slab_pieces s osz ops ps"
  shows "(p, N p) \<in> slab_own s ps N" "n \<le> N p"
  using assms slab_own_mem by (auto simp: slab_pieces_def slab_sizes_def)

lemma slab_pieces_bounds:
  assumes sz: "slab_sizes s osz ops ps N" and h: "pool_since g m c (slab_own s ps N \<union> R)"
    and pn: "(p, n) \<in> slab_pieces s osz ops ps"
  shows "p \<noteq> NULL" "unat p + n \<le> 140737488355328"
  using since_bounds [OF h, of p "N p"] slab_piece_own [OF sz pn] by auto

lemma slab_pieces_apart:
  assumes sz: "slab_sizes s osz ops ps N" and h: "pool_since g m c (slab_own s ps N \<union> R)"
    and pn: "(p, n) \<in> slab_pieces s osz ops ps" "(q, k) \<in> slab_pieces s osz ops ps" and ne: "p \<noteq> q"
  shows "area p n \<inter> area q k = {}"
proof -
  note o1 = slab_piece_own [OF sz pn(1)] and o2 = slab_piece_own [OF sz pn(2)]
  have "apart p (N p) q (N q)" using since_apart [OF h, of p "N p" q "N q"] o1(1) o2(1) ne by simp
  then show ?thesis using o1(2) o2(2) by (intro apart_disjoint) (rule apart_mono)
qed

text \<open>A slot lies in its array.\<close>

lemma all_slots_piece:
  assumes sz: "slab_sizes s osz ops ps N" and h: "pool_since g m c (slab_own s ps N \<union> R)"
    and b: "b \<in> all_slots osz ops ps"
  obtains p q where "(p, q) \<in> set ps" "b \<in> set (slots q osz ops)" "node b"
    "area b (unat osz) \<subseteq> area q (unat ops * unat osz)" "(q, unat ops * unat osz) \<in> slab_pieces s osz ops ps"
proof -
  obtain p q where pq: "(p, q) \<in> set ps" "b \<in> set (slots q osz ops)" using b by (auto simp: all_slots_def)
  then have pc: "(q, unat ops * unat osz) \<in> slab_pieces s osz ops ps" by (force simp: slab_pieces_def)
  note bd = slab_pieces_bounds [OF sz h pc]
  have "8 \<le> unat osz" using sz by (simp add: slab_sizes_def)
  note sf = slots_facts(2) [OF bd(2) this bd(1) pq(2)]
  show thesis by (rule that [OF pq _ _ pc]) (use sf in auto)
qed

lemma slots_apart:
  assumes sz: "slab_sizes s osz ops ps N" and h: "pool_since g m c (slab_own s ps N \<union> R)"
    and b: "b \<in> all_slots osz ops ps" "b' \<in> all_slots osz ops ps" "b \<noteq> b'"
  shows "area b (unat osz) \<inter> area b' (unat osz) = {}"
proof -
  obtain p q where x: "(p, q) \<in> set ps" "b \<in> set (slots q osz ops)"
    "area b (unat osz) \<subseteq> area q (unat ops * unat osz)" "(q, unat ops * unat osz) \<in> slab_pieces s osz ops ps"
    using all_slots_piece [OF sz h b(1)] .
  obtain p' q' where y: "(p', q') \<in> set ps" "b' \<in> set (slots q' osz ops)"
    "area b' (unat osz) \<subseteq> area q' (unat ops * unat osz)" "(q', unat ops * unat osz) \<in> slab_pieces s osz ops ps"
    using all_slots_piece [OF sz h b(2)] .
  show ?thesis
  proof (cases "q = q'")
    case True
    note bd = slab_pieces_bounds [OF sz h x(4)]
    have o8: "8 \<le> unat osz" using sz by (simp add: slab_sizes_def)
    have "b' \<in> set (slots q osz ops)" using y(2) True by simp
    from slots_facts(3) [OF bd(2) o8 bd(1) x(2) this b(3)] show ?thesis by (rule apart_disjoint)
  next
    case False
    from slab_pieces_apart [OF sz h x(4) y(4) False] show ?thesis using x(3) y(3) by blast
  qed
qed

lemma slot_off_piece:
  assumes sz: "slab_sizes s osz ops ps N" and h: "pool_since g m c (slab_own s ps N \<union> R)"
    and b: "b \<in> all_slots osz ops ps" and pn: "(p, n) \<in> slab_pieces s osz ops ps" "p \<notin> snd ` set ps"
  shows "area b (unat osz) \<inter> area p n = {}"
proof -
  obtain p' q where x: "(p', q) \<in> set ps" "area b (unat osz) \<subseteq> area q (unat ops * unat osz)"
    "(q, unat ops * unat osz) \<in> slab_pieces s osz ops ps" using all_slots_piece [OF sz h b] .
  have "q \<noteq> p" using x(1) pn(2) by force
  from slab_pieces_apart [OF sz h x(3) pn(1) this] show ?thesis using x(2) by blast
qed

lemma finite_all_slots [simp]: "finite (all_slots osz ops ps)"
  by (auto simp: all_slots_def)

text \<open>Every slot is a node of at least eight bytes, and slots are apart as nodes.\<close>

lemma slot_nodes:
  assumes sz: "slab_sizes s osz ops ps N" and h: "pool_since g m c (slab_own s ps N \<union> R)"
    and b: "b \<in> all_slots osz ops ps"
  shows "node b" "area b 8 \<subseteq> area b (unat osz)"
    "b' \<in> all_slots osz ops ps \<Longrightarrow> b \<noteq> b' \<Longrightarrow> apart b 8 b' 8"
proof -
  obtain "node b" using all_slots_piece [OF sz h b] by metis
  then show nb: "node b" .
  have o8: "8 \<le> unat osz" using sz by (simp add: slab_sizes_def)
  then show "area b 8 \<subseteq> area b (unat osz)" by auto
  assume b': "b' \<in> all_slots osz ops ps" "b \<noteq> b'"
  have "area b (unat osz) \<inter> area b' (unat osz) = {}" by (rule slots_apart [OF sz h b b'])
  then have "area b 8 \<inter> area b' 8 = {}" using o8 area_mono [of 8 "unat osz"] by blast
  moreover obtain "node b'" using all_slots_piece [OF sz h b'(1)] by metis
  ultimately show "apart b 8 b' 8" using nb by (intro disjoint_apart) (simp_all add: node_def)
qed

section \<open>Frame: what the representation depends on\<close>

lemma slab_field_cong:
  assumes "agree m m' (area s 56)" "unat s + 56 \<le> 18446744073709551616" "unat i + 8 \<le> 56"
  shows "load64 m' (s + i) = load64 m (s + i)"
proof (rule load64_cong)
  have "unat (s + i) = unat s + unat i" using assms(2,3) by (simp add: no_wrap)
  then show "agree m m' (area (s + i) 8)" "unat (s + i) + 8 \<le> 18446744073709551616"
    using assms by (auto intro: agree_subset)
qed

text \<open>The same for a page struct.\<close>

lemma page_fields_cong:
  assumes "agree m m' (area p 16)" "unat p + 16 \<le> 18446744073709551616"
  shows "page_objects m' p = page_objects m p" "page_next m' p = page_next m p"
proof -
  have u: "unat (p + 8) = unat p + 8" using assms(2) by (simp add: no_wrap)
  have "area p 8 \<subseteq> area p 16" "area (p + 8) 8 \<subseteq> area p 16" using u by auto
  then have ag: "agree m m' (area p 8)" "agree m m' (area (p + 8) 8)"
    using agree_subset [OF assms(1)] by blast+
  show "page_objects m' p = page_objects m p" by (rule load64_cong [OF ag(1)]) (use assms(2) in simp)
  show "page_next m' p = page_next m p" by (rule load64_cong [OF ag(2)]) (use assms(2) u in simp)
qed

text \<open>A change outside the page structs keeps their chain and their arrays.\<close>

lemma page_chain_kept:
  assumes "\<forall>(p, q) \<in> set ps. agree m m' (area p 16) \<and> unat p + 16 \<le> 18446744073709551616"
  shows "chain m' 8 h (map fst ps) = chain m 8 h (map fst ps)"
    "(p, q) \<in> set ps \<Longrightarrow> page_objects m' p = page_objects m p"
proof -
  have pf: "page_objects m' p = page_objects m p \<and> page_next m' p = page_next m p" if "(p, q) \<in> set ps" for p q
    using page_fields_cong [of m m' p] assms that by blast
  then have "load64 m' (x + 8) = load64 m (x + 8)" if "x \<in> set (map fst ps)" for x using that by auto
  then show "chain m' 8 h (map fst ps) = chain m 8 h (map fst ps)" by (rule seg_cong)
  show "(p, q) \<in> set ps \<Longrightarrow> page_objects m' p = page_objects m p" using pf by blast
qed

lemma slab_rep_cong:
  assumes rep: "slab_rep m s osz ops ps fs" and s: "agree m m' (area s 56)" "unat s + 56 \<le> 18446744073709551616"
    and p: "\<And>p q. (p, q) \<in> set ps \<Longrightarrow> agree m m' (area p 16) \<and> unat p + 16 \<le> 18446744073709551616"
    and f: "\<And>b. b \<in> set fs \<Longrightarrow> agree m m' (area b 8)"
  shows "slab_rep m' s osz ops ps fs"
proof -
  note sf = slab_field_cong [OF s]
  have "\<forall>(p, q) \<in> set ps. agree m m' (area p 16) \<and> unat p + 16 \<le> 18446744073709551616" using p by blast
  note pc = page_chain_kept [OF this]
  have "chain m' 8 (slab_pages m s) (map fst ps) = chain m 8 (slab_pages m s) (map fst ps)" by (rule pc(1))
  moreover have "\<forall>(p, q) \<in> set ps. page_objects m' p = q"
    using rep pc(2) by (auto simp: slab_rep_def slab_heads_def)
  moreover have "intrusive_rep m (slab_free_list_head m s) fs" using rep by (simp add: slab_rep_def)
  then have "intrusive_rep m' (slab_free_list_head m s) fs" by (rule intrusive_rep_frame) (rule f)
  ultimately show ?thesis
    using rep sf [of 8] sf [of 16] sf [of 24] sf [of 32] sf [of 40] sf [of 48] by (simp add: slab_rep_def slab_heads_def)
qed

end
