(* ===== verification/BC_Slab_Ops.thy ===== *)
theory BC_Slab_Ops
  imports BC_Slab_Inv
begin

text \<open>
  Handing out and taking back one object of a slab, and the push of a whole page of slots.
\<close>

section \<open>The list with its head in the struct\<close>

lemma slab_push_eq:
  "slab_push m s b = store64 (store64 m b (slab_free_list_head m s)) (s + 24) b"
  by (simp add: slab_push_def bc_allocators_free_list_push_def)

lemma slab_push_ok:
  assumes fl: "intrusive_rep m (slab_free_list_head m s) fs" and b: "node b" "\<forall>x \<in> set fs. apart b 8 x 8"
    and s: "unat s + 56 \<le> 18446744073709551616"
    and off: "\<forall>x \<in> set (b # fs). area x 8 \<inter> area s 56 = {}"
  shows "intrusive_rep (slab_push m s b) (slab_free_list_head (slab_push m s b) s) (b # fs)"
    "agree m (slab_push m s b) (- (area b 8 \<union> area (s + 24) 8))"
    "unat i + 8 \<le> 24 \<or> 32 \<le> unat i \<and> unat i + 8 \<le> 56 \<Longrightarrow> load64 (slab_push m s b) (s + i) = load64 m (s + i)"
proof -
  define m1 where "m1 = store64 m b (slab_free_list_head m s)"
  have m2: "slab_push m s b = store64 m1 (s + 24) b" by (simp add: slab_push_eq m1_def)
  have r1: "intrusive_rep m1 b (b # fs)" unfolding m1_def using fl b by (intro intrusive_rep_push) auto
  have o1: "agree m m1 (- area b 8)" unfolding m1_def by (rule agree_store64) (use b(1) in \<open>auto simp: node_def\<close>)
  have s24: "unat (s + 24) = unat s + 24" using s by (simp add: no_wrap)
  have o2: "agree m1 (slab_push m s b) (- area (s + 24) 8)"
    unfolding m2 by (rule agree_store64) (use s s24 in auto)
  have sub: "area (s + 24) 8 \<subseteq> area s 56" using s24 by auto
  have "agree m1 (slab_push m s b) (area x 8)" if "x \<in> set (b # fs)" for x
    using off that sub by (intro agree_off [OF o2]) blast
  then have "intrusive_rep (slab_push m s b) b (b # fs)" by (rule intrusive_rep_frame [OF r1])
  then show "intrusive_rep (slab_push m s b) (slab_free_list_head (slab_push m s b) s) (b # fs)" by (simp add: m2)
  show "agree m (slab_push m s b) (- (area b 8 \<union> area (s + 24) 8))"
    using o1 o2 by (simp add: agree_def del: in_area)
  show "load64 (slab_push m s b) (s + i) = load64 m (s + i)" if i: "unat i + 8 \<le> 24 \<or> 32 \<le> unat i \<and> unat i + 8 \<le> 56"
  proof -
    have "load64 (slab_push m s b) (s + i) = load64 m1 (s + i)"
      unfolding m2 using i s by (intro field_other) auto
    moreover have "agree m m1 (area s 56)" using off by (intro agree_off [OF o1]) auto
    then have "load64 m1 (s + i) = load64 m (s + i)" using i by (intro slab_field_cong [OF _ s]) auto
    ultimately show ?thesis by simp
  qed
qed

text \<open>Pushing the slots from \<open>i\<close> on, as the loop does.\<close>

lemma push_slots_ok:
  assumes "intrusive_rep m (slab_free_list_head m s) fs" "slab_object_size m s = osz" "slab_objects_per_slab m s = ops"
    and "set fs \<inter> set (drop (unat i) (slots q osz ops)) = {}"
    and "unat s + 56 \<le> 18446744073709551616" "\<forall>x \<in> set fs \<union> set (slots q osz ops). area x 8 \<inter> area s 56 = {}"
    and "\<forall>x \<in> set (slots q osz ops). node x" "distinct (slots q osz ops)" "nodes_apart (set fs \<union> set (slots q osz ops))"
  shows "\<exists>m'. push_slots m s q i = Some m'
    \<and> intrusive_rep m' (slab_free_list_head m' s) (rev (drop (unat i) (slots q osz ops)) @ fs)
    \<and> agree m m' (- ((\<Union>b \<in> set (slots q osz ops). area b 8) \<union> area (s + 24) 8))
    \<and> (\<forall>i. unat i + 8 \<le> 24 \<or> 32 \<le> unat i \<and> unat i + 8 \<le> 56 \<longrightarrow> load64 m' (s + i) = load64 m (s + i))"
  using assms(1-4,6,9)
proof (induction "unat ops - unat i" arbitrary: m fs i)
  case 0
  then have "\<not> i < ops" by (simp add: word_less_nat_alt)
  moreover have "drop (unat i) (slots q osz ops) = []" using 0 by (simp add: slots_def)
  ultimately show ?case using 0 by (subst push_slots.simps) simp
next
  case (Suc d)
  have lt: "unat i < unat ops" using Suc.hyps(2) by linarith
  then have i1: "unat (i + 1) = Suc (unat i)" using unat_add_no_wrap [of i 1] u64_max [of ops] by (simp del: u64_max)
  define b where "b = q + i * osz"
  have dr: "drop (unat i) (slots q osz ops) = b # drop (unat (i + 1)) (slots q osz ops)"
    using lt by (subst Cons_nth_drop_Suc [symmetric]) (simp_all add: slots_def b_def i1)
  have bin: "b \<in> set (slots q osz ops)" using dr by (metis in_set_dropD list.set_intros(1))
  have bfs: "b \<notin> set fs" using Suc.prems(4) dr by auto
  have ap: "\<forall>x \<in> set fs. apart b 8 x 8"
  proof
    fix x assume x: "x \<in> set fs"
    then have "b \<noteq> x" using bfs by blast
    then show "apart b 8 x 8" using Suc.prems(6) bin x unfolding nodes_apart_def pairwise_def by blast
  qed
  have off: "\<forall>x \<in> set (b # fs). area x 8 \<inter> area s 56 = {}" using Suc.prems(5) bin by auto
  have nb: "node b" using assms(7) bin by blast
  note sp = slab_push_ok [OF Suc.prems(1) nb ap assms(5) off]
  define m1 where "m1 = slab_push m s b"
  have f1: "slab_object_size m1 s = osz" "slab_objects_per_slab m1 s = ops"
    using sp(3) [of 8] sp(3) [of 16] Suc.prems(2,3) by (simp_all add: m1_def)
  have dis: "set (b # fs) \<inter> set (drop (unat (i + 1)) (slots q osz ops)) = {}"
  proof -
    have "distinct (b # drop (unat (i + 1)) (slots q osz ops))" using assms(8) dr by (metis distinct_drop)
    then show ?thesis using Suc.prems(4) dr by auto
  qed
  have d: "d = unat ops - unat (i + 1)" using Suc.hyps(2) i1 by simp
  have off1: "\<forall>x \<in> set (b # fs) \<union> set (slots q osz ops). area x 8 \<inter> area s 56 = {}" using Suc.prems(5) bin by auto
  have ap1: "nodes_apart (set (b # fs) \<union> set (slots q osz ops))"
    using Suc.prems(6) bin by (simp add: insert_absorb Un_commute)
  obtain m' where m': "push_slots m1 s q (i + 1) = Some m'"
    "intrusive_rep m' (slab_free_list_head m' s) (rev (drop (unat (i + 1)) (slots q osz ops)) @ b # fs)"
    "agree m1 m' (- ((\<Union>b \<in> set (slots q osz ops). area b 8) \<union> area (s + 24) 8))"
    "\<forall>i. unat i + 8 \<le> 24 \<or> 32 \<le> unat i \<and> unat i + 8 \<le> 56 \<longrightarrow> load64 m' (s + i) = load64 m1 (s + i)"
    using Suc.hyps(1) [OF d sp(1) [folded m1_def] f1 dis off1 ap1] by blast
  have "i < ops" using lt by (simp add: word_less_nat_alt)
  then have "push_slots m s q i = Some m'"
    using m'(1) Suc.prems(2,3) by (subst push_slots.simps) (simp add: m1_def b_def)
  moreover have "agree m m1 (- ((\<Union>b \<in> set (slots q osz ops). area b 8) \<union> area (s + 24) 8))"
    using bin by (intro agree_subset [OF sp(2) [folded m1_def]]) blast
  ultimately show ?case
    using m'(2-4) sp(3) dr by (auto simp: m1_def intro: agree_trans)
qed

section \<open>Updating the list of a slab\<close>

text \<open>The memory of \<open>m'\<close> differs from \<open>m\<close> in the struct and in first words of slots only.\<close>

text \<open>Those bytes belong to objects of the slab.\<close>

lemma slab_lists_owned:
  assumes sz: "slab_sizes s osz ops ps N" and h: "pool_since g m c (slab_own s ps N \<union> R)" and B: "B \<subseteq> all_slots osz ops ps"
  shows "area s 56 \<union> (\<Union>b \<in> B. area b 8) \<subseteq> (\<Union>(p, n) \<in> slab_own s ps N. area p n)"
proof -
  have pin: "area p n \<subseteq> (\<Union>(p, n) \<in> slab_own s ps N. area p n)" if "(p, n) \<in> slab_pieces s osz ops ps" for p n
    using slab_piece_own [OF sz that] area_mono [of n "N p" p] by blast
  have "area b 8 \<subseteq> (\<Union>(p, n) \<in> slab_own s ps N. area p n)" if b: "b \<in> B" for b
  proof -
    have ba: "b \<in> all_slots osz ops ps" using b B by blast
    obtain p q where "area b (unat osz) \<subseteq> area q (unat ops * unat osz)"
      "(q, unat ops * unat osz) \<in> slab_pieces s osz ops ps" using all_slots_piece [OF sz h ba] .
    then show ?thesis using pin slot_nodes(2) [OF sz h ba] by blast
  qed
  moreover have "(s, 56) \<in> slab_pieces s osz ops ps" by (simp add: slab_pieces_def)
  ultimately show ?thesis using pin by blast
qed

lemma slab_rep_lists:
  assumes rep: "slab_heads m s osz ops ps" and sz: "slab_sizes s osz ops ps N"
    and h: "pool_since g m c (slab_own s ps N \<union> R)" and dj: "slab_own s ps N \<inter> R = {}"
    and out: "agree m m' (- (area s 56 \<union> (\<Union>b \<in> B. area b 8)))" and B: "B \<subseteq> all_slots osz ops ps"
    and hd: "\<And>i. i = 8 \<or> i = 16 \<or> i = 32 \<or> i = 40 \<Longrightarrow> load64 m' (s + i) = load64 m (s + i)"
    and fl: "intrusive_rep m' (slab_free_list_head m' s) fs'" "distinct fs'" "set fs' \<subseteq> all_slots osz ops ps"
    and us: "slab_used_objects m' s = of_nat (card (all_slots osz ops ps - set fs'))"
  shows "slab_inv g m' c s osz ops ps fs' N R" "kept_objects m m' R" "used_kept m m' osz (all_slots osz ops ps - B)"
proof -
  have spc: "(s, 56) \<in> slab_pieces s osz ops ps" by (simp add: slab_pieces_def)
  have s_ptr: "s \<notin> fst ` set ps" "s \<notin> snd ` set ps" using sz by (auto simp: slab_sizes_def slab_ptrs_def)
  have dd: "fst ` set ps \<inter> snd ` set ps = {}" using sz by (auto simp: slab_sizes_def slab_ptrs_def)
  have ag_page: "agree m m' (area p 16) \<and> unat p + 16 \<le> 18446744073709551616" if pq: "(p, q) \<in> set ps" for p q
  proof -
    have pc: "(p, 16) \<in> slab_pieces s osz ops ps" using pq by (force simp: slab_pieces_def)
    have "p \<noteq> s" using s_ptr pq by force
    then have "area s 56 \<inter> area p 16 = {}" using slab_pieces_apart [OF sz h spc pc] by auto
    moreover have "p \<in> fst ` set ps" using pq by force
    then have "p \<notin> snd ` set ps" using dd by blast
    then have "area b 8 \<inter> area p 16 = {}" if "b \<in> B" for b
      using slot_off_piece [OF sz h _ pc] slot_nodes(2) [OF sz h] that B by blast
    ultimately have "agree m m' (area p 16)" by (intro agree_off [OF out]) blast
    then show ?thesis using slab_pieces_bounds(2) [OF sz h pc] by simp
  qed
  have "\<forall>(p, q) \<in> set ps. agree m m' (area p 16) \<and> unat p + 16 \<le> 18446744073709551616" using ag_page by blast
  note pc = page_chain_kept [OF this]
  have "chain m' 8 (slab_pages m s) (map fst ps) = chain m 8 (slab_pages m s) (map fst ps)" by (rule pc(1))
  moreover have "page_objects m' p = q" if "(p, q) \<in> set ps" for p q
    using pc(2) [OF that] rep that by (auto simp: slab_heads_def)
  ultimately have rep': "slab_rep m' s osz ops ps fs'"
    using rep hd [of 8] hd [of 16] hd [of 32] hd [of 40] fl us by (auto simp: slab_rep_def slab_heads_def)
  define A where "A = area s 56 \<union> (\<Union>b \<in> B. area b 8)"
  have A: "A \<subseteq> (\<Union>(p, n) \<in> slab_own s ps N. area p n)" unfolding A_def by (rule slab_lists_owned [OF sz h B])
  have fin: "finite (slab_own s ps N)" by (simp add: slab_own_def)
  have h': "pool_since g m' c (slab_own s ps N \<union> R)"
    by (rule std.since.write_many [OF fin h Un_upper1 A out [folded A_def]])
  then show "slab_inv g m' c s osz ops ps fs' N R" using rep' sz dj by (simp add: slab_inv_def)
  show "kept_objects m m' R" by (rule std.since.objects_outside [OF h dj A out [folded A_def]])
  show "used_kept m m' osz (all_slots osz ops ps - B)"
    unfolding used_kept_def
  proof
    fix b assume b: "b \<in> all_slots osz ops ps - B"
    have "area b (unat osz) \<inter> area s 56 = {}" using slot_off_piece [OF sz h _ spc s_ptr(2)] b by blast
    moreover have "area b (unat osz) \<inter> area x 8 = {}" if x: "x \<in> B" for x
    proof -
      have "area b (unat osz) \<inter> area x (unat osz) = {}" using slots_apart [OF sz h, of b x] b x B by blast
      then show ?thesis using slot_nodes(2) [OF sz h, of x] x B by blast
    qed
    ultimately have "(area s 56 \<union> (\<Union>b \<in> B. area b 8)) \<inter> area b (unat osz) = {}" by blast
    then show "agree m m' (area b (unat osz))" by (rule agree_off [OF out])
  qed
qed

section \<open>One object out, one object in\<close>

lemma slab_invD:
  assumes "slab_inv g m c s osz ops ps fs N R"
  shows "slab_rep m s osz ops ps fs" "slab_sizes s osz ops ps N" "pool_since g m c (slab_own s ps N \<union> R)"
    "slab_own s ps N \<inter> R = {}" "unat s + 56 \<le> 140737488355328" "s \<notin> snd ` set ps"
proof -
  show rep: "slab_rep m s osz ops ps fs" and sz: "slab_sizes s osz ops ps N"
    and h: "pool_since g m c (slab_own s ps N \<union> R)" and "slab_own s ps N \<inter> R = {}"
    using assms by (auto simp: slab_inv_def)
  show "unat s + 56 \<le> 140737488355328"
    by (rule slab_pieces_bounds(2) [OF sz h]) (simp add: slab_pieces_def)
  show "s \<notin> snd ` set ps" using sz by (auto simp: slab_sizes_def slab_ptrs_def)
qed

lemma slot_off_struct:
  assumes inv: "slab_inv g m c s osz ops ps fs N R" and b: "b \<in> all_slots osz ops ps"
  shows "area b 8 \<inter> area s 56 = {}" "area b (unat osz) \<inter> area s 56 = {}"
proof -
  note d = slab_invD [OF inv]
  have spc: "(s, 56) \<in> slab_pieces s osz ops ps" by (simp add: slab_pieces_def)
  show "area b (unat osz) \<inter> area s 56 = {}" by (rule slot_off_piece [OF d(2,3) b spc d(6)])
  then show "area b 8 \<inter> area s 56 = {}" using slot_nodes(2) [OF d(2,3) b] by blast
qed

lemma card_used_insert:
  assumes "b \<in> all_slots osz ops ps" "b \<notin> set ys"
  shows "card (all_slots osz ops ps - set ys) = Suc (card (all_slots osz ops ps - set (b # ys)))"
    "slab_used osz ops ps ys = insert b (slab_used osz ops ps (b # ys))" "b \<notin> slab_used osz ops ps (b # ys)"
proof -
  have e: "all_slots osz ops ps - set ys = insert b (all_slots osz ops ps - set (b # ys))"
    and n: "b \<notin> all_slots osz ops ps - set (b # ys)" using assms by auto
  show "card (all_slots osz ops ps - set ys) = Suc (card (all_slots osz ops ps - set (b # ys)))"
    unfolding e by (rule card_insert_disjoint) (use n in simp_all)
  show "slab_used osz ops ps ys = insert b (slab_used osz ops ps (b # ys))" "b \<notin> slab_used osz ops ps (b # ys)"
    using e n by (simp_all add: slab_used_def)
qed

lemma slab_take_ok:
  assumes inv: "slab_inv g m c s osz ops ps fs N R" and nn: "slab_free_list_head m s \<noteq> NULL"
    and run: "slab_take m s = (p, m')"
  shows "\<exists>ys. fs = p # ys \<and> slab_inv g m' c s osz ops ps ys N R \<and> kept_objects m m' R
    \<and> used_kept m m' osz (all_slots osz ops ps) \<and> p \<in> all_slots osz ops ps
    \<and> slab_used osz ops ps ys = insert p (slab_used osz ops ps fs) \<and> p \<notin> slab_used osz ops ps fs"
proof -
  note d = slab_invD [OF inv]
  have fl: "intrusive_rep m (slab_free_list_head m s) fs" and ds: "distinct fs" "set fs \<subseteq> all_slots osz ops ps"
    and us: "slab_used_objects m s = of_nat (card (all_slots osz ops ps - set fs))"
    by (rule slab_repD [OF d(1)])+
  define h where "h = slab_free_list_head m s"
  obtain ys where ys: "fs = h # ys" "intrusive_rep m (load64 m h) ys"
    using intrusive_rep_pop [OF fl nn] unfolding h_def by blast
  define m1 where "m1 = store64 m (s + 24) (load64 m h)"
  have res: "p = h" "m' = store64 m1 (s + 48) (slab_used_objects m1 s + 1)"
    using run nn by (auto simp: slab_take_def slab_pop_def bc_allocators_free_list_pop_def h_def m1_def Let_def)
  have lim: "unat s + 56 \<le> 18446744073709551616" using d(5) by simp
  have "agree m m1 (- area s 56)" unfolding m1_def by (rule agree_field) (use lim in simp_all)
  moreover have "agree m1 m' (- area s 56)" unfolding res(2) by (rule agree_field) (use lim in simp_all)
  ultimately have ag: "agree m m' (- area s 56)" by (rule agree_trans)
  then have out: "agree m m' (- (area s 56 \<union> (\<Union>b \<in> {}. area b 8)))" by simp
  have ld: "load64 m' (s + i) = load64 m (s + i)" if "i = 8 \<or> i = 16 \<or> i = 32 \<or> i = 40" for i
    using that lim by (auto simp: res(2) m1_def field_other)
  have hd': "slab_free_list_head m' s = load64 m h" using lim by (simp add: res(2) m1_def field_other)
  have "agree m m' (area x 8)" if "x \<in> set ys" for x
    using slot_off_struct(1) [OF inv, of x] that ds(2) ys(1) by (intro agree_off [OF ag]) auto
  then have fl': "intrusive_rep m' (slab_free_list_head m' s) ys"
    unfolding hd' by (rule intrusive_rep_frame [OF ys(2)])
  have hin: "h \<in> all_slots osz ops ps" "h \<notin> set ys" using ds ys(1) by auto
  note cu = card_used_insert [OF hin]
  have us': "slab_used_objects m' s = of_nat (card (all_slots osz ops ps - set ys))"
  proof -
    have "slab_used_objects m1 s = slab_used_objects m s" using lim by (simp add: m1_def field_other)
    then show ?thesis using us cu(1) ys(1) by (simp add: res(2))
  qed
  have dy: "distinct ys" "set ys \<subseteq> all_slots osz ops ps" using ds ys(1) by auto
  note rl = slab_rep_lists [OF slab_repD(1) [OF d(1)] d(2,3,4) out empty_subsetI ld fl' dy us']
  show ?thesis using rl ys(1) res(1) cu(2,3) hin by (intro exI [of _ ys]) simp
qed

lemma slab_free_ok:
  assumes inv: "slab_inv g m c s osz ops ps fs N R" and p: "p \<in> slab_used osz ops ps fs"
  shows "slab_inv g (bc_allocators_slab_free m s p) c s osz ops ps (p # fs) N R"
    "kept_objects m (bc_allocators_slab_free m s p) R"
    "used_kept m (bc_allocators_slab_free m s p) osz (all_slots osz ops ps - {p})"
    "slab_used osz ops ps (p # fs) = slab_used osz ops ps fs - {p}"
    "slab_free_list_head (bc_allocators_slab_free m s p) s = p"
proof -
  note d = slab_invD [OF inv]
  have fl: "intrusive_rep m (slab_free_list_head m s) fs" and ds: "distinct fs" "set fs \<subseteq> all_slots osz ops ps"
    and us: "slab_used_objects m s = of_nat (card (all_slots osz ops ps - set fs))"
    by (rule slab_repD [OF d(1)])+
  have pin: "p \<in> all_slots osz ops ps" "p \<notin> set fs" using p by (auto simp: slab_used_def)
  have lim: "unat s + 56 \<le> 18446744073709551616" using d(5) by simp
  note sn = slot_nodes [OF d(2,3) pin(1)]
  have ap: "\<forall>x \<in> set fs. apart p 8 x 8" using sn(3) ds(2) pin(2) by blast
  have off: "\<forall>x \<in> set (p # fs). area x 8 \<inter> area s 56 = {}" using slot_off_struct(1) [OF inv] pin(1) ds(2) by auto
  note sp = slab_push_ok [OF fl sn(1) ap lim off]
  define m1 where "m1 = slab_push m s p"
  define m2 where "m2 = store64 m1 (s + 48) (slab_used_objects m1 s - 1)"
  have run: "bc_allocators_slab_free m s p = m2" by (simp add: bc_allocators_slab_free_def Let_def m1_def m2_def)
  have s24: "area (s + 24) 8 \<subseteq> area s 56" using lim by (auto simp: no_wrap)
  have o1: "agree m m1 (- (area s 56 \<union> area p 8))"
    using s24 by (intro agree_subset [OF sp(2) [folded m1_def]]) blast
  have o2: "agree m1 m2 (- area s 56)" unfolding m2_def by (rule agree_field) (use lim in simp_all)
  have "agree m m2 (- (area s 56 \<union> area p 8))" using o1 o2 by (simp add: agree_def del: in_area)
  then have out: "agree m m2 (- (area s 56 \<union> (\<Union>b \<in> {p}. area b 8)))" by simp
  have ld: "load64 m2 (s + i) = load64 m (s + i)" if "i = 8 \<or> i = 16 \<or> i = 32 \<or> i = 40" for i
  proof -
    have "load64 m2 (s + i) = load64 m1 (s + i)" using that lim by (auto simp: m2_def field_other)
    then show ?thesis using sp(3) [of i] that by (auto simp: m1_def)
  qed
  have hd2: "slab_free_list_head m2 s = slab_free_list_head m1 s" using lim by (simp add: m2_def field_other)
  have "agree m1 m2 (area x 8)" if "x \<in> set (p # fs)" for x using off that by (intro agree_off [OF o2]) blast
  then have fl2: "intrusive_rep m2 (slab_free_list_head m2 s) (p # fs)"
    unfolding hd2 by (rule intrusive_rep_frame [OF sp(1) [folded m1_def]])
  note cu = card_used_insert [OF pin]
  have us2: "slab_used_objects m2 s = of_nat (card (all_slots osz ops ps - set (p # fs)))"
  proof -
    have "slab_used_objects m1 s = slab_used_objects m s" using sp(3) [of 48] by (simp add: m1_def)
    then show ?thesis using us cu(1) by (simp add: m2_def)
  qed
  have dp: "distinct (p # fs)" "set (p # fs) \<subseteq> all_slots osz ops ps" using ds pin by auto
  have B: "{p} \<subseteq> all_slots osz ops ps" using pin by simp
  note rl = slab_rep_lists [OF slab_repD(1) [OF d(1)] d(2,3,4) out B ld fl2 dp us2]
  show "slab_inv g (bc_allocators_slab_free m s p) c s osz ops ps (p # fs) N R"
    "kept_objects m (bc_allocators_slab_free m s p) R"
    "used_kept m (bc_allocators_slab_free m s p) osz (all_slots osz ops ps - {p})"
    unfolding run using rl by blast+
  show "slab_used osz ops ps (p # fs) = slab_used osz ops ps fs - {p}" by (auto simp: slab_used_def)
  have "slab_free_list_head m1 s = p" by (simp add: m1_def slab_push_eq)
  then show "slab_free_list_head (bc_allocators_slab_free m s p) s = p" unfolding run hd2 .
qed

end
