(* ===== verification/BC_Slab_Page.thy ===== *)
theory BC_Slab_Page
  imports BC_Slab_Ops
begin

text \<open>
  Growing a slab by a page: two pool allocations, of which a failed second one gives the first back, then the links, then
  all slots of the new array on the free list.
\<close>

text \<open>A step that keeps all objects of the pool keeps the slab.\<close>

lemma slab_inv_kept:
  assumes inv: "slab_inv g m c s osz ops ps fs N R" and k: "kept_objects m m' (slab_own s ps N \<union> R)"
    and h: "pool_since g m' c' (slab_own s ps N \<union> R')" and dj: "slab_own s ps N \<inter> R' = {}"
  shows "slab_inv g m' c' s osz ops ps fs N R'" "kept_objects m m' R" "used_kept m m' osz (all_slots osz ops ps)"
proof -
  note d = slab_invD [OF inv]
  have ag: "agree m m' (area p n)" if "(p, n) \<in> slab_pieces s osz ops ps" for p n
    using kept_objectsD [OF k, of p "N p"] slab_piece_own [OF d(2) that] area_mono [of n "N p" p] agree_subset by blast
  have us: "used_kept m m' osz (all_slots osz ops ps)"
    unfolding used_kept_def
  proof
    fix b assume "b \<in> all_slots osz ops ps"
    from all_slots_piece [OF d(2,3) this] obtain q where "area b (unat osz) \<subseteq> area q (unat ops * unat osz)"
      "(q, unat ops * unat osz) \<in> slab_pieces s osz ops ps" by metis
    then show "agree m m' (area b (unat osz))" using ag agree_subset by blast
  qed
  then show "used_kept m m' osz (all_slots osz ops ps)" .
  have "slab_rep m' s osz ops ps fs"
  proof (rule slab_rep_cong [OF d(1)])
    show "agree m m' (area s 56)" by (rule ag) (simp add: slab_pieces_def)
    show "unat s + 56 \<le> 18446744073709551616" using d(5) by simp
    show "agree m m' (area p 16) \<and> unat p + 16 \<le> 18446744073709551616" if "(p, q) \<in> set ps" for p q
    proof -
      have pc: "(p, 16) \<in> slab_pieces s osz ops ps" using that by (force simp: slab_pieces_def)
      then show ?thesis using ag [OF pc] slab_pieces_bounds(2) [OF d(2,3) pc] by simp
    qed
    show "agree m m' (area b 8)" if b: "b \<in> set fs" for b
    proof -
      have "b \<in> all_slots osz ops ps" using slab_repD(4) [OF d(1)] b by blast
      then show ?thesis using us slot_nodes(2) [OF d(2,3)] agree_subset unfolding used_kept_def by blast
    qed
  qed
  then show "slab_inv g m' c' s osz ops ps fs N R'" using d(2) h dj by (simp add: slab_inv_def)
  show "kept_objects m m' R" by (rule kept_objects_subset [OF k]) simp
qed

text \<open>Linking a new page: what the four stores do.\<close>

definition link_page :: "mem \<Rightarrow> u64 \<Rightarrow> u64 \<Rightarrow> u64 \<Rightarrow> mem" where
  "link_page m s p q =
     (let m3 = store64 m p q;
          m4 = store64 m3 (p + 8) (slab_pages m3 s);
          m5 = store64 m4 (s + 32) p
      in store64 m5 (s + 40) (slab_slab_count m5 s + 1))"

lemma link_page_fields:
  assumes s: "unat s + 56 \<le> 18446744073709551616" and p: "unat p + 16 \<le> 18446744073709551616"
    and ap: "area p 16 \<inter> area s 56 = {}"
  shows "agree m (link_page m s p q) (- (area s 56 \<union> area p 16))"
    "page_objects (link_page m s p q) p = q" "page_next (link_page m s p q) p = slab_pages m s"
    "slab_pages (link_page m s p q) s = p" "slab_slab_count (link_page m s p q) s = slab_slab_count m s + 1"
    "i = 8 \<or> i = 16 \<or> i = 24 \<or> i = 48 \<Longrightarrow> load64 (link_page m s p q) (s + i) = load64 m (s + i)"
proof -
  define m3 where "m3 = store64 m p q"
  define m4 where "m4 = store64 m3 (p + 8) (slab_pages m3 s)"
  define m5 where "m5 = store64 m4 (s + 32) p"
  define m6 where "m6 = store64 m5 (s + 40) (slab_slab_count m5 s + 1)"
  have l: "link_page m s p q = m6" by (simp add: link_page_def Let_def m3_def m4_def m5_def m6_def)
  have o3: "agree m m3 (- area p 16)" unfolding m3_def using agree_field [of p 16 0] p by simp
  have o4: "agree m3 m4 (- area p 16)" unfolding m4_def by (rule agree_field) (use p in simp_all)
  have o34: "agree m m4 (- area p 16)" using o3 o4 by (rule agree_trans)
  have o5: "agree m4 m5 (- area s 56)" unfolding m5_def by (rule agree_field) (use s in simp_all)
  have o6: "agree m5 m6 (- area s 56)" unfolding m6_def by (rule agree_field) (use s in simp_all)
  have o56: "agree m4 m6 (- area s 56)" using o5 o6 by (rule agree_trans)
  show "agree m (link_page m s p q) (- (area s 56 \<union> area p 16))"
    unfolding l using o34 o56 by (simp add: agree_def del: in_area)
  have sp: "agree m m3 (area s 56)" "agree m m4 (area s 56)"
    by (rule agree_off [OF o3 ap], rule agree_off [OF o34 ap])
  have s4: "load64 m4 (s + i) = load64 m (s + i)" if "unat i + 8 \<le> 56" for i by (rule slab_field_cong [OF sp(2) s that])
  have pg: "slab_pages m3 s = slab_pages m s" by (rule slab_field_cong [OF sp(1) s]) simp
  have "area s 56 \<inter> area p 16 = {}" using ap by blast
  then have pp: "agree m4 m6 (area p 16)" by (rule agree_off [OF o56])
  note pf = page_fields_cong [OF pp p]
  have "page_objects m4 p = q" using p by (simp add: m4_def m3_def field_other0)
  then show "page_objects (link_page m s p q) p = q" using pf(1) by (simp add: l)
  show "page_next (link_page m s p q) p = slab_pages m s" using pf(2) pg by (simp add: l m4_def)
  show "slab_pages (link_page m s p q) s = p" using s by (simp add: l m6_def m5_def field_other)
  have "slab_slab_count m5 s = slab_slab_count m s" using s s4 [of 40] by (simp add: m5_def field_other)
  then show "slab_slab_count (link_page m s p q) s = slab_slab_count m s + 1" by (simp add: l m6_def)
  show "load64 (link_page m s p q) (s + i) = load64 m (s + i)" if "i = 8 \<or> i = 16 \<or> i = 24 \<or> i = 48"
  proof -
    have "load64 m6 (s + i) = load64 m4 (s + i)" using that s by (auto simp: m6_def m5_def field_other)
    then show ?thesis using s4 [of i] that by (auto simp: l)
  qed
qed

text \<open>The slab with the new page, before its slots are on the list.\<close>

lemma slab_own_Cons:
  assumes "p \<notin> set (slab_ptrs s ps)" "q \<notin> set (slab_ptrs s ps)" "p \<noteq> q"
  shows "slab_own s ((p, q) # ps) (N(p := n, q := k)) = insert (p, n) (insert (q, k) (slab_own s ps N))"
proof -
  have "(N(p := n, q := k)) x = N x" if "x \<in> set (slab_ptrs s ps)" for x using assms(1,2) that by auto
  then have "(\<lambda>x. (x, (N(p := n, q := k)) x)) ` set (slab_ptrs s ps) = slab_own s ps N"
    by (auto simp: slab_own_def)
  moreover have "set (slab_ptrs s ((p, q) # ps)) = insert p (insert q (set (slab_ptrs s ps)))"
    by (auto simp: slab_ptrs_def)
  ultimately show ?thesis using assms(3) by (simp add: slab_own_def)
qed

lemma slab_ptrs_fresh:
  assumes "p \<notin> fst ` (slab_own s ps N \<union> R)"
  shows "p \<notin> set (slab_ptrs s ps)"
  using assms by (force simp: slab_own_def)

text \<open>The new page and its array among the objects of the slab.\<close>

lemma slab_link_room:
  assumes inv: "slab_inv g m c s osz ops ps fs N (insert (q, k) (insert (p, n) R))"
    and n: "16 \<le> n" "unat ops * unat osz \<le> k" and fresh: "p \<notin> fst ` (slab_own s ps N \<union> R)"
      "q \<notin> fst ` (slab_own s ps N \<union> R)" "q \<noteq> p"
  defines "N' \<equiv> N(p := n, q := k)"
  shows "slab_sizes s osz ops ((p, q) # ps) N'" "pool_since g m c (slab_own s ((p, q) # ps) N' \<union> R)"
    "slab_own s ((p, q) # ps) N' \<inter> R = {}"
proof -
  note d = slab_invD [OF inv]
  have fp: "p \<notin> set (slab_ptrs s ps)" "q \<notin> set (slab_ptrs s ps)"
    by (rule slab_ptrs_fresh [OF fresh(1)], rule slab_ptrs_fresh [OF fresh(2)])
  have pq: "p \<noteq> q" using fresh(3) by simp
  note own = slab_own_Cons [OF fp pq, of N n k, folded N'_def]
  have eqS: "slab_own s ((p, q) # ps) N' \<union> R = slab_own s ps N \<union> insert (q, k) (insert (p, n) R)"
    unfolding own by auto
  show "pool_since g m c (slab_own s ((p, q) # ps) N' \<union> R)" unfolding eqS by (rule d(3))
  have "(p, n) \<notin> R" "(q, k) \<notin> R" using fresh(1,2) by (metis UnI2 fst_conv image_eqI)+
  then show "slab_own s ((p, q) # ps) N' \<inter> R = {}" unfolding own using d(4) by blast
  have same: "N' x = N x" if "x \<in> set (slab_ptrs s ps)" for x using fp that by (auto simp: N'_def)
  have "N' s = N s" by (rule same) (simp add: slab_ptrs_def)
  moreover have "N' x = N x \<and> N' y = N y" if "(x, y) \<in> set ps" for x y
    using that by (intro conjI same) (force simp: slab_ptrs_def)+
  moreover have "N' p = n" "N' q = k" using pq by (auto simp: N'_def)
  moreover have "distinct (slab_ptrs s ((p, q) # ps))"
    using d(2) fp pq by (auto simp: slab_sizes_def slab_ptrs_def)
  ultimately show "slab_sizes s osz ops ((p, q) # ps) N'" using d(2) n by (fastforce simp: slab_sizes_def)
qed

text \<open>The stores that link it: which bytes they change, and that the other pages and all slots are not among them.\<close>

lemma slab_link_frame:
  assumes sz: "slab_sizes s osz ops ((p, q) # ps) N" and h: "pool_since g m c (slab_own s ((p, q) # ps) N \<union> R)"
    and dj: "slab_own s ((p, q) # ps) N \<inter> R = {}"
  defines "m6 \<equiv> link_page m s p q"
  shows "unat s + 56 \<le> 18446744073709551616" "unat p + 16 \<le> 18446744073709551616" "area p 16 \<inter> area s 56 = {}"
    "pool_since g m6 c (slab_own s ((p, q) # ps) N \<union> R)" "kept_objects m m6 R"
    "(x, y) \<in> set ps \<Longrightarrow> agree m m6 (area x 16) \<and> unat x + 16 \<le> 18446744073709551616"
    "b \<in> all_slots osz ops ps \<Longrightarrow> agree m m6 (area b (unat osz))"
proof -
  have spc: "(s, 56) \<in> slab_pieces s osz ops ((p, q) # ps)" and ppc: "(p, 16) \<in> slab_pieces s osz ops ((p, q) # ps)"
    by (simp_all add: slab_pieces_def)
  show lim: "unat s + 56 \<le> 18446744073709551616" "unat p + 16 \<le> 18446744073709551616"
    using slab_pieces_bounds(2) [OF sz h spc] slab_pieces_bounds(2) [OF sz h ppc] by simp_all
  have ps_ne: "p \<noteq> s" using sz by (auto simp: slab_sizes_def slab_ptrs_def)
  show ap: "area p 16 \<inter> area s 56 = {}" by (rule slab_pieces_apart [OF sz h ppc spc ps_ne])
  define A where "A = area s 56 \<union> area p 16"
  have out: "agree m m6 (- A)" unfolding A_def m6_def by (rule link_page_fields(1) [OF lim ap])
  have A: "A \<subseteq> (\<Union>(x, j) \<in> slab_own s ((p, q) # ps) N. area x j)"
    using slab_piece_own [OF sz spc] slab_piece_own [OF sz ppc] area_mono unfolding A_def by blast
  have fin: "finite (slab_own s ((p, q) # ps) N)" by (simp add: slab_own_def)
  show "pool_since g m6 c (slab_own s ((p, q) # ps) N \<union> R)"
    by (rule std.since.write_many [OF fin h Un_upper1 A out])
  show "kept_objects m m6 R" by (rule std.since.objects_outside [OF h dj A out])
  show "agree m m6 (area x 16) \<and> unat x + 16 \<le> 18446744073709551616" if x: "(x, y) \<in> set ps"
  proof -
    have pc: "(x, 16) \<in> slab_pieces s osz ops ((p, q) # ps)" using x by (force simp: slab_pieces_def)
    have "x \<in> fst ` set ps" using x by force
    moreover have "p \<notin> fst ` set ps" "s \<notin> fst ` set ps" using sz by (auto simp: slab_sizes_def slab_ptrs_def)
    ultimately have "x \<noteq> p" "x \<noteq> s" by blast+
    then have "A \<inter> area x 16 = {}"
      using slab_pieces_apart [OF sz h pc spc] slab_pieces_apart [OF sz h pc ppc] unfolding A_def by blast
    then have "agree m m6 (area x 16)" by (rule agree_off [OF out])
    then show ?thesis using slab_pieces_bounds(2) [OF sz h pc] by simp
  qed
  show "agree m m6 (area b (unat osz))" if b: "b \<in> all_slots osz ops ps"
  proof -
    have b': "b \<in> all_slots osz ops ((p, q) # ps)" using b by (auto simp: all_slots_def)
    have "s \<notin> snd ` set ((p, q) # ps)" "p \<notin> snd ` set ((p, q) # ps)"
      using sz by (auto simp: slab_sizes_def slab_ptrs_def)
    then have "A \<inter> area b (unat osz) = {}"
      using slot_off_piece [OF sz h b' spc] slot_off_piece [OF sz h b' ppc] unfolding A_def by blast
    then show ?thesis by (rule agree_off [OF out])
  qed
qed

lemma slab_link_ok:
  assumes inv: "slab_inv g m c s osz ops ps fs N (insert (q, k) (insert (p, n) R))"
    and n: "16 \<le> n" "unat ops * unat osz \<le> k" and fresh: "p \<notin> fst ` (slab_own s ps N \<union> R)"
      "q \<notin> fst ` (slab_own s ps N \<union> R)" "q \<noteq> p"
  defines "m6 \<equiv> link_page m s p q"
  defines "N' \<equiv> N(p := n, q := k)"
  shows "slab_heads m6 s osz ops ((p, q) # ps)" "slab_sizes s osz ops ((p, q) # ps) N'"
    "pool_since g m6 c (slab_own s ((p, q) # ps) N' \<union> R)" "slab_own s ((p, q) # ps) N' \<inter> R = {}"
    "kept_objects m m6 R" "used_kept m m6 osz (all_slots osz ops ps)"
    "intrusive_rep m6 (slab_free_list_head m6 s) fs"
    "slab_used_objects m6 s = slab_used_objects m s"
proof -
  note d = slab_invD [OF inv]
  note lr = slab_link_room [OF inv n fresh, folded N'_def]
  then show "slab_sizes s osz ops ((p, q) # ps) N'" "slab_own s ((p, q) # ps) N' \<inter> R = {}" by blast+
  note fr = slab_link_frame [OF lr, folded m6_def]
  then show "pool_since g m6 c (slab_own s ((p, q) # ps) N' \<union> R)" "kept_objects m m6 R" by blast+
  note lf = link_page_fields [OF fr(1-3), where m = m and q = q, folded m6_def]
  have "\<forall>(x, y) \<in> set ps. agree m m6 (area x 16) \<and> unat x + 16 \<le> 18446744073709551616" using fr(6) by blast
  note pc = page_chain_kept [OF this]
  have "chain m6 8 (slab_pages m s) (map fst ps) = chain m 8 (slab_pages m s) (map fst ps)" by (rule pc(1))
  moreover have "page_objects m6 x = y" if x: "(x, y) \<in> set ps" for x y
    using pc(2) [OF x] slab_repD(1) [OF d(1)] x by (auto simp: slab_heads_def)
  moreover have "p \<noteq> NULL" by (rule slab_pieces_bounds(1) [OF lr(1,2), of _ 16]) (simp add: slab_pieces_def)
  ultimately show "slab_heads m6 s osz ops ((p, q) # ps)"
    using lf(2-5) lf(6) [of 8] lf(6) [of 16] slab_repD(1) [OF d(1)] by (auto simp: slab_heads_def)
  show us: "used_kept m m6 osz (all_slots osz ops ps)" unfolding used_kept_def using fr(7) by blast
  have "agree m m6 (area b 8)" if b: "b \<in> set fs" for b
  proof -
    have ba: "b \<in> all_slots osz ops ps" using slab_repD(4) [OF d(1)] b by blast
    show ?thesis by (rule agree_subset [OF fr(7) [OF ba] slot_nodes(2) [OF d(2,3) ba]])
  qed
  then have "intrusive_rep m6 (slab_free_list_head m s) fs" by (rule intrusive_rep_frame [OF slab_repD(2) [OF d(1)]])
  then show "intrusive_rep m6 (slab_free_list_head m6 s) fs" using lf(6) [of 24] by simp
  show "slab_used_objects m6 s = slab_used_objects m s" using lf(6) [of 48] by simp
qed

section \<open>The whole step\<close>

lemma all_slots_Cons: "all_slots osz ops ((p, q) # ps) = set (slots q osz ops) \<union> all_slots osz ops ps"
  by (simp add: all_slots_def)

text \<open>Different pages have different slots.\<close>

lemma all_slots_disjoint:
  assumes sz: "slab_sizes s osz ops ((p, q) # ps) N" and h: "pool_since g m c (slab_own s ((p, q) # ps) N \<union> R)"
  shows "set (slots q osz ops) \<inter> all_slots osz ops ps = {}"
proof (rule ccontr)
  assume "set (slots q osz ops) \<inter> all_slots osz ops ps \<noteq> {}"
  then obtain b p' q' where b: "b \<in> set (slots q osz ops)" "(p', q') \<in> set ps" "b \<in> set (slots q' osz ops)"
    by (auto simp: all_slots_def)
  have pc: "(q, unat ops * unat osz) \<in> slab_pieces s osz ops ((p, q) # ps)"
    "(q', unat ops * unat osz) \<in> slab_pieces s osz ops ((p, q) # ps)"
    using b(2) unfolding slab_pieces_def by force+
  note bd = slab_pieces_bounds [OF sz h pc(1)] slab_pieces_bounds [OF sz h pc(2)]
  have o8: "8 \<le> unat osz" using sz by (simp add: slab_sizes_def)
  have "q \<notin> snd ` set ps" using sz by (auto simp: slab_sizes_def slab_ptrs_def)
  then have "q \<noteq> q'" using b(2) by force
  from slab_pieces_apart [OF sz h pc this]
  have "area q (unat ops * unat osz) \<inter> area q' (unat ops * unat osz) = {}" .
  moreover have "area b (unat osz) \<subseteq> area q (unat ops * unat osz)"
    using slots_facts(2) [OF bd(2) o8 bd(1) b(1)] by blast
  moreover have "area b (unat osz) \<subseteq> area q' (unat ops * unat osz)"
    using slots_facts(2) [OF bd(4) o8 bd(3) b(3)] by blast
  moreover have "b \<in> area b (unat osz)" using o8 by simp
  ultimately show False by blast
qed

text \<open>The slots of the new page go on the list, and only they.\<close>

lemma slab_fill_ok:
  assumes rep: "slab_heads m s osz ops ((p, q) # ps)" and sz: "slab_sizes s osz ops ((p, q) # ps) N"
    and h: "pool_since g m c (slab_own s ((p, q) # ps) N \<union> R)" and dj: "slab_own s ((p, q) # ps) N \<inter> R = {}"
    and fl: "intrusive_rep m (slab_free_list_head m s) fs" "distinct fs" "set fs \<subseteq> all_slots osz ops ps"
    and us: "slab_used_objects m s = of_nat (card (all_slots osz ops ps - set fs))"
  shows "\<exists>m'. push_slots (slab_push m s q) s q 1 = Some m'
    \<and> slab_inv g m' c s osz ops ((p, q) # ps) (rev (slots q osz ops) @ fs) N R
    \<and> kept_objects m m' R \<and> used_kept m m' osz (all_slots osz ops ps)
    \<and> slab_used osz ops ((p, q) # ps) (rev (slots q osz ops) @ fs) = slab_used osz ops ps fs"
proof -
  note ac = all_slots_Cons [of osz ops p q ps]
  have spc: "(s, 56) \<in> slab_pieces s osz ops ((p, q) # ps)"
    and qpc: "(q, unat ops * unat osz) \<in> slab_pieces s osz ops ((p, q) # ps)" by (simp_all add: slab_pieces_def)
  have lim: "unat s + 56 \<le> 18446744073709551616" using slab_pieces_bounds(2) [OF sz h spc] by simp
  note bd = slab_pieces_bounds [OF sz h qpc]
  have o8: "8 \<le> unat osz" "0 < unat ops" using sz by (auto simp: slab_sizes_def)
  note sf = slots_facts [OF bd(2) o8(1) bd(1)]
  have snd_ps: "s \<notin> snd ` set ((p, q) # ps)"
    using sz by (auto simp: slab_sizes_def slab_ptrs_def)
  note sn = slot_nodes [OF sz h]
  have dis: "set (slots q osz ops) \<inter> all_slots osz ops ps = {}" by (rule all_slots_disjoint [OF sz h])
  have inall: "set fs \<union> set (slots q osz ops) \<subseteq> all_slots osz ops ((p, q) # ps)" using fl(3) ac by blast
  have off: "\<forall>x \<in> set fs \<union> set (slots q osz ops). area x 8 \<inter> area s 56 = {}"
    using slot_off_piece [OF sz h _ spc snd_ps] sn(2) inall by blast
  have nd: "\<forall>x \<in> set (slots q osz ops). node x" using sf(2) by blast
  have na: "nodes_apart (set fs \<union> set (slots q osz ops))"
    using sn(3) inall unfolding nodes_apart_def pairwise_def by blast
  have d0: "set fs \<inter> set (drop (unat (0 :: u64)) (slots q osz ops)) = {}" using fl(3) dis by auto
  have hf: "slab_object_size m s = osz" "slab_objects_per_slab m s = ops" using rep by (auto simp: slab_heads_def)
  obtain m' where m': "push_slots m s q 0 = Some m'"
    "intrusive_rep m' (slab_free_list_head m' s) (rev (slots q osz ops) @ fs)"
    "agree m m' (- ((\<Union>b \<in> set (slots q osz ops). area b 8) \<union> area (s + 24) 8))"
    "\<forall>i. unat i + 8 \<le> 24 \<or> 32 \<le> unat i \<and> unat i + 8 \<le> 56 \<longrightarrow> load64 m' (s + i) = load64 m (s + i)"
    using push_slots_ok [OF fl(1) hf d0 lim off nd sf(1) na] by auto
  have "0 < ops" using o8(2) by (simp add: word_less_nat_alt)
  then have run: "push_slots (slab_push m s q) s q 1 = Some m'" using m'(1) hf by (subst (asm) push_slots.simps) simp
  have "area (s + 24) 8 \<subseteq> area s 56" using lim by (auto simp: no_wrap)
  then have out: "agree m m' (- (area s 56 \<union> (\<Union>b \<in> set (slots q osz ops). area b 8)))"
    by (intro agree_subset [OF m'(3)]) blast
  have B: "set (slots q osz ops) \<subseteq> all_slots osz ops ((p, q) # ps)" using ac by blast
  have ld: "load64 m' (s + i) = load64 m (s + i)" if "i = 8 \<or> i = 16 \<or> i = 32 \<or> i = 40" for i
    using m'(4) [rule_format, of i] that by auto
  have fs': "distinct (rev (slots q osz ops) @ fs)" "set (rev (slots q osz ops) @ fs) \<subseteq> all_slots osz ops ((p, q) # ps)"
    using sf(1) fl(2) d0 inall by auto
  have un: "all_slots osz ops ((p, q) # ps) - set (rev (slots q osz ops) @ fs) = all_slots osz ops ps - set fs"
    using dis by (auto simp: ac)
  have us': "slab_used_objects m' s = of_nat (card (all_slots osz ops ((p, q) # ps) - set (rev (slots q osz ops) @ fs)))"
    using m'(4) [rule_format, of 48] us unfolding un by simp
  note rl = slab_rep_lists [OF rep sz h dj out B ld m'(2) fs' us']
  have "all_slots osz ops ps \<subseteq> all_slots osz ops ((p, q) # ps) - set (slots q osz ops)" using dis ac by blast
  from used_kept_subset [OF rl(3) this] have "used_kept m m' osz (all_slots osz ops ps)" .
  then show ?thesis using run rl(1,2) un by (simp add: slab_used_def)
qed

text \<open>What a new page leaves: the slab with the page, or as it was.\<close>

definition new_page_result :: "mem \<times> bc_context \<Rightarrow> mem \<Rightarrow> u64 \<Rightarrow> u64 \<Rightarrow> u64 \<Rightarrow> (u64 \<times> u64) list \<Rightarrow> u64 list \<Rightarrow> objects
    \<Rightarrow> bool \<Rightarrow> mem \<Rightarrow> bc_context \<Rightarrow> bool" where
  "new_page_result g m s osz ops ps fs R ok m' c' \<longleftrightarrow>
     kept_objects m m' R \<and> used_kept m m' osz (all_slots osz ops ps) \<and>
     (if ok then \<exists>p q N'. slab_inv g m' c' s osz ops ((p, q) # ps) (rev (slots q osz ops) @ fs) N' R
          \<and> slab_used osz ops ((p, q) # ps) (rev (slots q osz ops) @ fs) = slab_used osz ops ps fs
      else \<exists>N'. slab_inv g m' c' s osz ops ps fs N' R)"

text \<open>With both allocations granted, the links and the pushes give the slab with the page.\<close>

lemma new_page_linked:
  assumes inv: "slab_inv g m c s osz ops ps fs N R" and n: "16 \<le> n" "unat ops * unat osz \<le> k"
    and fresh: "p \<notin> fst ` (slab_own s ps N \<union> R)" "q \<notin> fst ` (slab_own s ps N \<union> R)" "q \<noteq> p"
    and h: "pool_since g m2 c2 (insert (q, k) (insert (p, n) (slab_own s ps N \<union> R)))"
    and kept: "kept_objects m m2 (slab_own s ps N \<union> R)"
  shows "\<exists>m8. push_slots (slab_push (link_page m2 s p q) s q) s q 1 = Some m8
    \<and> new_page_result g m s osz ops ps fs R True m8 c2"
proof -
  define m6 where "m6 = link_page m2 s p q"
  define R2 where "R2 = insert (q, k) (insert (p, n) R)"
  have own2: "insert (q, k) (insert (p, n) (slab_own s ps N \<union> R)) = slab_own s ps N \<union> R2" by (auto simp: R2_def)
  have nS: "(q, k) \<notin> slab_own s ps N \<union> R" "(p, n) \<notin> slab_own s ps N \<union> R"
    using fresh(1,2) by (metis fst_conv image_eqI)+
  have dj2: "slab_own s ps N \<inter> R2 = {}" using slab_invD(4) [OF inv] nS by (auto simp: R2_def)
  note kp = slab_inv_kept [OF inv kept h [unfolded own2] dj2]
  note lk = slab_link_ok [OF kp(1) [unfolded R2_def] n fresh, folded m6_def]
  note rp = slab_repD [OF slab_invD(1) [OF kp(1)]]
  have us6: "slab_used_objects m6 s = of_nat (card (all_slots osz ops ps - set fs))" using lk(8) rp(5) by simp
  obtain m8 where m8: "push_slots (slab_push m6 s q) s q 1 = Some m8"
    "slab_inv g m8 c2 s osz ops ((p, q) # ps) (rev (slots q osz ops) @ fs) (N(p := n, q := k)) R"
    "kept_objects m6 m8 R" "used_kept m6 m8 osz (all_slots osz ops ps)"
    "slab_used osz ops ((p, q) # ps) (rev (slots q osz ops) @ fs) = slab_used osz ops ps fs"
    using slab_fill_ok [OF lk(1-4,7) rp(3,4) us6] by blast
  have "kept_objects m m8 R" using kp(2) lk(5) m8(3) by (blast intro: kept_objects_trans)
  moreover have "used_kept m m8 osz (all_slots osz ops ps)"
    using kp(3) lk(6) m8(4) by (blast intro: used_kept_trans)
  ultimately have "new_page_result g m s osz ops ps fs R True m8 c2"
    unfolding new_page_result_def using m8(2,5) by auto
  then show ?thesis using m8(1) by (auto simp: m6_def)
qed

text \<open>With one refused, the slab is as it was.\<close>

lemma new_page_refused:
  assumes inv: "slab_inv g m c s osz ops ps fs N R"
    and k: "kept_objects m m' (slab_own s ps N \<union> R)" and h: "pool_since g m' c' (slab_own s ps N \<union> R)"
  shows "new_page_result g m s osz ops ps fs R False m' c'"
  unfolding new_page_result_def using slab_inv_kept [OF inv k h slab_invD(4) [OF inv]] by auto

context bc_core
begin

lemma allocate_new_page_ok:
  assumes inv: "slab_inv g m c s osz ops ps fs N R"
  shows "\<exists>ok m' c'. allocate_new_page E m c s = Some (ok, m', c') \<and> new_page_result g m s osz ops ps fs R ok m' c'"
proof -
  note d = slab_invD [OF inv]
  define S where "S = slab_own s ps N \<union> R"
  have h: "pool_since g m c S" using d(3) by (simp add: S_def)
  have sz16: "unat sizeof_slab_page \<le> 9223372036854775808" by (simp add: sizeof_slab_page_def)
  have pl: "unat ops * unat osz \<le> 9223372036854775808" using d(2) by (simp add: slab_sizes_def)
  have prod: "unat (ops * osz) = unat ops * unat osz" using pl by (simp add: no_wrap)
  obtain r1 m1 c1 where a1: "bc_allocators_pool_allocate E m c sizeof_slab_page = (r1, m1, c1)" by (metis prod_cases3)
  show ?thesis
  proof (cases r1)
    case None
    then have "allocate_new_page E m c s = Some (False, m1, c1)" using a1 by (simp add: allocate_new_page_def)
    then show ?thesis
      using since.alloc_None [OF h sz16 a1 [unfolded None], unfolded S_def] new_page_refused [OF inv] by blast
  next
    case (Some p)
    obtain n0 where n0: "kept_objects m m1 S" using since.alloc_Some [OF h sz16 a1 [unfolded Some]] by blast
    have "agree m m1 (area s 56)"
      using kept_objectsD [OF n0, of s "N s"] slab_own_mem(1) [of s N ps] d(2) area_mono [of 56 "N s" s]
      by (auto simp: S_def slab_sizes_def intro: agree_subset)
    then have fld: "slab_objects_per_slab m1 s = ops" "slab_object_size m1 s = osz"
      using slab_field_cong [of m m1 s] d(5) slab_repD(1) [OF d(1)] by (auto simp: slab_heads_def)
    obtain r2 m2 c2 where a2: "bc_allocators_pool_allocate E m1 c1 (ops * osz) = (r2, m2, c2)" by (metis prod_cases3)
    have szb: "unat (ops * osz) \<le> 9223372036854775808" using prod pl by simp
    obtain n where n: "unat sizeof_slab_page \<le> n" "p \<notin> fst ` S" "kept_objects m m2 S"
      "\<And>m3 c3. r2 = None \<Longrightarrow> bc_allocators_pool_free m2 c2 p = (m3, c3) \<Longrightarrow> pool_since g m3 c3 S \<and> kept_objects m m3 S"
      "\<And>q. r2 = Some q \<Longrightarrow> \<exists>k. unat (ops * osz) \<le> k \<and> q \<noteq> p \<and> q \<notin> fst ` S \<and> pool_since g m2 c2 (insert (q, k) (insert (p, n) S))"
      using since.alloc_twice [OF h sz16 szb a1 [unfolded Some] a2] by metis
    show ?thesis
    proof (cases r2)
      case None
      obtain m3 c3 where fr: "bc_allocators_pool_free m2 c2 p = (m3, c3)" by fastforce
      have "allocate_new_page E m c s = Some (False, m3, c3)"
        using a1 Some a2 None fr by (simp add: allocate_new_page_def fld)
      then show ?thesis using n(4) [OF None fr, unfolded S_def] new_page_refused [OF inv] by blast
    next
      case q: (Some q)
      obtain k where k: "unat (ops * osz) \<le> k" "q \<noteq> p" "q \<notin> fst ` S"
        "pool_since g m2 c2 (insert (q, k) (insert (p, n) S))" using n(5) [OF q] by blast
      have n16: "16 \<le> n" "unat ops * unat osz \<le> k" using n(1) k(1) prod by (simp_all add: sizeof_slab_page_def)
      obtain m8 where m8: "push_slots (slab_push (link_page m2 s p q) s q) s q 1 = Some m8"
        "new_page_result g m s osz ops ps fs R True m8 c2"
        using new_page_linked [OF inv n16 n(2) [unfolded S_def] k(3) [unfolded S_def] k(2) k(4) [unfolded S_def]
            n(3) [unfolded S_def]] by blast
      have "allocate_new_page E m c s = Some (True, m8, c2)"
        using a1 Some a2 q m8(1) by (simp add: allocate_new_page_def fld link_page_def Let_def)
      then show ?thesis using m8(2) by blast
    qed
  qed
qed

end

end
