(* ===== verification/BC_Slab_Life.thy ===== *)
theory BC_Slab_Life
  imports BC_Slab_Page
begin

text \<open>
  The public operations of the slab as a whole: creation, allocation, destruction and the statistics.
\<close>

section \<open>Creation\<close>

lemma init_slab_fields:
  assumes "unat s + 56 \<le> 18446744073709551616"
  shows "slab_object_size (init_slab m s c osz ops) s = osz" "slab_objects_per_slab (init_slab m s c osz ops) s = ops"
    "slab_free_list_head (init_slab m s c osz ops) s = NULL" "slab_pages (init_slab m s c osz ops) s = NULL"
    "slab_slab_count (init_slab m s c osz ops) s = 0" "slab_used_objects (init_slab m s c osz ops) s = 0"
    "agree m (init_slab m s c osz ops) (- area s 56)"
proof -
  have h: "unat s + 56 \<le> 18446744073709551616" by (rule assms)
  show "slab_object_size (init_slab m s c osz ops) s = osz" "slab_objects_per_slab (init_slab m s c osz ops) s = ops"
    "slab_free_list_head (init_slab m s c osz ops) s = NULL" "slab_pages (init_slab m s c osz ops) s = NULL"
    "slab_slab_count (init_slab m s c osz ops) s = 0" "slab_used_objects (init_slab m s c osz ops) s = 0"
    using h by (simp_all add: init_slab_def Let_def field_other field_other0)
  have f: "agree m' (store64 m' (s + i) v) (- area s 56)" if "unat i + 8 \<le> 56" for m' i v
    using agree_field [of s 56 i] h that by simp
  have f0: "agree m' (store64 m' s v) (- area s 56)" for m' v using f [of 0] by simp
  show "agree m (init_slab m s c osz ops) (- area s 56)"
    unfolding init_slab_def Let_def by (intro agree_trans [OF _ f] f0) simp_all
qed

lemma slab_own_Nil [simp]: "slab_own s [] N = {(s, N s)}"
  by (simp add: slab_own_def slab_ptrs_def)

lemma all_slots_Nil [simp]: "all_slots osz ops [] = {}"
  by (simp add: all_slots_def)

lemma slab_init_inv:
  fixes cs :: u64
  assumes h: "pool_since g m c (insert (s, n) R)" and n: "56 \<le> n" and fresh: "s \<notin> fst ` R"
    and sz: "8 \<le> unat osz" "0 < unat ops" "unat ops * unat osz \<le> 9223372036854775808"
  defines "m' \<equiv> init_slab m s cs osz ops"
  shows "slab_inv g m' c s osz ops [] [] (\<lambda>_. n) R" "kept_objects m m' R"
proof -
  have b: "unat s + n \<le> 140737488355328" using since_bounds [OF h] by auto
  then have lim: "unat s + 56 \<le> 18446744073709551616" using n by simp
  note i = init_slab_fields [OF lim, of m cs osz ops, folded m'_def]
  have out: "agree m m' (- area s n)" by (rule agree_subset [OF i(7)]) (use n in auto)
  have nR: "(s, n) \<notin> R" using fresh by force
  note w = std.since.write_keeps [OF h insertI1 out]
  show "kept_objects m m' R" by (rule kept_objects_subset [OF w(2)]) (use nR in auto)
  have "slab_rep m' s osz ops [] []" using i by (simp add: slab_rep_def slab_heads_def intrusive_rep_def)
  moreover have "slab_sizes s osz ops [] (\<lambda>_. n)" using sz n by (simp add: slab_sizes_def slab_ptrs_def)
  ultimately show "slab_inv g m' c s osz ops [] [] (\<lambda>_. n) R" using w(1) nR by (simp add: slab_inv_def)
qed

lemma slots_nonempty: "0 < unat ops \<Longrightarrow> slots q osz ops \<noteq> []"
  by (simp add: slots_def)

text \<open>What a creation leaves.\<close>

definition slab_created :: "mem \<times> bc_context \<Rightarrow> mem \<Rightarrow> u64 \<Rightarrow> u64 \<Rightarrow> objects \<Rightarrow> u64 option \<Rightarrow> mem \<Rightarrow> bc_context \<Rightarrow> bool" where
  "slab_created g m osz ops R r m' c' \<longleftrightarrow>
     kept_objects m m' R \<and>
     (case r of None \<Rightarrow> pool_since g m' c' R
      | Some s \<Rightarrow> s \<notin> fst ` R \<and> 8 \<le> unat osz \<and> 0 < unat ops \<and>
          (\<exists>p q N. slab_inv g m' c' s osz ops [(p, q)] (rev (slots q osz ops)) N R \<and>
             slab_used osz ops [(p, q)] (rev (slots q osz ops)) = {}))"

context bc_core
begin

lemma slab_create_ok:
  assumes h: "pool_since g m c R" and pl: "unat ops * unat osz \<le> 9223372036854775808"
  shows "\<exists>r m' c'. bc_allocators_slab_create E m c osz ops = Some (r, m', c') \<and> slab_created g m osz ops R r m' c'"
proof (cases "osz < 8 \<or> ops = 0")
  case True
  then have "bc_allocators_slab_create E m c osz ops = Some (None, m, c)"
    by (simp add: bc_allocators_slab_create_def)
  then show ?thesis using h by (auto simp: slab_created_def)
next
  case False
  then have sz: "8 \<le> unat osz" "0 < unat ops" by (auto simp: word_less_nat_alt unat_gt_0)
  have s56: "unat sizeof_slab \<le> 9223372036854775808" by (simp add: sizeof_slab_def)
  obtain r1 m1 c1 where a1: "bc_allocators_pool_allocate E m c sizeof_slab = (r1, m1, c1)" by (metis prod_cases3)
  show ?thesis
  proof (cases r1)
    case None
    then have "bc_allocators_slab_create E m c osz ops = Some (None, m1, c1)"
      using False a1 by (simp add: bc_allocators_slab_create_def)
    then show ?thesis using since.alloc_None [OF h s56 a1 [unfolded None]] by (auto simp: slab_created_def)
  next
    case (Some s)
    obtain n where n: "unat sizeof_slab \<le> n" "s \<notin> fst ` R" "pool_since g m1 c1 (insert (s, n) R)" "kept_objects m m1 R"
      using since.alloc_Some [OF h s56 a1 [unfolded Some]] by blast
    have n56: "56 \<le> n" using n(1) by (simp add: sizeof_slab_def)
    define m2 where "m2 = init_slab m1 s (cx_self c1) osz ops"
    note si = slab_init_inv [OF n(3) n56 n(2) sz pl, of "cx_self c1", folded m2_def]
    obtain ok m3 c3 where np: "allocate_new_page E m2 c1 s = Some (ok, m3, c3)"
      "new_page_result g m2 s osz ops [] [] R ok m3 c3" using allocate_new_page_ok [OF si(1)] by blast
    have k3: "kept_objects m m3 R"
      using n(4) si(2) np(2) unfolding new_page_result_def by (blast intro: kept_objects_trans)
    show ?thesis
    proof (cases ok)
      case True
      then have "bc_allocators_slab_create E m c osz ops = Some (Some s, m3, c3)"
        using False a1 Some np(1) by (simp add: bc_allocators_slab_create_def m2_def Let_def)
      moreover have "slab_used osz ops [] [] = {}" by (simp add: slab_used_def)
      ultimately show ?thesis using True np(2) k3 n(2) sz by (auto simp: slab_created_def new_page_result_def)
    next
      case no: False
      then obtain N' where "slab_inv g m3 c3 s osz ops [] [] N' R" using np(2) by (auto simp: new_page_result_def)
      then have hs: "pool_since g m3 c3 (insert (s, N' s) R)" "(s, N' s) \<notin> R" by (auto simp: slab_inv_def)
      obtain m4 c4 where fr: "bc_allocators_pool_free m3 c3 s = (m4, c4)" by fastforce
      have "insert (s, N' s) R - {(s, N' s)} = R" using hs(2) by simp
      then have "pool_since g m4 c4 R \<and> kept_objects m3 m4 R" using since.release [OF hs(1) insertI1 fr] by simp
      moreover have "bc_allocators_slab_create E m c osz ops = Some (None, m4, c4)"
        using False a1 Some np(1) no fr by (simp add: bc_allocators_slab_create_def m2_def Let_def)
      ultimately show ?thesis using k3 by (auto simp: slab_created_def intro: kept_objects_trans)
    qed
  qed
qed

section \<open>Allocation\<close>

lemma slab_allocate_ok:
  assumes inv: "slab_inv g m c s osz ops ps fs N R"
  shows "\<exists>r m' c'. bc_allocators_slab_allocate E m c s = Some (r, m', c') \<and> kept_objects m m' R
    \<and> used_kept m m' osz (slab_used osz ops ps fs)
    \<and> (case r of None \<Rightarrow> fs = [] \<and> (\<exists>N'. slab_inv g m' c' s osz ops ps fs N' R)
       | Some p \<Rightarrow> \<exists>ps' fs' N'. slab_inv g m' c' s osz ops ps' fs' N' R \<and> p \<in> all_slots osz ops ps'
           \<and> p \<notin> slab_used osz ops ps fs \<and> slab_used osz ops ps' fs' = insert p (slab_used osz ops ps fs)
           \<and> (fs \<noteq> [] \<longrightarrow> fs = p # fs' \<and> ps' = ps \<and> c' = c))"
proof (cases "slab_free_list_head m s = NULL")
  case False
  obtain p m' where tk: "slab_take m s = (p, m')" by fastforce
  then have run: "bc_allocators_slab_allocate E m c s = Some (Some p, m', c)"
    using False by (simp add: bc_allocators_slab_allocate_def)
  obtain ys where ys: "fs = p # ys" "slab_inv g m' c s osz ops ps ys N R" "kept_objects m m' R"
    "used_kept m m' osz (all_slots osz ops ps)" "p \<in> all_slots osz ops ps"
    "slab_used osz ops ps ys = insert p (slab_used osz ops ps fs)" "p \<notin> slab_used osz ops ps fs"
    using slab_take_ok [OF inv False tk] by blast
  have "used_kept m m' osz (slab_used osz ops ps fs)"
    by (rule used_kept_subset [OF ys(4)]) (auto simp: slab_used_def)
  then show ?thesis using run ys by auto
next
  case True
  have fs: "fs = []" using slab_repD(2) [OF slab_invD(1) [OF inv]] True by (simp add: intrusive_rep_def)
  obtain ok m1 c1 where np: "allocate_new_page E m c s = Some (ok, m1, c1)" "new_page_result g m s osz ops ps fs R ok m1 c1"
    using allocate_new_page_ok [OF inv] by blast
  have k1: "kept_objects m m1 R" "used_kept m m1 osz (all_slots osz ops ps)"
    using np(2) by (auto simp: new_page_result_def)
  have u1: "used_kept m m1 osz (slab_used osz ops ps fs)"
    by (rule used_kept_subset [OF k1(2)]) (auto simp: slab_used_def)
  show ?thesis
  proof (cases ok)
    case False
    then have "bc_allocators_slab_allocate E m c s = Some (None, m1, c1)"
      using True np(1) by (simp add: bc_allocators_slab_allocate_def)
    then show ?thesis using False np(2) k1(1) u1 fs by (auto simp: new_page_result_def)
  next
    case ok: True
    then obtain p0 q0 N1 where n1: "slab_inv g m1 c1 s osz ops ((p0, q0) # ps) (rev (slots q0 osz ops) @ fs) N1 R"
      "slab_used osz ops ((p0, q0) # ps) (rev (slots q0 osz ops) @ fs) = slab_used osz ops ps fs"
      using np(2) by (auto simp: new_page_result_def)
    have "rev (slots q0 osz ops) @ fs \<noteq> []"
      using slots_nonempty slab_invD(2) [OF inv] by (simp add: slab_sizes_def)
    then obtain a xs where ax: "rev (slots q0 osz ops) @ fs = a # xs" by (metis neq_Nil_conv)
    have nn: "slab_free_list_head m1 s \<noteq> NULL"
      using slab_repD(2) [OF slab_invD(1) [OF n1(1)]] unfolding ax by (auto simp: intrusive_rep_def node_def)
    obtain p m' where tk: "slab_take m1 s = (p, m')" by fastforce
    have run: "bc_allocators_slab_allocate E m c s = Some (Some p, m', c1)"
      using True np(1) ok tk by (simp add: bc_allocators_slab_allocate_def)
    obtain ys where ys: "slab_inv g m' c1 s osz ops ((p0, q0) # ps) ys N1 R" "kept_objects m1 m' R"
      "used_kept m1 m' osz (all_slots osz ops ((p0, q0) # ps))" "p \<in> all_slots osz ops ((p0, q0) # ps)"
      "slab_used osz ops ((p0, q0) # ps) ys = insert p (slab_used osz ops ps fs)" "p \<notin> slab_used osz ops ps fs"
      using slab_take_ok [OF n1(1) nn tk] unfolding n1(2) by blast
    have "used_kept m1 m' osz (slab_used osz ops ps fs)"
      by (rule used_kept_subset [OF ys(3)]) (auto simp: slab_used_def all_slots_def)
    then have "used_kept m m' osz (slab_used osz ops ps fs)" by (rule used_kept_trans [OF u1])
    moreover have "kept_objects m m' R" using k1(1) ys(2) by (rule kept_objects_trans)
    ultimately show ?thesis using run ys(1,4-6) fs by auto
  qed
qed

end

section \<open>Destruction\<close>

lemma free_pages_ok:
  assumes "chain m 8 h (map fst ps)" "\<forall>(p, q) \<in> set ps. page_objects m p = q \<and> 16 \<le> N p"
    and "distinct (map fst ps @ map snd ps)"
    and "pool_since g m c ((\<lambda>p. (p, N p)) ` set (map fst ps @ map snd ps) \<union> R)"
    and "(\<lambda>p. (p, N p)) ` set (map fst ps @ map snd ps) \<inter> R = {}"
  shows "\<exists>m' c'. free_pages m c h = Some (m', c') \<and> pool_since g m' c' R \<and> kept_objects m m' R"
  using assms
proof (induction ps arbitrary: m c h)
  case Nil
  then show ?case by (simp add: free_pages.simps)
next
  case (Cons e ps)
  obtain p q where e: "e = (p, q)" by fastforce
  define T where "T = (\<lambda>p. (p, N p)) ` set (map fst ps @ map snd ps)"
  define S where "S = T \<union> R"
  have all: "(\<lambda>p. (p, N p)) ` set (map fst (e # ps) @ map snd (e # ps)) \<union> R = insert (p, N p) (insert (q, N q) S)"
    by (auto simp: S_def T_def e)
  have ne: "p \<noteq> q" "p \<notin> set (map fst ps @ map snd ps)" "q \<notin> set (map fst ps @ map snd ps)"
    using Cons.prems(3) e by auto
  have nT: "(p, N p) \<notin> T" "(q, N q) \<notin> T" using ne by (auto simp: T_def)
  have nS: "(p, N p) \<notin> S" "(q, N q) \<notin> S" using nT Cons.prems(5) by (auto simp: S_def e)
  have h0: "h = p" "p \<noteq> NULL" "chain m 8 (page_next m p) (map fst ps)" using Cons.prems(1) e by auto
  have pq: "page_objects m p = q" "16 \<le> N p" using Cons.prems(2) e by auto
  have hold: "pool_since g m c (insert (p, N p) (insert (q, N q) S))" using Cons.prems(4) unfolding all .
  obtain m1 c1 where f1: "bc_allocators_pool_free m c q = (m1, c1)" by fastforce
  have r1: "insert (p, N p) (insert (q, N q) S) - {(q, N q)} = insert (p, N p) S" using nS ne(1) by auto
  note k1 = std.since.release [OF hold insertI2 [OF insertI1] f1, unfolded r1]
  obtain m2 c2 where f2: "bc_allocators_pool_free m1 c1 p = (m2, c2)" by fastforce
  have r2: "insert (p, N p) S - {(p, N p)} = S" using nS by simp
  note k2 = std.since.release [OF conjunct1 [OF k1] insertI1 f2, unfolded r2]
  have kS: "kept_objects m m2 S"
    using k1 k2 by (auto intro: kept_objects_trans kept_objects_subset)
  have pgs: "agree m m2 (area x 16) \<and> unat x + 16 \<le> 18446744073709551616" if x: "(x, y) \<in> set ps" for x y
  proof -
    have "16 \<le> N x" using Cons.prems(2) x by auto
    moreover have "(x, N x) \<in> S" using x by (force simp: S_def T_def)
    moreover have "agree m m2 (area x (N x))" by (rule kept_objectsD [OF kS \<open>(x, N x) \<in> S\<close>])
    moreover have "unat x + N x \<le> 140737488355328"
      using since_bounds [OF conjunct1 [OF k2] \<open>(x, N x) \<in> S\<close>] by simp
    ultimately have "agree m m2 (area x 16)" "unat x + 16 \<le> 140737488355328"
      by (auto intro: agree_subset [OF _ area_mono])
    then show ?thesis by simp
  qed
  have "\<forall>(x, y) \<in> set ps. agree m m2 (area x 16) \<and> unat x + 16 \<le> 18446744073709551616" using pgs by blast
  note pc = page_chain_kept [OF this]
  have c2: "chain m2 8 (page_next m p) (map fst ps)" using h0(3) pc(1) by blast
  have o2: "\<forall>(x, y) \<in> set ps. page_objects m2 x = y \<and> 16 \<le> N x" using pc(2) Cons.prems(2) by auto
  have d2: "distinct (map fst ps @ map snd ps)" using Cons.prems(3) by auto
  have j2: "(\<lambda>p. (p, N p)) ` set (map fst ps @ map snd ps) \<inter> R = {}" using Cons.prems(5) by auto
  have p2: "pool_since g m2 c2 ((\<lambda>p. (p, N p)) ` set (map fst ps @ map snd ps) \<union> R)"
    using conjunct1 [OF k2] by (simp only: S_def T_def)
  obtain m' c' where ih: "free_pages m2 c2 (page_next m p) = Some (m', c')" "pool_since g m' c' R" "kept_objects m2 m' R"
    using Cons.IH [OF c2 o2 d2 p2 j2] by blast
  have "free_pages m c h = Some (m', c')"
    using ih(1) h0(1,2) pq(1) f1 f2 by (subst free_pages.simps) (simp add: Let_def)
  moreover have "kept_objects m m' R"
    using kS ih(3) by (auto simp: S_def intro: kept_objects_trans kept_objects_subset)
  ultimately show ?case using ih(2) by blast
qed

lemma slab_destroy_ok:
  assumes inv: "slab_inv g m c s osz ops ps fs N R"
  shows "\<exists>m' c'. bc_allocators_slab_destroy m c s = Some (m', c') \<and> pool_since g m' c' R \<and> kept_objects m m' R"
proof -
  note d = slab_invD [OF inv]
  define R2 where "R2 = insert (s, N s) R"
  have ptr: "distinct (map fst ps @ map snd ps)" "s \<notin> set (map fst ps @ map snd ps)"
    using d(2) by (auto simp: slab_sizes_def slab_ptrs_def)
  have own: "slab_own s ps N \<union> R = (\<lambda>p. (p, N p)) ` set (map fst ps @ map snd ps) \<union> R2"
    by (auto simp: slab_own_def slab_ptrs_def R2_def)
  have dj: "(\<lambda>p. (p, N p)) ` set (map fst ps @ map snd ps) \<inter> R2 = {}"
    using d(4) ptr(2) by (auto simp: slab_own_def slab_ptrs_def R2_def)
  have ch: "chain m 8 (slab_pages m s) (map fst ps)" "\<forall>(p, q) \<in> set ps. page_objects m p = q \<and> 16 \<le> N p"
    using slab_repD(1) [OF d(1)] d(2) by (auto simp: slab_heads_def slab_sizes_def)
  obtain m1 c1 where f: "free_pages m c (slab_pages m s) = Some (m1, c1)" "pool_since g m1 c1 R2" "kept_objects m m1 R2"
    using free_pages_ok [OF ch ptr(1) d(3) [unfolded own] dj] by blast
  obtain m2 c2 where g: "bc_allocators_pool_free m1 c1 s = (m2, c2)" by fastforce
  have "(s, N s) \<notin> R" using d(4) slab_own_mem(1) by blast
  then have "R2 - {(s, N s)} = R" by (simp add: R2_def)
  then have "pool_since g m2 c2 R \<and> kept_objects m1 m2 R"
    using std.since.release [OF f(2) _ g, of "N s"] by (simp add: R2_def)
  moreover have "kept_objects m m1 R" by (rule kept_objects_subset [OF f(3)]) (auto simp: R2_def)
  ultimately show ?thesis using f(1) g by (auto simp: bc_allocators_slab_destroy_def intro: kept_objects_trans)
qed

section \<open>Statistics\<close>

lemma slab_sizes_tail:
  assumes "slab_sizes s osz ops (e # ps) N" "pool_since g m c (slab_own s (e # ps) N \<union> R)"
  obtains R' where "slab_sizes s osz ops ps N" "pool_since g m c (slab_own s ps N \<union> R')"
proof -
  have "slab_own s (e # ps) N \<union> R = slab_own s ps N \<union> (slab_own s (e # ps) N \<union> R)"
    by (auto simp: slab_own_def slab_ptrs_def)
  then have "pool_since g m c (slab_own s ps N \<union> (slab_own s (e # ps) N \<union> R))" using assms(2) by simp
  moreover have "slab_sizes s osz ops ps N" using assms(1) by (auto simp: slab_sizes_def slab_ptrs_def)
  ultimately show thesis using that by blast
qed

text \<open>The slots of all pages are different addresses, so their number is the product.\<close>

lemma card_all_slots:
  assumes "slab_sizes s osz ops ps N" "pool_since g m c (slab_own s ps N \<union> R)"
  shows "card (all_slots osz ops ps) = length ps * unat ops"
  using assms
proof (induction ps arbitrary: R)
  case Nil
  then show ?case by simp
next
  case (Cons e ps)
  obtain p q where e: "e = (p, q)" by fastforce
  note sz = Cons.prems(1) [unfolded e] and h = Cons.prems(2) [unfolded e]
  obtain R' where t: "slab_sizes s osz ops ps N" "pool_since g m c (slab_own s ps N \<union> R')"
    using slab_sizes_tail [OF Cons.prems] .
  have pc: "(q, unat ops * unat osz) \<in> slab_pieces s osz ops ((p, q) # ps)" by (simp add: slab_pieces_def)
  note bd = slab_pieces_bounds [OF sz h pc]
  have o8: "8 \<le> unat osz" using sz by (simp add: slab_sizes_def)
  have "card (set (slots q osz ops)) = unat ops"
    using distinct_card [OF slots_facts(1) [OF bd(2) o8 bd(1)]] by (simp add: slots_def)
  then show ?case
    using all_slots_disjoint [OF sz h] Cons.IH [OF t] by (simp add: e all_slots_Cons card_Un_disjoint)
qed

lemma slab_stats_ok:
  assumes inv: "slab_inv g m c s osz ops ps fs N R"
  shows "bc_allocators_slab_get_stats m s =
    (True, \<lparr>ss_object_size = osz, ss_objects_per_slab = ops, ss_slab_count = of_nat (length ps),
       ss_total_objects = of_nat (card (all_slots osz ops ps)),
       ss_used_objects = of_nat (card (slab_used osz ops ps fs)), ss_free_objects = of_nat (length fs)\<rparr>)"
proof -
  note d = slab_invD [OF inv]
  note r = slab_repD [OF d(1)]
  define A where "A = all_slots osz ops ps"
  have cA: "card A = length ps * unat ops" unfolding A_def by (rule card_all_slots [OF d(2,3)])
  have "card (A - set fs) = card A - card (set fs)" by (rule card_Diff_subset) (use r(4) in \<open>auto simp: A_def\<close>)
  moreover have "card (set fs) \<le> card A" using r(4) by (intro card_mono) (auto simp: A_def)
  ultimately have cU: "card A = card (A - set fs) + length fs" using distinct_card [OF r(3)] by simp
  have tot: "of_nat (length ps) * ops = (of_nat (card A) :: u64)" by (simp add: cA)
  have "(of_nat (card A) :: u64) - of_nat (card (A - set fs)) = of_nat (length fs)" unfolding cU by simp
  then show ?thesis
    using r(1,5) tot by (simp add: bc_allocators_slab_get_stats_def slab_heads_def Let_def slab_used_def flip: A_def)
qed

end
