(* ===== verification/BC_Slab_Spec.thy ===== *)
theory BC_Slab_Spec
  imports BC_Slab_Life
begin

text \<open>
  What a slab promises its client, without pages, lists or addresses of links: a finite map from the objects in use to
  their contents. Allocation adds an object that was not there, freeing removes one, a write changes one byte of one
  object. The concrete operations are calls on this map.
\<close>

datatype slab_call =
    Slab_allocate
  | Slab_free u64
  | Slab_write u64 nat u8

type_synonym contents = "u64 \<rightharpoonup> u8 list"

text \<open>What a client may call: it frees and writes only objects it holds, and writes only inside them.\<close>

fun slab_allowed :: "nat \<Rightarrow> contents \<Rightarrow> slab_call \<Rightarrow> bool" where
  "slab_allowed n A Slab_allocate = True"
| "slab_allowed n A (Slab_free p) = (p \<in> dom A)"
| "slab_allowed n A (Slab_write p i x) = (p \<in> dom A \<and> i < n)"

fun slab_spec :: "nat \<Rightarrow> contents \<Rightarrow> slab_call \<Rightarrow> u64 option \<Rightarrow> contents \<Rightarrow> bool" where
  "slab_spec n A Slab_allocate r A' =
     (case r of None \<Rightarrow> A' = A | Some p \<Rightarrow> p \<notin> dom A \<and> (\<exists>bs. length bs = n \<and> A' = A(p \<mapsto> bs)))"
| "slab_spec n A (Slab_free p) r A' = (r = None \<and> A' = A(p := None))"
| "slab_spec n A (Slab_write p i x) r A' = (r = None \<and> A' = A(p \<mapsto> (the (A p))[i := x]))"

text \<open>The same calls on memory and context.\<close>

fun slab_call_run :: "env \<Rightarrow> mem \<Rightarrow> bc_context \<Rightarrow> u64 \<Rightarrow> slab_call \<Rightarrow> (u64 option \<times> mem \<times> bc_context) option" where
  "slab_call_run E m c s Slab_allocate = bc_allocators_slab_allocate E m c s"
| "slab_call_run E m c s (Slab_free p) = Some (None, bc_allocators_slab_free m s p, c)"
| "slab_call_run E m c s (Slab_write p i x) = Some (None, m(p + of_nat i := x), c)"

definition bytes_at :: "mem \<Rightarrow> u64 \<Rightarrow> nat \<Rightarrow> u8 list" where
  "bytes_at m p n = map (\<lambda>i. m (p + of_nat i)) [0 ..< n]"

definition slab_view :: "mem \<Rightarrow> u64 \<Rightarrow> u64 set \<Rightarrow> contents" where
  "slab_view m osz U = (\<lambda>b. if b \<in> U then Some (bytes_at m b (unat osz)) else None)"

lemma dom_slab_view [simp]: "dom (slab_view m osz U) = U"
  by (auto simp: slab_view_def split: if_splits)

lemma length_bytes_at [simp]: "length (bytes_at m p n) = n"
  by (simp add: bytes_at_def)

lemma bytes_at_cong:
  assumes "agree m m' (area p n)" "unat p + n \<le> 18446744073709551616"
  shows "bytes_at m' p n = bytes_at m p n"
proof -
  have "m' (p + of_nat i) = m (p + of_nat i)" if "i < n" for i
    by (rule agreeD [OF assms(1)]) (use that assms(2) in \<open>simp add: no_wrap\<close>)
  then show ?thesis by (simp add: bytes_at_def)
qed

text \<open>Every slot lies below the limit of user space.\<close>

lemma slot_bound:
  assumes inv: "slab_inv g m c s osz ops ps fs N R" and b: "b \<in> all_slots osz ops ps"
  shows "unat b + unat osz \<le> 140737488355328" "8 \<le> unat osz"
proof -
  note d = slab_invD [OF inv]
  obtain p q where x: "(p, q) \<in> set ps" "b \<in> set (slots q osz ops)" "(q, unat ops * unat osz) \<in> slab_pieces s osz ops ps"
    using all_slots_piece [OF d(2,3) b] .
  obtain i where i: "i < unat ops" "b = q + of_nat i * osz" using x(2) by (auto simp: slots_def)
  note bd = slab_pieces_bounds [OF d(2,3) x(3)]
  show "unat b + unat osz \<le> 140737488355328"
    using slot_addr [OF bd(2) i(1)] bd(2) unfolding i(2) by linarith
  show "8 \<le> unat osz" using d(2) by (simp add: slab_sizes_def)
qed

lemma slab_view_kept:
  assumes inv: "slab_inv g m c s osz ops ps fs N R" and U: "U \<subseteq> all_slots osz ops ps" and k: "used_kept m m' osz U"
  shows "slab_view m' osz U = slab_view m osz U"
proof
  fix b
  show "slab_view m' osz U b = slab_view m osz U b"
  proof (cases "b \<in> U")
    case True
    then have "agree m m' (area b (unat osz))" using k by (simp add: used_kept_def)
    moreover have "unat b + unat osz \<le> 18446744073709551616" using slot_bound(1) [OF inv, of b] U True by auto
    ultimately show ?thesis by (simp add: slab_view_def bytes_at_cong)
  qed (simp add: slab_view_def)
qed

section \<open>A client write\<close>

lemma slab_write_ok:
  assumes inv: "slab_inv g m c s osz ops ps fs N R" and b: "b \<in> slab_used osz ops ps fs"
    and out: "agree m m' (- area b (unat osz))"
  shows "slab_inv g m' c s osz ops ps fs N R" "kept_objects m m' R" "used_kept m m' osz (slab_used osz ops ps fs - {b})"
proof -
  note d = slab_invD [OF inv]
  have ba: "b \<in> all_slots osz ops ps" "b \<notin> set fs" using b by (auto simp: slab_used_def)
  obtain p0 q0 where q0: "(p0, q0) \<in> set ps" "area b (unat osz) \<subseteq> area q0 (unat ops * unat osz)"
    "(q0, unat ops * unat osz) \<in> slab_pieces s osz ops ps" using all_slots_piece [OF d(2,3) ba(1)] .
  note own = slab_piece_own [OF d(2) q0(3)]
  have out': "agree m m' (- area q0 (N q0))"
    using q0(2) area_mono [OF own(2), of q0] by (intro agree_subset [OF out]) blast
  note w = std.since.write_keeps [OF d(3) UnI1 [OF own(1)] out']
  have "R \<subseteq> slab_own s ps N \<union> R - {(q0, N q0)}" using own(1) d(4) by blast
  then show "kept_objects m m' R" by (rule kept_objects_subset [OF w(2)])
  have far: "agree m m' (area x (unat osz))" if "x \<in> all_slots osz ops ps" "x \<noteq> b" for x
    using slots_apart [OF d(2,3) ba(1) that(1)] that(2) by (intro agree_off [OF out]) blast
  then show "used_kept m m' osz (slab_used osz ops ps fs - {b})" by (auto simp: used_kept_def slab_used_def)
  have "slab_rep m' s osz ops ps fs"
  proof (rule slab_rep_cong [OF d(1)])
    show "agree m m' (area s 56)" by (rule agree_off [OF out slot_off_struct(2) [OF inv ba(1)]])
    show "unat s + 56 \<le> 18446744073709551616" using d(5) by simp
    show "agree m m' (area p 16) \<and> unat p + 16 \<le> 18446744073709551616" if pq: "(p, q) \<in> set ps" for p q
    proof -
      have pc: "(p, 16) \<in> slab_pieces s osz ops ps" using pq by (force simp: slab_pieces_def)
      have "fst ` set ps \<inter> snd ` set ps = {}" using d(2) by (auto simp: slab_sizes_def slab_ptrs_def)
      moreover have "p \<in> fst ` set ps" using pq by force
      ultimately have "p \<notin> snd ` set ps" by blast
      then show ?thesis
        using agree_off [OF out slot_off_piece [OF d(2,3) ba(1) pc]] slab_pieces_bounds(2) [OF d(2,3) pc] by simp
    qed
    show "agree m m' (area x 8)" if x: "x \<in> set fs" for x
    proof -
      have xa: "x \<in> all_slots osz ops ps" "x \<noteq> b" using slab_repD(4) [OF d(1)] x ba(2) by auto
      show ?thesis by (rule agree_subset [OF far [OF xa] slot_nodes(2) [OF d(2,3) xa(1)]])
    qed
  qed
  then show "slab_inv g m' c s osz ops ps fs N R" using w(1) d(2,4) by (simp add: slab_inv_def)
qed

lemma bytes_at_upd:
  assumes "i < n" "unat p + n \<le> 18446744073709551616"
  shows "bytes_at (m(p + of_nat i := x)) p n = (bytes_at m p n)[i := x]"
proof (rule nth_equalityI)
  fix j assume j: "j < length (bytes_at (m(p + of_nat i := x)) p n)"
  have "unat (p + of_nat k) = unat p + k" if "k < n" for k using that assms(2) by (simp add: no_wrap)
  then have "p + of_nat j = p + of_nat i \<longleftrightarrow> j = i" using j assms(1) by (simp add: u64_eq_iff)
  then show "bytes_at (m(p + of_nat i := x)) p n ! j = (bytes_at m p n)[i := x] ! j"
    using j by (simp add: bytes_at_def nth_list_update)
qed simp

section \<open>The simulation\<close>

lemma slab_call_write:
  fixes x :: u8
  assumes inv: "slab_inv g m c s osz ops ps fs N R" and p: "p \<in> slab_used osz ops ps fs" "i < unat osz"
  defines "m' \<equiv> m(p + of_nat i := x)"
  shows "slab_inv g m' c s osz ops ps fs N R" "kept_objects m m' R"
    "slab_view m' osz (slab_used osz ops ps fs) =
       (slab_view m osz (slab_used osz ops ps fs))(p \<mapsto> (bytes_at m p (unat osz))[i := x])"
proof -
  define U where "U = slab_used osz ops ps fs"
  have pa: "p \<in> all_slots osz ops ps" using p(1) by (simp add: slab_used_def)
  have lim: "unat p + unat osz \<le> 18446744073709551616" using slot_bound(1) [OF inv pa] by simp
  have "p + of_nat i \<in> area p (unat osz)" using p(2) lim by (simp add: no_wrap)
  then have "agree m m' (- area p (unat osz))" by (simp add: agree_def m'_def del: in_area)
  note w = slab_write_ok [OF inv p(1) this]
  show "slab_inv g m' c s osz ops ps fs N R" "kept_objects m m' R" by (rule w(1), rule w(2))
  have U: "U - {p} \<subseteq> all_slots osz ops ps" by (auto simp: U_def slab_used_def)
  have v: "slab_view m' osz (U - {p}) = slab_view m osz (U - {p})"
    by (rule slab_view_kept [OF inv U w(3) [folded U_def]])
  have "slab_view m' osz U b = ((slab_view m osz U)(p \<mapsto> (bytes_at m p (unat osz))[i := x])) b" for b
    using fun_cong [OF v, of b] bytes_at_upd [OF p(2) lim, of m x] p(1)
    by (auto simp: slab_view_def U_def m'_def split: if_splits)
  then show "slab_view m' osz (slab_used osz ops ps fs) =
      (slab_view m osz (slab_used osz ops ps fs))(p \<mapsto> (bytes_at m p (unat osz))[i := x])" by (auto simp: U_def)
qed

lemma slab_view_insert:
  assumes "p \<notin> U" "slab_view m' osz U = slab_view m osz U"
  shows "slab_view m' osz (insert p U) = (slab_view m osz U)(p \<mapsto> bytes_at m' p (unat osz))"
proof
  fix b
  show "slab_view m' osz (insert p U) b = ((slab_view m osz U)(p \<mapsto> bytes_at m' p (unat osz))) b"
    using assms(1) fun_cong [OF assms(2), of b] by (auto simp: slab_view_def)
qed

lemma slab_view_remove: "slab_view m osz (U - {p}) = (slab_view m osz U)(p := None)"
  by (auto simp: slab_view_def)

context bc_core
begin

lemma slab_call_ok:
  assumes inv: "slab_inv g m c s osz ops ps fs N R"
    and ok: "slab_allowed (unat osz) (slab_view m osz (slab_used osz ops ps fs)) call"
  shows "\<exists>r m' c' ps' fs' N'. slab_call_run E m c s call = Some (r, m', c') \<and> slab_inv g m' c' s osz ops ps' fs' N' R
    \<and> kept_objects m m' R
    \<and> slab_spec (unat osz) (slab_view m osz (slab_used osz ops ps fs)) call r
         (slab_view m' osz (slab_used osz ops ps' fs'))"
proof (cases call)
  case Slab_allocate
  obtain r m' c' where al: "bc_allocators_slab_allocate E m c s = Some (r, m', c')" "kept_objects m m' R"
    "used_kept m m' osz (slab_used osz ops ps fs)"
    "case r of None \<Rightarrow> fs = [] \<and> (\<exists>N'. slab_inv g m' c' s osz ops ps fs N' R)
       | Some p \<Rightarrow> \<exists>ps' fs' N'. slab_inv g m' c' s osz ops ps' fs' N' R \<and> p \<in> all_slots osz ops ps'
           \<and> p \<notin> slab_used osz ops ps fs \<and> slab_used osz ops ps' fs' = insert p (slab_used osz ops ps fs)
           \<and> (fs \<noteq> [] \<longrightarrow> fs = p # fs' \<and> ps' = ps \<and> c' = c)"
    using slab_allocate_ok [OF inv] by blast
  have "slab_used osz ops ps fs \<subseteq> all_slots osz ops ps" by (auto simp: slab_used_def)
  note v = slab_view_kept [OF inv this al(3)]
  show ?thesis
  proof (cases r)
    case None
    then obtain N' where "slab_inv g m' c' s osz ops ps fs N' R" using al(4) by auto
    moreover have "slab_spec (unat osz) (slab_view m osz (slab_used osz ops ps fs)) call r
      (slab_view m' osz (slab_used osz ops ps fs))" using v None Slab_allocate by simp
    ultimately show ?thesis using al(1,2) Slab_allocate by fastforce
  next
    case (Some p)
    then obtain ps' fs' N' where n: "slab_inv g m' c' s osz ops ps' fs' N' R" "p \<notin> slab_used osz ops ps fs"
      "slab_used osz ops ps' fs' = insert p (slab_used osz ops ps fs)" using al(4) by auto
    have "slab_spec (unat osz) (slab_view m osz (slab_used osz ops ps fs)) call r
      (slab_view m' osz (slab_used osz ops ps' fs'))"
      unfolding n(3) slab_view_insert [OF n(2) v] using n(2) Some Slab_allocate by force
    then show ?thesis using al(1,2) n(1) Slab_allocate by fastforce
  qed
next
  case (Slab_free p)
  then have p: "p \<in> slab_used osz ops ps fs" using ok by simp
  note f = slab_free_ok [OF inv p]
  have U: "slab_used osz ops ps fs - {p} \<subseteq> all_slots osz ops ps" by (auto simp: slab_used_def)
  have "used_kept m (bc_allocators_slab_free m s p) osz (slab_used osz ops ps fs - {p})"
    by (rule used_kept_subset [OF f(3)]) (auto simp: slab_used_def)
  note v = slab_view_kept [OF inv U this]
  have "slab_spec (unat osz) (slab_view m osz (slab_used osz ops ps fs)) call None
      (slab_view (bc_allocators_slab_free m s p) osz (slab_used osz ops ps (p # fs)))"
    using v unfolding f(4) slab_view_remove Slab_free by simp
  then show ?thesis using f(1,2) Slab_free by fastforce
next
  case (Slab_write p i x)
  then have p: "p \<in> slab_used osz ops ps fs" "i < unat osz" using ok by auto
  note w = slab_call_write [OF inv p, where x = x]
  have "slab_spec (unat osz) (slab_view m osz (slab_used osz ops ps fs)) call None
      (slab_view (m(p + of_nat i := x)) osz (slab_used osz ops ps fs))"
    unfolding w(3) Slab_write using p(1) by (simp add: slab_view_def)
  then show ?thesis using w(1,2) Slab_write by fastforce
qed

end

section \<open>Allocating several objects\<close>

text \<open>A client that allocates \<open>n\<close> objects in a row, until one is refused.\<close>

fun allocate_slots :: "env \<Rightarrow> nat \<Rightarrow> mem \<Rightarrow> bc_context \<Rightarrow> u64 \<Rightarrow> (u64 list \<times> mem \<times> bc_context) option" where
  "allocate_slots E 0 m c s = Some ([], m, c)"
| "allocate_slots E (Suc n) m c s =
     (case bc_allocators_slab_allocate E m c s of
        None \<Rightarrow> None
      | Some (None, m1, c1) \<Rightarrow> Some ([], m1, c1)
      | Some (Some p, m1, c1) \<Rightarrow>
          (case allocate_slots E n m1 c1 s of
             None \<Rightarrow> None
           | Some (ps, m2, c2) \<Rightarrow> Some (p # ps, m2, c2)))"

text \<open>While slots are free they come from the list, in its order.\<close>

context bc_core
begin

lemma allocate_slots_free:
  assumes "slab_inv g m c s osz ops ps fs N R" "n \<le> length fs"
  shows "\<exists>m'. allocate_slots E n m c s = Some (take n fs, m', c)"
  using assms
proof (induction n arbitrary: m fs N)
  case (Suc n)
  then obtain p ys where fs: "fs = p # ys" by (cases fs) auto
  obtain r m1 c1 where al: "bc_allocators_slab_allocate E m c s = Some (r, m1, c1)"
    "case r of None \<Rightarrow> fs = [] \<and> (\<exists>N'. slab_inv g m1 c1 s osz ops ps fs N' R)
       | Some p \<Rightarrow> \<exists>ps' fs' N'. slab_inv g m1 c1 s osz ops ps' fs' N' R \<and> p \<in> all_slots osz ops ps'
           \<and> p \<notin> slab_used osz ops ps fs \<and> slab_used osz ops ps' fs' = insert p (slab_used osz ops ps fs)
           \<and> (fs \<noteq> [] \<longrightarrow> fs = p # fs' \<and> ps' = ps \<and> c1 = c)"
    using slab_allocate_ok [OF Suc.prems(1)] by blast
  then obtain N' where r: "r = Some p" "c1 = c" "slab_inv g m1 c s osz ops ps ys N' R"
    using fs by (cases r) auto
  obtain m' where "allocate_slots E n m1 c s = Some (take n ys, m', c)" using Suc.IH [OF r(3)] Suc.prems(2) fs by auto
  then show ?case using al(1) r fs by simp
qed simp

end

lemma rev_slots_nth:
  assumes "unat q + unat ops * unat osz \<le> 140737488355328" "i < unat ops"
  shows "unat (rev (slots q osz ops) ! i) = unat q + (unat ops - 1 - i) * unat osz"
  using assms slot_addr(1) [OF assms(1), of "unat ops - 1 - i"] by (simp add: rev_nth slots_def)

text \<open>Two neighbouring slots of a page are never both multiples of a power of two above the object size.\<close>

lemma neighbours_unaligned:
  assumes "0 < (n :: nat)" "n < 2 ^ k"
  shows "\<not> (2 ^ k dvd a \<and> 2 ^ k dvd a + n)"
proof
  assume "2 ^ k dvd a \<and> 2 ^ k dvd a + n"
  then have "2 ^ k dvd n" by (metis dvd_add_right_iff)
  then have "2 ^ k \<le> n" using assms(1) by (intro dvd_imp_le) auto
  then show False using assms(2) by simp
qed

end
