(* ===== verification/BC_Slab_Demo.thy ===== *)
theory BC_Slab_Demo
  imports BC_Slab_Spec BC_Demo
begin

text \<open>
  A concrete slab in the demo context: eight objects of 24 bytes to a page, and the state after one allocation. Its three
  pool allocations are of classes below the page size, so each takes at most one page of the 16.
\<close>

section \<open>Small allocations in the demo region succeed\<close>

lemma bump_small_growth:
  assumes "bump_allocate_class E m c k = (p, m', c')" "bc_allocators_class_sizes ! k < cx_page_size c"
  shows "cx_page_size c' = cx_page_size c" "pool_total c' = pool_total c" "pool_bump c' \<le> pool_bump c + pool_page c"
proof -
  obtain q c1 where b: "bump_raw c (cx_page_size c) = (q, c1)" by fastforce
  have "unat (rg_bump (cx_region c) + cx_page_size c) \<le> pool_bump c + pool_page c" by (simp add: unat_plus_if')
  then have g: "cx_page_size c1 = cx_page_size c \<and> pool_total c1 = pool_total c \<and> pool_bump c1 \<le> pool_bump c + pool_page c"
    using b by (auto simp: bump_raw_def Let_def split: if_splits)
  have "cx_region c' = cx_region c1 \<and> cx_page_size c' = cx_page_size c1"
    using assms b by (auto simp: bump_allocate_class_def Let_def split: if_splits prod.splits)
  then show "cx_page_size c' = cx_page_size c" "pool_total c' = pool_total c" "pool_bump c' \<le> pool_bump c + pool_page c"
    using g by auto
qed

lemma allocate_small_growth:
  assumes run: "bc_allocators_pool_allocate E m c sz = (r, m', c')" and sz: "sz \<noteq> 0" "size_class_for_size E sz = int k"
    and small: "bc_allocators_class_sizes ! k < cx_page_size c"
  shows "cx_page_size c' = cx_page_size c" "pool_total c' = pool_total c" "pool_bump c' \<le> pool_bump c + pool_page c"
proof -
  obtain b fl where pop: "free_list_pop m (cx_pools c ! k) = (b, fl)" by fastforce
  define c1 where "c1 = c\<lparr>cx_pools := (cx_pools c)[k := fl]\<rparr>"
  obtain q m2 c2 where bu: "bump_allocate_class E m c1 k = (q, m2, c2)" by (metis prod_cases3)
  have s1: "bc_allocators_class_sizes ! k < cx_page_size c1" using small by (simp add: c1_def)
  note g = bump_small_growth [OF bu s1]
  have r1: "cx_page_size c1 = cx_page_size c" "cx_region c1 = cx_region c" by (simp_all add: c1_def)
  have "(cx_region c' = cx_region c1 \<and> cx_page_size c' = cx_page_size c1)
      \<or> (cx_region c' = cx_region c2 \<and> cx_page_size c' = cx_page_size c2)"
    using run sz pop bu
    by (auto simp: bc_allocators_pool_allocate_def Let_def track_alloc_def simp flip: c1_def split: if_splits)
  then show "cx_page_size c' = cx_page_size c" "pool_total c' = pool_total c" "pool_bump c' \<le> pool_bump c + pool_page c"
    using g unfolding r1 by auto
qed

lemma small_allocation:
  assumes h: "pool_objects m c S" and c: "cx_page_size c = 4096" "pool_total c = 65536" "pool_bump c \<le> B" "B \<le> 61440"
    and k: "first_fit_class sz = k" "k < 8" "unat sz \<le> class_bytes k" "sz \<noteq> 0" "class_bytes k \<le> 4095"
    and run: "bc_allocators_pool_allocate std_env m c sz = (r, m', c')"
  shows "\<exists>p. r = Some p" "cx_page_size c' = 4096" "pool_total c' = 65536" "pool_bump c' \<le> B + 4096"
proof -
  have cls: "size_class_for_size std_env sz = int k"
    using std.size_class_first_fit [of sz] k(1,2) by (simp add: NUM_CLASSES_def)
  have "bc_allocators_class_sizes ! k < cx_page_size c" using k(2,5) c(1) by (simp add: word_less_nat_alt)
  note g = allocate_small_growth [OF run k(4) cls this]
  show "cx_page_size c' = 4096" "pool_total c' = 65536" "pool_bump c' \<le> B + 4096" using g c by simp_all
  obtain L where L: "pool_inv m c L" using h by (auto simp: pool_objects_def)
  have "r \<noteq> None"
  proof
    assume "r = None"
    with run have "pool_total c < pool_bump c + max (class_bytes k) (pool_page c)"
      using k by (intro std.pool_allocate_class_refusal(2) [OF L cls _ k(3,4), of m' c']) simp_all
    then show False using c k(5) by simp
  qed
  then show "\<exists>p. r = Some p" by blast
qed

section \<open>The slab\<close>

abbreviation demo_state :: "mem \<times> bc_context" where
  "demo_state \<equiv> (mc_mem demo_machine, demo_ctx)"

lemma demo_objects: "pool_since demo_state (mc_mem demo_machine) demo_ctx {}"
  unfolding pool_since_now pool_objects_def using demo_inv by blast

definition sl_run :: "(u64 option \<times> mem \<times> bc_context) option" where
  "sl_run = bc_allocators_slab_create std_env (mc_mem demo_machine) demo_ctx 24 8"

lemma sl_classes:
  "first_fit_class sizeof_slab = 2" "first_fit_class sizeof_slab_page = 0"
  "first_fit_class (8 * 24 :: u64) = 4"
  by (rule first_fit_class_eqI; simp add: sizeof_slab_def sizeof_slab_page_def)+

lemma allocate_new_page_result:
  assumes "allocate_new_page E m c s = Some (False, m', c')" "bc_allocators_pool_allocate E m c sizeof_slab_page = (Some p, m1, c1)"
  shows "fst (bc_allocators_pool_allocate E m1 c1 (slab_objects_per_slab m1 s * slab_object_size m1 s)) = None"
  using assms by (auto simp: allocate_new_page_def Let_def split: option.splits prod.splits)

text \<open>With room for three pages a slab can be created, next to whatever the pool already holds.\<close>

lemma slab_create_succeeds:
  assumes h0: "pool_since g m0 c0 R" and c0: "cx_page_size c0 = 4096" "pool_total c0 = 65536" "pool_bump c0 \<le> B" "B \<le> 49152"
  obtains s m c p q N where "bc_allocators_slab_create std_env m0 c0 24 8 = Some (Some s, m, c)"
    "slab_inv g m c s 24 8 [(p, q)] (rev (slots q 24 8)) N R" "slab_used 24 8 [(p, q)] (rev (slots q 24 8)) = {}"
proof -
  obtain r m c where run: "bc_allocators_slab_create std_env m0 c0 24 8 = Some (r, m, c)" "slab_created g m0 24 8 R r m c"
    using std.slab_create_ok [OF h0, of 8 24] by auto
  obtain r1 m1 c1 where a1: "bc_allocators_pool_allocate std_env m0 c0 sizeof_slab = (r1, m1, c1)"
    by (metis prod_cases3)
  note g1 = small_allocation [OF pool_since_objects [OF h0] c0(1-3) _ sl_classes(1) _ _ _ _ a1]
  have c1: "cx_page_size c1 = 4096" "pool_total c1 = 65536" "pool_bump c1 \<le> B + 4096"
    using g1(2-4) c0(4) by (simp_all add: sizeof_slab_def)
  obtain s where s: "r1 = Some s" using g1(1) c0(4) by (auto simp: sizeof_slab_def)
  have s56: "unat sizeof_slab \<le> 9223372036854775808" by (simp add: sizeof_slab_def)
  obtain n where n: "unat sizeof_slab \<le> n" "s \<notin> fst ` R" "pool_since g m1 c1 (insert (s, n) R)"
    using std.since.alloc_Some [OF h0 s56 a1 [unfolded s]] by blast
  define m2 where "m2 = init_slab m1 s (cx_self c1) 24 8"
  have n56: "56 \<le> n" using n(1) by (simp add: sizeof_slab_def)
  from slab_init_inv [OF n(3) n56 n(2), of 24 8 "cx_self c1", folded m2_def]
  have i2: "slab_inv g m2 c1 s 24 8 [] [] (\<lambda>_. n) R" by simp
  note d2 = slab_invD [OF i2]
  obtain ok m3 c3 where np: "allocate_new_page std_env m2 c1 s = Some (ok, m3, c3)"
    using std.allocate_new_page_ok [OF i2] by blast
  have "ok"
  proof (rule ccontr)
    assume "\<not> ok"
    with np have np': "allocate_new_page std_env m2 c1 s = Some (False, m3, c3)" by simp
    obtain r4 m4 c4 where a4: "bc_allocators_pool_allocate std_env m2 c1 sizeof_slab_page = (r4, m4, c4)"
      by (metis prod_cases3)
    note g4 = small_allocation [OF pool_since_objects [OF d2(3)] c1 _ sl_classes(2) _ _ _ _ a4]
    have c4: "cx_page_size c4 = 4096" "pool_total c4 = 65536" "pool_bump c4 \<le> B + 8192"
      using g4(2-4) c0(4) by (simp_all add: sizeof_slab_page_def)
    obtain p where p: "r4 = Some p" using g4(1) c0(4) by (auto simp: sizeof_slab_page_def)
    have s16: "unat sizeof_slab_page \<le> 9223372036854775808" by (simp add: sizeof_slab_page_def)
    obtain k where k: "pool_since g m4 c4 (insert (p, k) (slab_own s [] (\<lambda>_. n) \<union> R))"
      "kept_objects m2 m4 (slab_own s [] (\<lambda>_. n) \<union> R)"
      using std.since.alloc_Some [OF d2(3) s16 a4 [unfolded p]] by blast
    have "agree m2 m4 (area s 56)"
      using kept_objectsD [OF k(2), of s n] n56 by (auto intro: agree_subset [OF _ area_mono])
    then have fl: "slab_objects_per_slab m4 s = 8" "slab_object_size m4 s = 24"
      using slab_field_cong [of m2 m4 s] d2(5) slab_repD(1) [OF d2(1)] by (auto simp: slab_heads_def)
    obtain r5 m5 c5 where a5: "bc_allocators_pool_allocate std_env m4 c4 (8 * 24) = (r5, m5, c5)"
      by (metis prod_cases3)
    note g5 = small_allocation [OF pool_since_objects [OF k(1)] c4 _ sl_classes(3) _ _ _ _ a5]
    have "\<exists>q. r5 = Some q" using g5(1) c0(4) by simp
    then show False using allocate_new_page_result [OF np' a4 [unfolded p]] a5 by (simp add: fl)
  qed
  then have res: "bc_allocators_slab_create std_env m0 c0 24 8 = Some (Some s, m3, c3)"
    using a1 s np by (simp add: bc_allocators_slab_create_def m2_def Let_def)
  have "(r, m, c) = (Some s, m3, c3)" using run(1) unfolding res by simp
  then have "slab_created g m0 24 8 R (Some s) m3 c3" using run(2) by simp
  then show thesis using that res unfolding slab_created_def by auto
qed

lemma sl_created:
  obtains s m c p q N where "sl_run = Some (Some s, m, c)"
    "slab_inv demo_state m c s 24 8 [(p, q)] (rev (slots q 24 8)) N {}" "slab_used 24 8 [(p, q)] (rev (slots q 24 8)) = {}"
proof -
  have "cx_page_size demo_ctx = 4096" "pool_total demo_ctx = 65536" "pool_bump demo_ctx \<le> 0" by (simp_all add: demo_sel)
  from slab_create_succeeds [OF demo_objects this] show thesis using that by (auto simp: sl_run_def)
qed

text \<open>From a slab with a free object an allocation succeeds and leaves the pool alone.\<close>

lemma slab_allocate_succeeds:
  assumes inv: "slab_inv g m c s osz ops ps fs N R" and fs: "fs \<noteq> []"
  obtains p m' where "bc_allocators_slab_allocate std_env m c s = Some (Some p, m', c)"
  using std.slab_allocate_ok [OF inv] fs by (fastforce split: option.splits)

end
