(* ===== verification/BC_Slab_Props.thy ===== *)
theory BC_Slab_Props
  imports BC_Slab_Demo
begin

text \<open>
  The properties of the slab: creation, allocation, freeing, destruction, statistics, the refinement of the abstract map
  of objects, reuse, and what its alignment is. \<open>slab_inv g m c s osz ops ps fs N R\<close>: a well-formed slab at \<open>s\<close> with the pages
  \<open>ps\<close> and the free slots \<open>fs\<close>, beside the objects \<open>R\<close> of the pool; \<open>pool_since g m c S\<close>: the pool holds \<open>S\<close>, and nothing outside
  its region, its tag table and its part of the context has changed since the memory and context \<open>g\<close>, which is arbitrary.
  So an operation that keeps these for any \<open>g\<close> changes nothing outside the pool.
\<close>

text \<open>C28: Creation. In a pool with the live objects \<open>R\<close>, when a page is at most \<open>2 ^ 63\<close> bytes, the operation returns.
  Arguments below a pointer size or of zero objects are refused with nothing touched; any other refusal has given every
  allocation back. A created slab is well formed beside \<open>R\<close>, with one page whose slots are all free. No byte of \<open>R\<close>
  changes.\<close>

theorem slab_create_correct:
  assumes "bc_core E" "pool_since g m c R" "unat ops * unat osz \<le> 9223372036854775808"
  shows "\<exists>r m' c'. bc_allocators_slab_create E m c osz ops = Some (r, m', c') \<and> kept_objects m m' R \<and>
    (osz < 8 \<or> ops = 0 \<longrightarrow> r = None \<and> m' = m \<and> c' = c) \<and>
    (case r of None \<Rightarrow> pool_since g m' c' R
     | Some s \<Rightarrow> s \<notin> fst ` R \<and>
         (\<exists>p q N. slab_inv g m' c' s osz ops [(p, q)] (rev (slots q osz ops)) N R \<and>
            slab_used osz ops [(p, q)] (rev (slots q osz ops)) = {}))"
proof (cases "osz < 8 \<or> ops = 0")
  case True
  then have "bc_allocators_slab_create E m c osz ops = Some (None, m, c)"
    by (simp add: bc_allocators_slab_create_def)
  then show ?thesis using assms(2) by simp
next
  case False
  obtain r m' c' where r: "bc_allocators_slab_create E m c osz ops = Some (r, m', c')" "slab_created g m osz ops R r m' c'"
    using bc_core.slab_create_ok [OF assms] by blast
  show ?thesis
    by (intro exI [of _ r] exI [of _ m'] exI [of _ c'])
      (use False r in \<open>auto simp: slab_created_def split: option.splits\<close>)
qed

theorem slab_create_correct_witness:
  "\<exists>r m' c'. bc_allocators_slab_create std_env (mc_mem demo_machine) demo_ctx 24 8 = Some (r, m', c') \<and>
    (case r of None \<Rightarrow> pool_since demo_state m' c' {} | Some s \<Rightarrow> \<exists>p q N. slab_inv demo_state m' c' s 24 8 [(p, q)] (rev (slots q 24 8)) N {})"
  using slab_create_correct [OF std.bc_core_axioms demo_objects, of 8 24] by (fastforce split: option.splits)

text \<open>C29: Allocation. It returns; it is refused only when no slot is free (and the pool refuses a page), leaving the
  slab as it was. Otherwise the result is a slot that was not in use, and the objects in use are those before and this one;
  while a slot is free it is the head of the list and the pool is not asked. The contents of the objects in use and
  everything else alive in the pool stay untouched.\<close>

theorem slab_allocate_correct:
  assumes "bc_core E" "slab_inv g m c s osz ops ps fs N R"
  shows "\<exists>r m' c'. bc_allocators_slab_allocate E m c s = Some (r, m', c') \<and> kept_objects m m' R
    \<and> used_kept m m' osz (slab_used osz ops ps fs)
    \<and> (case r of None \<Rightarrow> fs = [] \<and> (\<exists>N'. slab_inv g m' c' s osz ops ps fs N' R)
       | Some p \<Rightarrow> \<exists>ps' fs' N'. slab_inv g m' c' s osz ops ps' fs' N' R \<and> p \<in> all_slots osz ops ps'
           \<and> p \<notin> slab_used osz ops ps fs \<and> slab_used osz ops ps' fs' = insert p (slab_used osz ops ps fs)
           \<and> (fs \<noteq> [] \<longrightarrow> fs = p # fs' \<and> ps' = ps \<and> c' = c))"
  by (rule bc_core.slab_allocate_ok [OF assms])

lemma demo_slab_nonempty: "rev (slots q 24 8) \<noteq> []"
  by (simp add: slots_def)

theorem slab_allocate_correct_witness:
  "\<exists>s m c p ps fs N. sl_run = Some (Some s, m, c) \<and>
     (\<exists>m'. bc_allocators_slab_allocate std_env m c s = Some (Some p, m', c) \<and>
       slab_inv demo_state m' c s 24 8 ps fs N {} \<and> slab_used 24 8 ps fs = {p})"
proof -
  obtain s m c p q N where sl: "sl_run = Some (Some s, m, c)" "slab_inv demo_state m c s 24 8 [(p, q)] (rev (slots q 24 8)) N {}"
    "slab_used 24 8 [(p, q)] (rev (slots q 24 8)) = {}" by (rule sl_created)
  obtain r m' c' where al: "bc_allocators_slab_allocate std_env m c s = Some (r, m', c')"
    "case r of None \<Rightarrow> rev (slots q 24 8) = [] \<and> (\<exists>N'. slab_inv demo_state m' c' s 24 8 [(p, q)] (rev (slots q 24 8)) N' {})
       | Some b \<Rightarrow> \<exists>ps' fs' N'. slab_inv demo_state m' c' s 24 8 ps' fs' N' {} \<and> b \<in> all_slots 24 8 ps'
           \<and> b \<notin> {} \<and> slab_used 24 8 ps' fs' = insert b {}
           \<and> (rev (slots q 24 8) \<noteq> [] \<longrightarrow> rev (slots q 24 8) = b # fs' \<and> ps' = [(p, q)] \<and> c' = c)"
    using slab_allocate_correct [OF std.bc_core_axioms sl(2)] unfolding sl(3) by blast
  then obtain b ps' fs' N' where "r = Some b" "slab_inv demo_state m' c' s 24 8 ps' fs' N' {}" "slab_used 24 8 ps' fs' = {b}" "c' = c"
    using demo_slab_nonempty by (cases r) auto
  then show ?thesis using sl(1) al(1) by blast
qed

text \<open>The demo slab after one allocation.\<close>

lemma sl_allocated:
  obtains s m c b ps fs N where "slab_inv demo_state m c s 24 8 ps fs N {}" "slab_used 24 8 ps fs = {b}"
proof -
  obtain s m c p q N where sl: "slab_inv demo_state m c s 24 8 [(p, q)] (rev (slots q 24 8)) N {}"
    "slab_used 24 8 [(p, q)] (rev (slots q 24 8)) = {}" by (rule sl_created)
  obtain r m' c' where
    "case r of None \<Rightarrow> rev (slots q 24 8) = [] \<and> (\<exists>N'. slab_inv demo_state m' c' s 24 8 [(p, q)] (rev (slots q 24 8)) N' {})
       | Some b \<Rightarrow> \<exists>ps' fs' N'. slab_inv demo_state m' c' s 24 8 ps' fs' N' {} \<and> b \<in> all_slots 24 8 ps'
           \<and> b \<notin> {} \<and> slab_used 24 8 ps' fs' = insert b {}
           \<and> (rev (slots q 24 8) \<noteq> [] \<longrightarrow> rev (slots q 24 8) = b # fs' \<and> ps' = [(p, q)] \<and> c' = c)"
    using std.slab_allocate_ok [OF sl(1)] unfolding sl(2) by blast
  then show thesis using that demo_slab_nonempty by (cases r) auto
qed

text \<open>C30: The contract. To its client a slab is a finite map from the objects in use to their bytes. From any state
  satisfying the invariant every allowed call (allocate; free or write a held object) returns, keeps the invariant and
  everything else alive in the pool, and acts on that map as the specification says: allocation adds an object not in the
  map, freeing removes exactly the freed one, and a write changes the one byte. So two objects never overlap and no operation
  of the slab changes the contents of an object in use.\<close>

theorem slab_refines_map:
  assumes "bc_core E" "slab_inv g m c s osz ops ps fs N R"
    "slab_allowed (unat osz) (slab_view m osz (slab_used osz ops ps fs)) call"
  shows "\<exists>r m' c' ps' fs' N'. slab_call_run E m c s call = Some (r, m', c') \<and> slab_inv g m' c' s osz ops ps' fs' N' R
    \<and> kept_objects m m' R
    \<and> slab_spec (unat osz) (slab_view m osz (slab_used osz ops ps fs)) call r
         (slab_view m' osz (slab_used osz ops ps' fs'))"
  by (rule bc_core.slab_call_ok [OF assms])

theorem slab_refines_map_witness:
  "\<exists>m c s b ps fs N m' ps' fs'. slab_used 24 8 ps fs = {b} \<and> slab_inv demo_state m c s 24 8 ps fs N {} \<and>
     slab_call_run std_env m c s (Slab_write b 5 255) = Some (None, m', c) \<and>
     slab_view m' 24 (slab_used 24 8 ps' fs') = (slab_view m 24 {b})(b \<mapsto> (the (slab_view m 24 {b} b))[5 := 255])"
proof -
  obtain s m c b ps fs N where a: "slab_inv demo_state m c s 24 8 ps fs N {}" "slab_used 24 8 ps fs = {b}" by (rule sl_allocated)
  have "slab_allowed (unat (24 :: u64)) (slab_view m 24 (slab_used 24 8 ps fs)) (Slab_write b 5 255)" using a(2) by simp
  from slab_refines_map [OF std.bc_core_axioms a(1) this] obtain r m' c' ps' fs' where
    r: "slab_call_run std_env m c s (Slab_write b 5 255) = Some (r, m', c')"
    "slab_spec (unat (24 :: u64)) (slab_view m 24 (slab_used 24 8 ps fs)) (Slab_write b 5 255) r
       (slab_view m' 24 (slab_used 24 8 ps' fs'))" by blast
  have "slab_call_run std_env m c s (Slab_write b 5 255) = Some (None, m', c)" using r(1) by simp
  moreover have "slab_view m' 24 (slab_used 24 8 ps' fs') = (slab_view m 24 {b})(b \<mapsto> (the (slab_view m 24 {b} b))[5 := 255])"
    using r(2) unfolding a(2) by simp
  ultimately show ?thesis using a by blast
qed

text \<open>C31: Destruction. The page loop ends, and everything the slab had from the pool (the struct, the page structs, the
  arrays) is given back: the objects of the pool are again those beside the slab, with their bytes.\<close>

theorem slab_destroy_correct:
  assumes "slab_inv g m c s osz ops ps fs N R"
  shows "\<exists>m' c'. bc_allocators_slab_destroy m c s = Some (m', c') \<and> pool_since g m' c' R \<and> kept_objects m m' R"
  by (rule slab_destroy_ok [OF assms])

theorem slab_destroy_correct_witness:
  "\<exists>m c s m' c'. sl_run = Some (Some s, m, c) \<and>
     bc_allocators_slab_destroy m c s = Some (m', c') \<and> pool_since demo_state m' c' {}"
proof -
  obtain s m c p q N where sl: "sl_run = Some (Some s, m, c)" "slab_inv demo_state m c s 24 8 [(p, q)] (rev (slots q 24 8)) N {}"
    by (rule sl_created)
  from slab_destroy_correct [OF sl(2)] show ?thesis using sl(1) by blast
qed

text \<open>C32: Statistics. They are the configuration of the slab, its number of pages, the number of its slots, of those in
  use and of those on the free list.\<close>

theorem slab_get_stats_correct:
  assumes "slab_inv g m c s osz ops ps fs N R"
  shows "bc_allocators_slab_get_stats m s =
    (True, \<lparr>ss_object_size = osz, ss_objects_per_slab = ops, ss_slab_count = of_nat (length ps),
       ss_total_objects = of_nat (card (all_slots osz ops ps)),
       ss_used_objects = of_nat (card (slab_used osz ops ps fs)), ss_free_objects = of_nat (length fs)\<rparr>)"
  by (rule slab_stats_ok [OF assms])

theorem slab_get_stats_correct_witness:
  "\<exists>m s. ss_used_objects (snd (bc_allocators_slab_get_stats m s)) = 1 \<and> ss_object_size (snd (bc_allocators_slab_get_stats m s)) = 24"
proof -
  obtain s m c b ps fs N where a: "slab_inv demo_state m c s 24 8 ps fs N {}" "slab_used 24 8 ps fs = {b}" by (rule sl_allocated)
  from slab_get_stats_correct [OF a(1)] have "ss_used_objects (snd (bc_allocators_slab_get_stats m s)) = 1"
    "ss_object_size (snd (bc_allocators_slab_get_stats m s)) = 24" unfolding a(2) by simp_all
  then show ?thesis by blast
qed

text \<open>C33: Alignment. A client that creates a slab (objects below \<open>2 ^ k\<close> bytes, two or more to a page, a page of at most
  \<open>2 ^ 63\<close> bytes) and allocates a page full of objects gets that many distinct pointers, each \<open>object_size\<close> bytes before
  the last one; so not all of them are aligned to \<open>2 ^ k\<close>. With an object size that is no power of two and \<open>2 ^ k\<close> the next power of
  two, that is what the header promises of every pointer.\<close>

theorem slab_alignment_broken:
  assumes "bc_core E" "pool_since g m c R" "unat ops * unat osz \<le> 9223372036854775808"
    "bc_allocators_slab_create E m c osz ops = Some (Some s, m1, c1)" "2 \<le> unat ops" "unat osz < 2 ^ k"
  shows "\<exists>xs m2. allocate_slots E (unat ops) m1 c1 s = Some (xs, m2, c1) \<and> length xs = unat ops \<and> distinct xs \<and>
    (\<forall>i. Suc i < unat ops \<longrightarrow> unat (xs ! i) = unat (xs ! Suc i) + unat osz) \<and> (\<exists>x \<in> set xs. \<not> 2 ^ k dvd unat x)"
proof -
  have "osz \<ge> 8" using slab_create_correct [OF assms(1-3)] assms(4) by (auto simp: not_less)
  then have pos: "0 < unat osz" by (auto simp: word_le_nat_alt)
  obtain p q N where inv: "slab_inv g m1 c1 s osz ops [(p, q)] (rev (slots q osz ops)) N R"
    using slab_create_correct [OF assms(1-3)] assms(4) by auto
  note d = slab_invD [OF inv]
  have bd: "unat q + unat ops * unat osz \<le> 140737488355328"
    by (rule slab_pieces_bounds(2) [OF d(2,3), of q]) (simp add: slab_pieces_def)
  have len: "length (slots q osz ops) = unat ops" by (simp add: slots_def)
  have "distinct (rev (slots q osz ops))" using slab_repD(3) [OF d(1)] by simp
  moreover obtain m2 where "allocate_slots E (unat ops) m1 c1 s = Some (rev (slots q osz ops), m2, c1)"
    using bc_core.allocate_slots_free [OF assms(1) inv, of "unat ops"] len by auto
  moreover have step: "unat (rev (slots q osz ops) ! i) = unat (rev (slots q osz ops) ! Suc i) + unat osz"
    if "Suc i < unat ops" for i
  proof -
    have "unat ops - 1 - i = Suc (unat ops - 1 - Suc i)" using that by simp
    then show ?thesis using rev_slots_nth [OF bd, of i] rev_slots_nth [OF bd that] that by simp
  qed
  moreover have "\<exists>x \<in> set (rev (slots q osz ops)). \<not> 2 ^ k dvd unat x"
  proof -
    have i: "Suc 0 < length (rev (slots q osz ops))" using assms(5) len by simp
    then have mem: "rev (slots q osz ops) ! 0 \<in> set (rev (slots q osz ops))" "rev (slots q osz ops) ! Suc 0 \<in> set (rev (slots q osz ops))"
      by (auto intro!: nth_mem simp del: set_rev)
    have "\<not> (2 ^ k dvd unat (rev (slots q osz ops) ! Suc 0) \<and> 2 ^ k dvd unat (rev (slots q osz ops) ! 0))"
      using neighbours_unaligned [OF pos assms(6)] step [of 0] assms(5) by simp
    then show ?thesis using mem by blast
  qed
  ultimately show ?thesis using len by (metis length_rev)
qed

theorem slab_alignment_broken_witness:
  "\<exists>s m c xs m'. sl_run = Some (Some s, m, c) \<and> allocate_slots std_env 8 m c s = Some (xs, m', c) \<and>
     length xs = 8 \<and> (\<exists>x \<in> set xs. \<not> 32 dvd unat x)"
proof -
  obtain s m c where sl: "sl_run = Some (Some s, m, c)" by (rule sl_created)
  then have cr: "bc_allocators_slab_create std_env (mc_mem demo_machine) demo_ctx 24 8 = Some (Some s, m, c)"
    by (simp add: sl_run_def)
  from slab_alignment_broken [OF std.bc_core_axioms demo_objects _ cr, of 5] obtain xs m' where
    "allocate_slots std_env 8 m c s = Some (xs, m', c)" "length xs = 8" "\<exists>x \<in> set xs. \<not> 32 dvd unat x" by auto
  then show ?thesis using sl by blast
qed

text \<open>C34: Reuse. An allocation right after freeing an object succeeds, returns that object, asks the pool for nothing, and
  restores the set of objects in use.\<close>

theorem slab_free_allocate_reuse:
  assumes "slab_inv g m c s osz ops ps fs N R" "p \<in> slab_used osz ops ps fs"
  shows "\<exists>m'. bc_allocators_slab_allocate E (bc_allocators_slab_free m s p) c s = Some (Some p, m', c) \<and>
    slab_inv g m' c s osz ops ps fs N R"
proof -
  define m1 where "m1 = bc_allocators_slab_free m s p"
  note f = slab_free_ok [OF assms, folded m1_def]
  obtain b m' where tk: "slab_take m1 s = (b, m')" by fastforce
  have nn: "slab_free_list_head m1 s \<noteq> NULL"
    using slab_repD(2) [OF slab_invD(1) [OF f(1)]] f(5) by (auto simp: intrusive_rep_def node_def)
  have "b = p \<and> slab_inv g m' c s osz ops ps fs N R" using slab_take_ok [OF f(1) nn tk] by auto
  then show ?thesis using tk nn by (simp add: bc_allocators_slab_allocate_def flip: m1_def)
qed

theorem slab_free_allocate_reuse_witness:
  "\<exists>m c s b m'. bc_allocators_slab_allocate std_env (bc_allocators_slab_free m s b) c s = Some (Some b, m', c)"
proof -
  obtain s m c b ps fs N where a: "slab_inv demo_state m c s 24 8 ps fs N {}" "slab_used 24 8 ps fs = {b}" by (rule sl_allocated)
  then have "b \<in> slab_used 24 8 ps fs" by simp
  from slab_free_allocate_reuse [OF a(1) this] show ?thesis by blast
qed

end
