(* ===== verification/BC_Clients.thy ===== *)
theory BC_Clients
  imports BC_Pool_Since
begin

text \<open>
  Several users of one pool. The locale \<open>pool_clients\<close> is their contract: a client owns some of the pool's objects, its
  representation depends on their bytes only, a step may change what it owns and keeps every byte of what it does not own,
  and what it hands out lies inside what it owns. A list of clients then holds the pool together, whatever they are.
\<close>

section \<open>Objects inside objects\<close>

text \<open>\<^verbatim>\<open>n\<close> bytes at \<^verbatim>\<open>p\<close>, inside one of the objects \<open>S\<close>.\<close>

definition in_object :: "u64 \<Rightarrow> nat \<Rightarrow> objects \<Rightarrow> bool" where
  "in_object p n S \<longleftrightarrow> (\<exists>(q, k) \<in> S. area p n \<subseteq> area q k \<and> unat p + n \<le> unat q + k)"

lemma in_object_subset: "in_object p n S \<Longrightarrow> S \<subseteq> T \<Longrightarrow> in_object p n T"
  unfolding in_object_def by blast

lemma in_object_self: "(p, n) \<in> S \<Longrightarrow> in_object p n S"
  unfolding in_object_def by blast

text \<open>Inside an object that is inside another.\<close>

lemma in_object_trans:
  assumes "in_object p n S" "\<And>q k. (q, k) \<in> S \<Longrightarrow> in_object q k T"
  shows "in_object p n T"
proof -
  obtain q k where q: "(q, k) \<in> S" "area p n \<subseteq> area q k" "unat p + n \<le> unat q + k"
    using assms(1) by (auto simp: in_object_def)
  from assms(2) [OF q(1)] obtain r j where "(r, j) \<in> T" "area q k \<subseteq> area r j" "unat q + k \<le> unat r + j"
    by (auto simp: in_object_def)
  then show ?thesis using q(2,3) unfolding in_object_def by (auto simp del: in_area intro!: bexI [of _ "(r, j)"])
qed

lemma in_object_agree: "in_object p n S \<Longrightarrow> kept_objects m m' S \<Longrightarrow> agree m m' (area p n)"
  unfolding in_object_def kept_objects_def by (auto simp del: in_area intro: agree_subset)

lemma in_object_limit: "in_object p n S \<Longrightarrow> pool_since g m c S \<Longrightarrow> unat p + n \<le> 140737488355328"
  using since_bounds unfolding in_object_def by fastforce

text \<open>What lies in two sets of objects without a common object shares no byte.\<close>

lemma in_object_disjoint:
  assumes "in_object p n S" "in_object q k T" "pool_since g m c U" "S \<union> T \<subseteq> U" "S \<inter> T = {}"
  shows "area p n \<inter> area q k = {}"
proof -
  obtain p' n' where p: "(p', n') \<in> S" "area p n \<subseteq> area p' n'" using assms(1) by (auto simp: in_object_def)
  obtain q' k' where q: "(q', k') \<in> T" "area q k \<subseteq> area q' k'" using assms(2) by (auto simp: in_object_def)
  have "apart p' n' q' k'" using since_apart [OF assms(3), of p' n' q' k'] p(1) q(1) assms(4,5) by blast
  then show ?thesis using apart_disjoint p(2) q(2) by blast
qed

lemma in_object_pool:
  assumes "in_object p n S" "pool_objects m c S"
  shows "area p n \<subseteq> pool_area c"
proof -
  obtain q k where q: "(q, k) \<in> S" "area p n \<subseteq> area q k" using assms(1) by (auto simp: in_object_def)
  then show ?thesis using pool_objects_elsewhere(3) [OF assms(2) agree_refl refl refl q(1)] by blast
qed

section \<open>A list of clients\<close>

definition owned :: "('a \<times> objects) list \<Rightarrow> objects" where
  "owned Bs = \<Union> (snd ` set Bs)"

lemma owned_simps [simp]: "owned [] = {}" "owned (b # Bs) = snd b \<union> owned Bs" "owned (Bs @ Bs') = owned Bs \<union> owned Bs'"
  by (auto simp: owned_def)

text \<open>The pool holds exactly what the clients own, they own it separately, and the representation \<open>rep\<close> of each is in place.\<close>

definition clients_hold ::
  "(mem \<Rightarrow> 'a \<Rightarrow> objects \<Rightarrow> bool) \<Rightarrow> mem \<times> bc_context \<Rightarrow> mem \<Rightarrow> bc_context \<Rightarrow> ('a \<times> objects) list \<Rightarrow> bool" where
  "clients_hold rep g m c Bs \<longleftrightarrow>
     pool_since g m c (owned Bs) \<and> (\<forall>(x, S) \<in> set Bs. rep m x S) \<and>
     sorted_wrt (\<lambda>b b'. snd b \<inter> snd b' = {}) Bs"

lemma clients_hold_Nil [simp]: "clients_hold rep g m c [] = pool_since g m c {}"
  by (simp add: clients_hold_def)

lemma clients_hold_middle:
  "clients_hold rep g m c (xs @ (x, S) # ys) \<longleftrightarrow>
     pool_since g m c (S \<union> owned (xs @ ys)) \<and> rep m x S \<and> S \<inter> owned (xs @ ys) = {} \<and>
     (\<forall>(y, T) \<in> set (xs @ ys). rep m y T) \<and> sorted_wrt (\<lambda>b b'. snd b \<inter> snd b' = {}) (xs @ ys)"
proof -
  have o: "owned (xs @ (x, S) # ys) = S \<union> owned (xs @ ys)" by auto
  have d: "S \<inter> owned zs = {} \<longleftrightarrow> (\<forall>b \<in> set zs. S \<inter> snd b = {})" "S \<inter> T = T \<inter> S" for zs :: "('a \<times> objects) list" and T
    by (auto simp: owned_def)
  have "sorted_wrt (\<lambda>b b'. snd b \<inter> snd b' = {}) (xs @ (x, S) # ys) \<longleftrightarrow>
      sorted_wrt (\<lambda>b b'. snd b \<inter> snd b' = {}) (xs @ ys) \<and> S \<inter> owned (xs @ ys) = {}"
    unfolding d(1) sorted_wrt_append set_append by (simp add: ball_Un ball_conj_distrib d(2)) blast
  then show ?thesis unfolding clients_hold_def o by (simp add: ball_Un) blast
qed


lemma clients_hold_now:
  "clients_hold rep g m c Bs \<Longrightarrow> clients_hold rep (m, c) m c Bs"
  by (auto simp: clients_hold_def dest: pool_since_objects)

section \<open>The contract of a client\<close>

locale pool_clients =
  fixes rep :: "mem \<Rightarrow> 'a \<Rightarrow> objects \<Rightarrow> bool"
    and step :: "objects \<Rightarrow> mem \<times> bc_context \<times> 'a \<Rightarrow> mem \<times> bc_context \<times> 'a \<Rightarrow> bool"
    and hands_out :: "'a \<Rightarrow> objects"
  assumes rep_keeps: "rep m x S \<Longrightarrow> pool_since g m c (S \<union> R) \<Longrightarrow> S \<inter> R = {} \<Longrightarrow>
      (\<And>p n. (p, n) \<in> Q \<Longrightarrow> in_object p n R) \<Longrightarrow> step Q (m, c, x) (m', c', x') \<Longrightarrow>
      \<exists>S'. rep m' x' S' \<and> pool_since g m' c' (S' \<union> R) \<and> S' \<inter> R = {} \<and> kept_objects m m' R"
    and rep_frame: "rep m x S \<Longrightarrow> pool_since g m c (S \<union> R) \<Longrightarrow> kept_objects m m' S \<Longrightarrow> rep m' x S"
    and rep_hands_out: "rep m x S \<Longrightarrow> pool_since g m c (S \<union> R) \<Longrightarrow> (p, n) \<in> hands_out x \<Longrightarrow>
      in_object p n S \<and> p \<noteq> NULL"
    and rep_apart: "rep m x S \<Longrightarrow> pool_since g m c (S \<union> R) \<Longrightarrow> (p, n) \<in> hands_out x \<Longrightarrow> (q, k) \<in> hands_out x \<Longrightarrow>
      (p, n) \<noteq> (q, k) \<Longrightarrow> area p n \<inter> area q k = {}"
begin

lemma rep_others:
  assumes "\<forall>(y, T) \<in> set Bs. rep m y T" "pool_since g m c (owned Bs \<union> R)" "kept_objects m m' (owned Bs)"
  shows "\<forall>(y, T) \<in> set Bs. rep m' y T"
proof clarify
  fix y T assume y: "(y, T) \<in> set Bs"
  then have sub: "T \<subseteq> owned Bs" by (force simp: owned_def)
  then have "T \<union> (owned Bs \<union> R) = owned Bs \<union> R" by blast
  then have "pool_since g m c (T \<union> (owned Bs \<union> R))" using assms(2) by simp
  from rep_frame [OF _ this kept_objects_subset [OF assms(3) sub]] show "rep m' y T" using assms(1) y by blast
qed

lemma hands_out_owned:
  assumes h: "clients_hold rep g m c Bs" and x: "x \<in> fst ` set Bs" and p: "(p, n) \<in> hands_out x"
  shows "in_object p n (owned Bs)" "p \<noteq> NULL"
proof -
  obtain S where xS: "(x, S) \<in> set Bs" using x by auto
  then obtain xs ys where e: "Bs = xs @ (x, S) # ys" by (meson split_list)
  note d = h [unfolded e clients_hold_middle]
  have o: "in_object p n S" "p \<noteq> NULL" using rep_hands_out p d by blast+
  show "in_object p n (owned Bs)" by (rule in_object_subset [OF o(1)]) (auto simp: e)
  show "p \<noteq> NULL" by (rule o(2))
qed

text \<open>What the others hand out lies in what the others own.\<close>

lemma others_hand_out:
  assumes h: "clients_hold rep g m c (xs @ (x, S) # ys)" and p: "(p, n) \<in> \<Union> (hands_out ` fst ` set (xs @ ys))"
  shows "in_object p n (owned (xs @ ys))"
proof -
  note d = h [unfolded clients_hold_middle]
  obtain y T where y: "(y, T) \<in> set (xs @ ys)" "(p, n) \<in> hands_out y" using p by fastforce
  have sub: "T \<subseteq> owned (xs @ ys)" using y(1) by (force simp: owned_def)
  then have "S \<union> owned (xs @ ys) = T \<union> (owned (xs @ ys) \<union> S)" by blast
  then have "pool_since g m c (T \<union> (owned (xs @ ys) \<union> S))" using d by simp
  moreover have "rep m y T" using d y(1) by blast
  ultimately have "in_object p n T" using rep_hands_out y(2) by blast
  then show ?thesis using sub by (rule in_object_subset)
qed

text \<open>A step of one client, reading at most what the others hand out.\<close>

lemma clients_step:
  assumes h: "clients_hold rep g m c (xs @ (x, S) # ys)"
    and st: "step Q (m, c, x) (m', c', x')" and Q: "Q \<subseteq> \<Union> (hands_out ` fst ` set (xs @ ys))"
  obtains S' where "clients_hold rep g m' c' (xs @ (x', S') # ys)" "kept_objects m m' (owned (xs @ ys))"
proof -
  note d = h [unfolded clients_hold_middle]
  have oth: "pool_since g m c (owned (xs @ ys) \<union> S)" using d by (simp add: Un_commute)
  have "in_object p n (owned (xs @ ys))" if "(p, n) \<in> Q" for p n by (rule others_hand_out [OF h subsetD [OF Q that]])
  then obtain S' where s: "rep m' x' S'" "pool_since g m' c' (S' \<union> owned (xs @ ys))" "S' \<inter> owned (xs @ ys) = {}"
    "kept_objects m m' (owned (xs @ ys))"
    using rep_keeps [OF _ _ _ _ st] d by blast
  have "\<forall>(y, T) \<in> set (xs @ ys). rep m' y T" by (rule rep_others [OF _ oth s(4)]) (use d in blast)
  then have "clients_hold rep g m' c' (xs @ (x', S') # ys)" using s d by (simp add: clients_hold_middle)
  then show thesis using that s(4) by blast
qed

text \<open>A client that comes, and one that goes.\<close>

lemma clients_add:
  assumes h: "clients_hold rep g m c Bs" and k: "kept_objects m m' (owned Bs)"
    and new: "pool_since g m' c' (S \<union> owned Bs)" "rep m' x S" "S \<inter> owned Bs = {}"
  shows "clients_hold rep g m' c' ((x, S) # Bs)"
proof -
  have "pool_since g m c (owned Bs \<union> {})" "\<forall>(y, T) \<in> set Bs. rep m y T" using h by (simp_all add: clients_hold_def)
  then have "\<forall>(y, T) \<in> set Bs. rep m' y T" using rep_others k by blast
  then show ?thesis using clients_hold_middle [of rep g m' c' "[]" x S Bs] new h by (simp add: clients_hold_def)
qed

lemma clients_same:
  assumes h: "clients_hold rep g m c Bs" and k: "kept_objects m m' (owned Bs)" and new: "pool_since g' m' c' (owned Bs)"
  shows "clients_hold rep g' m' c' Bs"
proof -
  have "pool_since g m c (owned Bs \<union> {})" "\<forall>(y, T) \<in> set Bs. rep m y T" using h by (simp_all add: clients_hold_def)
  then have "\<forall>(y, T) \<in> set Bs. rep m' y T" using rep_others k by blast
  then show ?thesis using h new by (simp add: clients_hold_def)
qed

lemma clients_remove:
  assumes h: "clients_hold rep g m c (xs @ (x, S) # ys)" and k: "kept_objects m m' (owned (xs @ ys))"
    and new: "pool_since g m' c' (owned (xs @ ys))"
  shows "clients_hold rep g m' c' (xs @ ys)"
proof -
  note d = h [unfolded clients_hold_middle]
  have "pool_since g m c (owned (xs @ ys) \<union> S)" using d by (simp add: Un_commute)
  then have "\<forall>(y, T) \<in> set (xs @ ys). rep m' y T" using rep_others k d by blast
  then show ?thesis using d new by (simp add: clients_hold_def)
qed

text \<open>All that the clients hand out is apart, whoever handed it out.\<close>

lemma clients_apart:
  assumes h: "clients_hold rep g m c Bs" and ij: "i < length Bs" "j < length Bs"
    and p: "(p, n) \<in> hands_out (fst (Bs ! i))" and q: "(q, k) \<in> hands_out (fst (Bs ! j))" and ne: "(i, p, n) \<noteq> (j, q, k)"
  shows "area p n \<inter> area q k = {}"
proof -
  have D: "pool_since g m c (snd (Bs ! l) \<union> owned Bs)" "rep m (fst (Bs ! l)) (snd (Bs ! l))" if "l < length Bs" for l
  proof -
    have mem: "Bs ! l \<in> set Bs" using that by simp
    then have "snd (Bs ! l) \<union> owned Bs = owned Bs" by (auto simp: owned_def)
    then show "pool_since g m c (snd (Bs ! l) \<union> owned Bs)" using h by (simp add: clients_hold_def)
    show "rep m (fst (Bs ! l)) (snd (Bs ! l))" using h mem by (auto simp: clients_hold_def)
  qed
  show ?thesis
  proof (cases "i = j")
    case True
    then show ?thesis using rep_apart [OF D(2,1) [OF ij(1)] p, of q k] q ne by simp
  next
    case False
    have dis: "snd (Bs ! a) \<inter> snd (Bs ! b) = {}" if "a < b" "b < length Bs" for a b
      using h that by (simp add: clients_hold_def sorted_wrt_iff_nth_less)
    have "snd (Bs ! i) \<inter> snd (Bs ! j) = {}" using dis [of i j] dis [of j i] ij False by (cases "i < j") auto
    moreover have "in_object p n (snd (Bs ! i))" "in_object q k (snd (Bs ! j))"
      using rep_hands_out D ij p q by blast+
    moreover have "pool_since g m c (owned Bs)" using h by (simp add: clients_hold_def)
    moreover have "snd (Bs ! i) \<union> snd (Bs ! j) \<subseteq> owned Bs" using ij by (force simp: owned_def)
    ultimately show ?thesis by (intro in_object_disjoint)
  qed
qed

end

end
