(* ===== verification/BC_Typed_Array.thy ===== *)
theory BC_Typed_Array
  imports BC_Slab_Spec BC_Clients
begin

text \<open>
  \<^verbatim>\<open>bc_allocators_typed_array.h\<close>: the functions that \<^verbatim>\<open>BC_TYPED_ARRAY_DEFINE(element_type, prefix)\<close> generates, here with
  \<open>typed_array\<close> for the prefix. \<^verbatim>\<open>sizeof(element_type)\<close> is the argument \<open>es\<close>, an element is its \<open>es\<close> bytes. The array struct
  is embedded in its owner and passed by reference, so each operation returns it updated.
\<close>

record typed_array =
  ta_data :: u64
  ta_length :: u64
  ta_capacity :: u64

definition zero_array :: typed_array where
  "zero_array = \<lparr>ta_data = NULL, ta_length = 0, ta_capacity = 0\<rparr>"

definition typed_array_length :: "typed_array \<Rightarrow> u64" where
  "typed_array_length arr = ta_length arr"

definition typed_array_capacity :: "typed_array \<Rightarrow> u64" where
  "typed_array_capacity arr = ta_capacity arr"

definition typed_array_data :: "typed_array \<Rightarrow> u64" where
  "typed_array_data arr = ta_data arr"

definition typed_array_clear :: "typed_array \<Rightarrow> typed_array" where
  "typed_array_clear arr = arr\<lparr>ta_length := 0\<rparr>"

definition typed_array_destroy :: "mem \<Rightarrow> bc_context \<Rightarrow> typed_array \<Rightarrow> mem \<times> bc_context \<times> typed_array" where
  "typed_array_destroy m c arr =
     (case bc_allocators_pool_free m c (ta_data arr) of (m1, c1) \<Rightarrow>
        (m1, c1, arr\<lparr>ta_data := NULL, ta_length := 0, ta_capacity := 0\<rparr>))"

definition typed_array_reserve ::
  "env \<Rightarrow> u64 \<Rightarrow> mem \<Rightarrow> bc_context \<Rightarrow> typed_array \<Rightarrow> u64 \<Rightarrow> bool \<times> mem \<times> bc_context \<times> typed_array" where
  "typed_array_reserve E es m c arr new_cap =
     (if new_cap \<le> ta_capacity arr then (True, m, c, arr)
      else
        case core_safe_multiply E new_cap es of
          None \<Rightarrow> (False, m, c, arr)
        | Some new_size \<Rightarrow>
            (case (if ta_data arr = NULL then bc_allocators_pool_allocate E m c new_size
                   else bc_allocators_pool_reallocate E m c (ta_data arr) new_size) of
               (None, m1, c1) \<Rightarrow> (False, m1, c1, arr)
             | (Some new_data, m1, c1) \<Rightarrow> (True, m1, c1, arr\<lparr>ta_data := new_data, ta_capacity := new_cap\<rparr>)))"

text \<open>The struct assignment \<^verbatim>\<open>arr->data[arr->length++] = value\<close>.\<close>

definition store_bytes :: "mem \<Rightarrow> u64 \<Rightarrow> u8 list \<Rightarrow> mem" where
  "store_bytes m p bs = (\<lambda>a. if unat (a - p) < length bs then bs ! unat (a - p) else m a)"

definition typed_array_put :: "u64 \<Rightarrow> mem \<Rightarrow> typed_array \<Rightarrow> u8 list \<Rightarrow> mem \<times> typed_array" where
  "typed_array_put es m arr value =
     (store_bytes m (ta_data arr + ta_length arr * es) value, arr\<lparr>ta_length := ta_length arr + 1\<rparr>)"

definition typed_array_push ::
  "env \<Rightarrow> u64 \<Rightarrow> mem \<Rightarrow> bc_context \<Rightarrow> typed_array \<Rightarrow> u8 list \<Rightarrow> bool \<times> mem \<times> bc_context \<times> typed_array" where
  "typed_array_push E es m c arr value =
     (if ta_length arr < ta_capacity arr then
        (case typed_array_put es m arr value of (m1, arr1) \<Rightarrow> (True, m1, c, arr1))
      else
        let new_cap = (if ta_capacity arr = 0 then 8 else ta_capacity arr * 2)
        in case typed_array_reserve E es m c arr new_cap of
             (False, m1, c1, arr1) \<Rightarrow> (False, m1, c1, arr1)
           | (True, m1, c1, arr1) \<Rightarrow>
               (case typed_array_put es m1 arr1 value of (m2, arr2) \<Rightarrow> (True, m2, c1, arr2)))"

text \<open>The doubling loop of the bulk append: it may run forever, which is \<^const>\<open>None\<close>.\<close>

partial_function (option) grow_capacity :: "u64 \<Rightarrow> u64 \<Rightarrow> u64 option" where
  "grow_capacity new_cap required =
     (if new_cap < required then grow_capacity (new_cap * 2) required else Some new_cap)"

definition typed_array_append_bulk ::
  "env \<Rightarrow> u64 \<Rightarrow> mem \<Rightarrow> bc_context \<Rightarrow> typed_array \<Rightarrow> u64 \<Rightarrow> u64 \<Rightarrow> (bool \<times> mem \<times> bc_context \<times> typed_array) option" where
  "typed_array_append_bulk E es m c arr src num =
     (if num = 0 then Some (True, m, c, arr)
      else
        let required = ta_length arr + num
        in if required < ta_length arr then Some (False, m, c, arr)
           else
             case (if required > ta_capacity arr then
                     (case grow_capacity (if ta_capacity arr = 0 then 8 else ta_capacity arr) required of
                        None \<Rightarrow> None
                      | Some new_cap \<Rightarrow> Some (typed_array_reserve E es m c arr new_cap))
                   else Some (True, m, c, arr)) of
               None \<Rightarrow> None
             | Some (False, m1, c1, arr1) \<Rightarrow> Some (False, m1, c1, arr1)
             | Some (True, m1, c1, arr1) \<Rightarrow>
                 Some (True, core_memcpy E m1 (ta_data arr1 + ta_length arr1 * es) src (num * es), c1,
                   arr1\<lparr>ta_length := required\<rparr>))"

section \<open>The doubling loop\<close>

lemma grow_capacity_ok:
  assumes "0 < unat n" "unat required \<le> 9223372036854775808"
  shows "\<exists>k. grow_capacity n required = Some k \<and> unat required \<le> unat k \<and> unat n \<le> unat k
    \<and> (k = n \<or> unat k < 2 * unat required)"
  using assms(1)
proof (induction "unat required - unat n" arbitrary: n rule: less_induct)
  case less
  show ?case
  proof (cases "n < required")
    case False
    then show ?thesis by (subst grow_capacity.simps) (auto simp: word_less_nat_alt)
  next
    case True
    then have lt: "unat n < unat required" by (simp add: word_less_nat_alt)
    then have u: "unat (n * 2) = unat n * 2" using assms(2) by (simp add: no_wrap)
    have "unat required - unat (n * 2) < unat required - unat n" "0 < unat (n * 2)" using u lt less.prems by linarith+
    from less.hyps [OF this] obtain k where k: "grow_capacity (n * 2) required = Some k" "unat required \<le> unat k"
      "unat (n * 2) \<le> unat k" "k = n * 2 \<or> unat k < 2 * unat required" by blast
    then show ?thesis using True u lt by (subst grow_capacity.simps) auto
  qed
qed

text \<open>From a power of two it never reaches a bound above \<open>2 ^ 63\<close>: the doubling wraps to zero first.\<close>

lemma power2_word_le: "unat ((2 :: u64) ^ k) \<le> 9223372036854775808"
proof (cases "k < 64")
  case True
  then have le: "(2 :: nat) ^ k \<le> 2 ^ 63" by (intro power_increasing) auto
  then have "unat (of_nat (2 ^ k) :: u64) = 2 ^ k" by (intro unat_of_nat_no_wrap) simp
  then show ?thesis using le by simp
next
  case False
  then have z: "(2 :: u64) ^ k = 0" by (simp add: exp_eq_zero_iff)
  show ?thesis unfolding z by simp
qed

lemma grow_capacity_diverges:
  assumes "9223372036854775808 < unat required"
  shows "grow_capacity (2 ^ k) required = None"
proof -
  have "9223372036854775808 < unat r \<longrightarrow> (\<forall>k. n \<noteq> 2 ^ k)" if "grow_capacity n r = Some y" for n r y
  proof (rule grow_capacity.raw_induct [where P = "\<lambda>n r y. 9223372036854775808 < unat r \<longrightarrow> (\<forall>k. n \<noteq> 2 ^ k)", OF _ that])
    fix f :: "u64 \<Rightarrow> u64 \<Rightarrow> u64 option" and n r y :: u64
    assume ih: "\<And>n r y. f n r = Some y \<Longrightarrow> 9223372036854775808 < unat r \<longrightarrow> (\<forall>k. n \<noteq> 2 ^ k)"
      and run: "(if n < r then f (n * 2) r else Some n) = Some y"
    show "9223372036854775808 < unat r \<longrightarrow> (\<forall>k. n \<noteq> 2 ^ k)"
    proof (intro impI allI notI)
      fix k assume r: "9223372036854775808 < unat r" and k: "n = 2 ^ k"
      have "unat n < unat r" unfolding k by (rule le_less_trans [OF power2_word_le r])
      then have "n < r" by (simp add: word_less_nat_alt)
      then have "f (n * 2) r = Some y" using run by simp
      moreover have "n * 2 = 2 ^ Suc k" using k by simp
      ultimately show False using ih r by blast
    qed
  qed
  then show ?thesis using assms by (cases "grow_capacity (2 ^ k) required") blast+
qed

end
