(* ===== verification/BC_Typed_Array_Spec.thy ===== *)
theory BC_Typed_Array_Spec
  imports BC_Typed_Array
begin

text \<open>
  The typed array against the store contract of the pool: it owns at most one object, its buffer, and its elements are a
  list. Each operation is described by its effect on that list.
\<close>

definition ta_inv :: "mem \<times> bc_context \<Rightarrow> mem \<Rightarrow> bc_context \<Rightarrow> u64 \<Rightarrow> typed_array \<Rightarrow> nat \<Rightarrow> objects \<Rightarrow> bool" where
  "ta_inv g m c es A N R \<longleftrightarrow>
     0 < unat es \<and> unat (ta_length A) \<le> unat (ta_capacity A) \<and>
     (if ta_data A = NULL then ta_capacity A = 0 \<and> pool_since g m c R
      else unat (ta_capacity A) * unat es \<le> N \<and> pool_since g m c (insert (ta_data A, N) R) \<and> (ta_data A, N) \<notin> R)"

definition elems_at :: "mem \<Rightarrow> u64 \<Rightarrow> u64 \<Rightarrow> nat \<Rightarrow> u8 list list" where
  "elems_at m es p n = map (\<lambda>i. bytes_at m (p + of_nat i * es) (unat es)) [0 ..< n]"

definition ta_elems :: "mem \<Rightarrow> u64 \<Rightarrow> typed_array \<Rightarrow> u8 list list" where
  "ta_elems m es A = elems_at m es (ta_data A) (unat (ta_length A))"

section \<open>Elements as bytes\<close>

lemma elem_byte: "(p :: u64) + of_nat i * es + of_nat j = p + of_nat (i * unat es + j)"
  by (simp add: algebra_simps)

lemma elem_byte_less: "i < n \<Longrightarrow> j < e \<Longrightarrow> i * e + j < n * (e :: nat)"
proof -
  assume "i < n" "j < e"
  then have "i * e + j < Suc i * e" by simp
  also have "\<dots> \<le> n * e" using \<open>i < n\<close> by (intro mult_le_mono1) simp
  finally show ?thesis .
qed

lemma elems_at_cong:
  assumes "\<And>i. i < n * unat es \<Longrightarrow> m' (q + of_nat i) = m (p + of_nat i)"
  shows "elems_at m' es q n = elems_at m es p n"
  unfolding elems_at_def bytes_at_def elem_byte
  by (intro map_cong refl assms elem_byte_less) simp_all

lemma elems_at_agree:
  assumes "agree m m' (area p k)" "n * unat es \<le> k" "unat p + k \<le> 18446744073709551616"
  shows "elems_at m' es p n = elems_at m es p n"
proof (rule elems_at_cong)
  fix i assume "i < n * unat es"
  then show "m' (p + of_nat i) = m (p + of_nat i)"
    by (intro agreeD [OF assms(1)]) (use assms(2,3) in \<open>simp add: no_wrap\<close>)
qed

lemma elems_at_0 [simp]: "elems_at m es p 0 = []"
  by (simp add: elems_at_def)

lemma elems_at_Suc: "elems_at m es p (Suc n) = elems_at m es p n @ [bytes_at m (p + of_nat n * es) (unat es)]"
  by (simp add: elems_at_def)

lemma elems_at_add:
  "elems_at m es p (n + k) = elems_at m es p n @ elems_at m es (p + of_nat n * es) k"
  by (induction k) (simp_all add: elems_at_Suc algebra_simps)

lemma length_elems_at [simp]: "length (elems_at m es p n) = n"
  by (simp add: elems_at_def)

lemma store_bytes_outside:
  assumes "unat p + length bs \<le> 18446744073709551616"
  shows "agree m (store_bytes m p bs) (- area p (length bs))"
  unfolding agree_def store_bytes_def using in_area_offset [of p "length bs"] assms by auto

lemma store_bytes_same:
  assumes "unat p + length bs \<le> 18446744073709551616"
  shows "bytes_at (store_bytes m p bs) p (length bs) = bs"
proof (rule nth_equalityI)
  fix i assume i: "i < length (bytes_at (store_bytes m p bs) p (length bs))"
  then have "unat (of_nat i :: u64) = i" using assms by (intro unat_of_nat_no_wrap) simp
  then show "bytes_at (store_bytes m p bs) p (length bs) ! i = bs ! i"
    using i by (simp add: bytes_at_def store_bytes_def)
qed simp

section \<open>The invariant\<close>

lemma ta_inv_data:
  assumes inv: "ta_inv g m c es A N R" and d: "ta_data A \<noteq> NULL"
  shows "pool_since g m c (insert (ta_data A, N) R)" "(ta_data A, N) \<notin> R" "unat (ta_capacity A) * unat es \<le> N"
    "unat (ta_data A) + N \<le> 140737488355328" "unat (ta_length A) * unat es \<le> N"
proof -
  show h: "pool_since g m c (insert (ta_data A, N) R)" and "(ta_data A, N) \<notin> R"
    and cap: "unat (ta_capacity A) * unat es \<le> N"
    using inv d by (simp_all add: ta_inv_def)
  show "unat (ta_data A) + N \<le> 140737488355328" using since_bounds [OF h] by simp
  have "unat (ta_length A) * unat es \<le> unat (ta_capacity A) * unat es"
    using inv by (intro mult_le_mono1) (simp add: ta_inv_def)
  then show "unat (ta_length A) * unat es \<le> N" using cap by linarith
qed

lemma ta_inv_NULL:
  assumes "ta_inv g m c es A N R" "ta_data A = NULL"
  shows "pool_since g m c R" "ta_capacity A = 0" "ta_length A = 0"
  using assms by (simp_all add: ta_inv_def u64_eq_iff)

lemma ta_elems_kept:
  assumes inv: "ta_inv g m c es A N R" and k: "ta_data A \<noteq> NULL \<Longrightarrow> agree m m' (area (ta_data A) N)"
  shows "ta_elems m' es A = ta_elems m es A"
proof (cases "ta_data A = NULL")
  case True
  then show ?thesis using ta_inv_NULL(3) [OF inv] by (simp add: ta_elems_def)
next
  case False
  note d = ta_inv_data [OF inv False]
  show ?thesis unfolding ta_elems_def by (rule elems_at_agree [OF k [OF False] d(5)]) (use d(4) in simp)
qed

section \<open>Reserving\<close>

definition reserve_result :: "mem \<times> bc_context \<Rightarrow> mem \<Rightarrow> u64 \<Rightarrow> typed_array \<Rightarrow> u64 \<Rightarrow> objects \<Rightarrow> bool \<Rightarrow> mem \<Rightarrow> bc_context \<Rightarrow> typed_array \<Rightarrow> bool" where
  "reserve_result g m es A k R ok m' c' A' \<longleftrightarrow>
     (\<exists>N'. ta_inv g m' c' es A' N' R) \<and> kept_objects m m' R \<and> ta_elems m' es A' = ta_elems m es A \<and>
     ta_length A' = ta_length A \<and>
     (if ok then unat (ta_capacity A') = max (unat (ta_capacity A)) (unat k) else A' = A)"

context bc_core
begin

text \<open>The first buffer of an array.\<close>

lemma reserve_first:
  assumes inv: "ta_inv g m c es A N R" and null: "ta_data A = NULL" and gr: "unat (ta_capacity A) < unat k"
    and b: "unat (k * es) = unat k * unat es" "unat (k * es) \<le> 9223372036854775808"
    and al: "bc_allocators_pool_allocate E m c (k * es) = (r, m1, c1)"
  shows "reserve_result g m es A k R (r \<noteq> None) m1 c1
    (case r of None \<Rightarrow> A | Some p \<Rightarrow> A\<lparr>ta_data := p, ta_capacity := k\<rparr>)"
proof -
  note n = ta_inv_NULL [OF inv null]
  have es: "0 < unat es" using inv by (simp add: ta_inv_def)
  have el: "ta_elems m1 es (A\<lparr>ta_data := p, ta_capacity := j\<rparr>) = ta_elems m es A"
    "ta_elems m1 es A = ta_elems m es A" for p j
    using n(3) by (simp_all add: ta_elems_def)
  show ?thesis
  proof (cases r)
    case None
    note f = since.alloc_None [OF n(1) b(2) al [unfolded None]]
    have "ta_inv g m1 c1 es A N R" using f inv null n(2,3) by (simp add: ta_inv_def)
    then show ?thesis using None f el by (auto simp: reserve_result_def)
  next
    case (Some p)
    obtain N' where f: "unat (k * es) \<le> N'" "p \<notin> fst ` R" "pool_since g m1 c1 (insert (p, N') R)" "kept_objects m m1 R"
      using since.alloc_Some [OF n(1) b(2) al [unfolded Some]] by blast
    have "(p, N') \<notin> R" using f(2) by force
    moreover have "p \<noteq> NULL" using since_bounds [OF f(3)] by blast
    ultimately have "ta_inv g m1 c1 es (A\<lparr>ta_data := p, ta_capacity := k\<rparr>) N' R"
      using f n(3) es b(1) by (simp add: ta_inv_def)
    then show ?thesis using Some f(4) gr el by (auto simp: reserve_result_def)
  qed
qed

text \<open>A larger buffer for an array that has one.\<close>

lemma reserve_larger:
  assumes inv: "ta_inv g m c es A N R" and data: "ta_data A \<noteq> NULL" and gr: "unat (ta_capacity A) < unat k"
    and b: "unat (k * es) = unat k * unat es" "unat (k * es) \<le> 9223372036854775808"
    and al: "bc_allocators_pool_reallocate E m c (ta_data A) (k * es) = (r, m1, c1)"
  shows "reserve_result g m es A k R (r \<noteq> None) m1 c1
    (case r of None \<Rightarrow> A | Some p \<Rightarrow> A\<lparr>ta_data := p, ta_capacity := k\<rparr>)"
proof -
  note d = ta_inv_data [OF inv data]
  have diff: "insert (ta_data A, N) R - {(ta_data A, N)} = R" using d(2) by simp
  have es: "0 < unat es" using inv by (simp add: ta_inv_def)
  show ?thesis
  proof (cases r)
    case None
    note f = since.resize_None [OF d(1) insertI1 b(2) al [unfolded None]]
    have "agree m m1 (area (ta_data A) N)" using f kept_objectsD by blast
    then have "ta_elems m1 es A = ta_elems m es A" by (intro ta_elems_kept [OF inv])
    moreover have "ta_inv g m1 c1 es A N R" using f inv data by (simp add: ta_inv_def)
    moreover have "kept_objects m m1 R" using f by (auto intro: kept_objects_subset)
    ultimately show ?thesis using None by (auto simp: reserve_result_def)
  next
    case (Some q)
    obtain N' where f: "unat (k * es) \<le> N'" "q \<notin> fst ` R" "pool_since g m1 c1 (insert (q, N') R)"
      "kept_objects m m1 R" "\<forall>i < min (unat (k * es)) N. m1 (q + of_nat i) = m (ta_data A + of_nat i)"
      using since.resize_Some [OF d(1) insertI1 b(2) al [unfolded Some], unfolded diff] by blast
    have "(q, N') \<notin> R" using f(2) by force
    moreover have "q \<noteq> NULL" using since_bounds [OF f(3)] by blast
    moreover have ll: "unat (ta_length A) \<le> unat k" using inv gr by (simp add: ta_inv_def)
    ultimately have "ta_inv g m1 c1 es (A\<lparr>ta_data := q, ta_capacity := k\<rparr>) N' R"
      using f es b(1) by (simp add: ta_inv_def)
    moreover have "elems_at m1 es q (unat (ta_length A)) = elems_at m es (ta_data A) (unat (ta_length A))"
    proof (rule elems_at_cong)
      fix i assume i: "i < unat (ta_length A) * unat es"
      have "unat (ta_length A) * unat es \<le> unat k * unat es" using ll by (rule mult_le_mono1)
      then have "i < min (unat (k * es)) N" using i d(5) unfolding b(1) by linarith
      then show "m1 (q + of_nat i) = m (ta_data A + of_nat i)" using f(5) by blast
    qed
    ultimately show ?thesis using Some f(4) gr by (auto simp: reserve_result_def ta_elems_def)
  qed
qed

lemma reserve_ok:
  assumes inv: "ta_inv g m c es A N R"
    and sz: "unat k * unat es \<le> 9223372036854775808 \<or> 18446744073709551616 \<le> unat k * unat es"
    and run: "typed_array_reserve E es m c A k = (ok, m', c', A')"
  shows "reserve_result g m es A k R ok m' c' A'"
proof -
  consider "k \<le> ta_capacity A"
    | "\<not> k \<le> ta_capacity A" "18446744073709551616 \<le> unat k * unat es"
    | "\<not> k \<le> ta_capacity A" "unat k * unat es < 18446744073709551616" by linarith
  then show ?thesis
  proof cases
    case 1
    then have "ok" "m' = m" "c' = c" "A' = A" using run by (simp_all add: typed_array_reserve_def)
    moreover have "max (unat (ta_capacity A)) (unat k) = unat (ta_capacity A)" using 1 by (simp add: word_le_nat_alt)
    ultimately show ?thesis using inv by (auto simp: reserve_result_def)
  next
    case 2
    then have "\<not> ok" "m' = m" "c' = c" "A' = A" using run by (auto simp: typed_array_reserve_def safe_multiply)
    then show ?thesis using inv by (auto simp: reserve_result_def)
  next
    case 3
    then have gr: "unat (ta_capacity A) < unat k" by (simp add: word_le_nat_alt)
    have b: "unat (k * es) = unat k * unat es" "unat (k * es) \<le> 9223372036854775808"
      using 3 sz by (auto simp: no_wrap)
    obtain r m1 c1 where al: "(if ta_data A = NULL then bc_allocators_pool_allocate E m c (k * es)
        else bc_allocators_pool_reallocate E m c (ta_data A) (k * es)) = (r, m1, c1)" by (metis prod_cases3)
    have "core_safe_multiply E k es = Some (k * es)" using 3 by (simp add: safe_multiply)
    then have res: "ok = (r \<noteq> None)" "m' = m1" "c' = c1"
      "A' = (case r of None \<Rightarrow> A | Some p \<Rightarrow> A\<lparr>ta_data := p, ta_capacity := k\<rparr>)"
      using run 3 al by (auto simp: typed_array_reserve_def split: option.splits)
    show ?thesis unfolding res
      using al reserve_first [OF inv _ gr b] reserve_larger [OF inv _ gr b] by (cases "ta_data A = NULL") simp_all
  qed
qed

end

section \<open>Writing the next elements\<close>

text \<open>The bytes from the end of the elements on, while there is capacity, belong to the array alone.\<close>

lemma ta_tail:
  assumes inv: "ta_inv g m c es A N R" and room: "unat (ta_length A) + n \<le> unat (ta_capacity A)" "0 < n"
  defines "p \<equiv> ta_data A + ta_length A * es"
  shows "ta_data A \<noteq> NULL" "unat p = unat (ta_data A) + unat (ta_length A) * unat es"
    "unat (ta_length A) * unat es + n * unat es \<le> N" "unat p + n * unat es \<le> 140737488355328"
    "area p (n * unat es) \<subseteq> area (ta_data A) N"
proof -
  show d: "ta_data A \<noteq> NULL" using ta_inv_NULL(2) [OF inv] room by auto
  note f = ta_inv_data [OF inv d]
  have "(unat (ta_length A) + n) * unat es \<le> unat (ta_capacity A) * unat es" using room(1) by (rule mult_le_mono1)
  then show le: "unat (ta_length A) * unat es + n * unat es \<le> N" using f(3) by (simp add: algebra_simps)
  have "unat (ta_length A * es) = unat (ta_length A) * unat es" using le f(4) by (simp add: no_wrap)
  then show u: "unat p = unat (ta_data A) + unat (ta_length A) * unat es"
    using le f(4) unfolding p_def by (simp add: no_wrap)
  then show "unat p + n * unat es \<le> 140737488355328" using le f(4) by linarith
  show "area p (n * unat es) \<subseteq> area (ta_data A) N" using u le by auto
qed

lemma ta_extend:
  assumes inv: "ta_inv g m c es A N R" and room: "unat (ta_length A) + n \<le> unat (ta_capacity A)" "0 < n"
    and out: "agree m m' (- area (ta_data A + ta_length A * es) (n * unat es))"
  defines "A' \<equiv> A\<lparr>ta_length := ta_length A + of_nat n\<rparr>"
  shows "ta_inv g m' c es A' N R" "kept_objects m m' R"
    "ta_elems m' es A' = ta_elems m es A @ elems_at m' es (ta_data A + ta_length A * es) n"
    "unat (ta_length A') = unat (ta_length A) + n"
proof -
  note t = ta_tail [OF inv room]
  note d = ta_inv_data [OF inv t(1)]
  have out': "agree m m' (- area (ta_data A) N)" by (rule agree_subset [OF out]) (use t(5) in blast)
  note w = std.since.write_keeps [OF d(1) insertI1 out']
  have diff: "insert (ta_data A, N) R - {(ta_data A, N)} = R" using d(2) by simp
  show "kept_objects m m' R" using w(2) unfolding diff .
  have un: "unat (of_nat n :: u64) = n"
    using room(1) u64_max [of "ta_capacity A"] by (intro unat_of_nat_no_wrap) linarith
  show len: "unat (ta_length A') = unat (ta_length A) + n"
    using room(1) u64_max [of "ta_capacity A"] un unfolding A'_def by (simp add: no_wrap del: u64_max)
  show "ta_inv g m' c es A' N R"
    using inv w(1) len room(1) t(1) by (simp add: ta_inv_def A'_def)
  have "elems_at m' es (ta_data A) (unat (ta_length A)) = elems_at m es (ta_data A) (unat (ta_length A))"
  proof (rule elems_at_agree [OF _ order_refl])
    show "agree m m' (area (ta_data A) (unat (ta_length A) * unat es))"
      by (rule agree_off [OF out]) (use t(2) in auto)
    show "unat (ta_data A) + unat (ta_length A) * unat es \<le> 18446744073709551616" using d(4,5) by simp
  qed
  then show "ta_elems m' es A' = ta_elems m es A @ elems_at m' es (ta_data A + ta_length A * es) n"
    unfolding ta_elems_def len elems_at_add by (simp add: A'_def)
qed

lemma put_ok:
  assumes inv: "ta_inv g m c es A N R" and room: "ta_length A < ta_capacity A" and v: "length v = unat es"
    and run: "typed_array_put es m A v = (m', A')"
  shows "ta_inv g m' c es A' N R" "kept_objects m m' R" "ta_elems m' es A' = ta_elems m es A @ [v]"
    "unat (ta_length A') = Suc (unat (ta_length A))" "ta_capacity A' = ta_capacity A"
proof -
  have r1: "unat (ta_length A) + 1 \<le> unat (ta_capacity A)" using room by (simp add: word_less_nat_alt)
  note t = ta_tail [OF inv r1 zero_less_one]
  define p where "p = ta_data A + ta_length A * es"
  have res: "m' = store_bytes m p v" "A' = A\<lparr>ta_length := ta_length A + of_nat 1\<rparr>"
    using run by (simp_all add: typed_array_put_def p_def)
  have lim: "unat p + length v \<le> 18446744073709551616" using t(4) v by (simp add: p_def)
  have out: "agree m m' (- area p (1 * unat es))" using store_bytes_outside [OF lim] v by (simp add: res)
  note x = ta_extend [OF inv r1 zero_less_one out [unfolded p_def], folded res(2)]
  show "ta_inv g m' c es A' N R" "kept_objects m m' R" by (rule x(1), rule x(2))
  have "elems_at m' es p 1 = [v]" using store_bytes_same [OF lim, of m] v by (simp add: elems_at_def res)
  then show "ta_elems m' es A' = ta_elems m es A @ [v]" using x(3) by (simp add: p_def)
  show "unat (ta_length A') = Suc (unat (ta_length A))" using x(4) by simp
  show "ta_capacity A' = ta_capacity A" by (simp add: res)
qed

section \<open>Push\<close>

text \<open>The capacity after a push: unchanged while there is room, else doubled from 8 on.\<close>

definition next_capacity :: "u64 \<Rightarrow> u64" where
  "next_capacity n = (if n = 0 then 8 else n * 2)"

definition push_result :: "mem \<times> bc_context \<Rightarrow> mem \<Rightarrow> u64 \<Rightarrow> typed_array \<Rightarrow> u8 list \<Rightarrow> objects \<Rightarrow> bool \<Rightarrow> mem \<Rightarrow> bc_context \<Rightarrow> typed_array \<Rightarrow> bool" where
  "push_result g m es A v R ok m' c' A' \<longleftrightarrow>
     (\<exists>N'. ta_inv g m' c' es A' N' R) \<and> kept_objects m m' R \<and>
     (if ok then ta_elems m' es A' = ta_elems m es A @ [v] \<and> unat (ta_length A') = Suc (unat (ta_length A)) \<and>
        ta_capacity A' = (if ta_length A < ta_capacity A then ta_capacity A else next_capacity (ta_capacity A))
      else A' = A \<and> ta_elems m' es A' = ta_elems m es A \<and> ta_length A = ta_capacity A)"

text \<open>A buffer in user space is far from the limit, so doubling neither wraps nor asks for too much.\<close>

lemma next_capacity_size:
  assumes inv: "ta_inv g m c es A N R" and es: "unat es \<le> 1152921504606846976"
  shows "unat (ta_capacity A) < unat (next_capacity (ta_capacity A))"
    "unat (next_capacity (ta_capacity A)) * unat es \<le> 9223372036854775808"
    "ta_capacity A \<noteq> 0 \<Longrightarrow> unat (next_capacity (ta_capacity A)) = 2 * unat (ta_capacity A)"
proof -
  have "unat (ta_capacity A) < unat (next_capacity (ta_capacity A)) \<and>
    unat (next_capacity (ta_capacity A)) * unat es \<le> 9223372036854775808 \<and>
    (ta_capacity A \<noteq> 0 \<longrightarrow> unat (next_capacity (ta_capacity A)) = 2 * unat (ta_capacity A))"
  proof (cases "ta_capacity A = 0")
    case True
    then show ?thesis using es by (simp add: next_capacity_def)
  next
    case False
    then have "ta_data A \<noteq> NULL" using ta_inv_NULL(2) [OF inv] by blast
    note d = ta_inv_data [OF inv this]
    have e: "1 \<le> unat es" using inv by (simp add: ta_inv_def)
    have ce: "unat (ta_capacity A) * unat es \<le> 140737488355328" using d(3,4) by linarith
    moreover have "unat (ta_capacity A) * 1 \<le> unat (ta_capacity A) * unat es" using e by (rule mult_le_mono2)
    ultimately have c: "unat (ta_capacity A) \<le> 140737488355328" by linarith
    then have "unat (ta_capacity A * 2) = unat (ta_capacity A) * 2" by (simp add: no_wrap)
    then show ?thesis using ce False by (simp add: next_capacity_def unat_gt_0 mult.commute [of "unat es"])
  qed
  then show "unat (ta_capacity A) < unat (next_capacity (ta_capacity A))"
    "unat (next_capacity (ta_capacity A)) * unat es \<le> 9223372036854775808"
    "ta_capacity A \<noteq> 0 \<Longrightarrow> unat (next_capacity (ta_capacity A)) = 2 * unat (ta_capacity A)" by blast+
qed

context bc_core
begin

lemma push_ok:
  assumes inv: "ta_inv g m c es A N R" and es: "unat es \<le> 1152921504606846976" and v: "length v = unat es"
    and run: "typed_array_push E es m c A v = (ok, m', c', A')"
  shows "push_result g m es A v R ok m' c' A'"
proof (cases "ta_length A < ta_capacity A")
  case True
  obtain m1 A1 where p: "typed_array_put es m A v = (m1, A1)" by fastforce
  then have "ok" "m' = m1" "c' = c" "A' = A1" using run True by (auto simp: typed_array_push_def)
  then show ?thesis using put_ok [OF inv True v p] True by (auto simp: push_result_def)
next
  case False
  have full: "ta_length A = ta_capacity A"
    using inv False by (simp add: ta_inv_def u64_eq_iff word_less_nat_alt)
  note nc = next_capacity_size [OF inv es]
  obtain ok1 m1 c1 A1 where rs: "typed_array_reserve E es m c A (next_capacity (ta_capacity A)) = (ok1, m1, c1, A1)"
    by (metis prod_cases4)
  note rr = reserve_ok [OF inv disjI1 [OF nc(2)] rs, unfolded reserve_result_def]
  then obtain N1 where i1: "ta_inv g m1 c1 es A1 N1 R" by blast
  show ?thesis
  proof (cases ok1)
    case no: False
    then have "\<not> ok" "m' = m1" "c' = c1" "A' = A1"
      using run False rs by (auto simp: typed_array_push_def next_capacity_def)
    then show ?thesis using rr no i1 full by (auto simp: push_result_def)
  next
    case ok: True
    obtain m2 A2 where p: "typed_array_put es m1 A1 v = (m2, A2)" by fastforce
    then have res: "ok" "m' = m2" "c' = c1" "A' = A2"
      using run False rs ok by (auto simp: typed_array_push_def next_capacity_def)
    have cap: "ta_capacity A1 = next_capacity (ta_capacity A)" using rr ok nc(1) by (simp add: u64_eq_iff)
    have "unat (ta_length A1) < unat (ta_capacity A1)" using rr ok nc(1) full cap by simp
    then have "ta_length A1 < ta_capacity A1" by (simp add: word_less_nat_alt)
    note pk = put_ok [OF i1 this v p]
    have "kept_objects m m2 R" using rr pk(2) by (blast intro: kept_objects_trans)
    then show ?thesis using res pk rr cap False by (auto simp: push_result_def)
  qed
qed

end

section \<open>Bulk append\<close>

text \<open>The source lies in another object alive in the pool.\<close>

definition append_result :: "mem \<times> bc_context \<Rightarrow> mem \<Rightarrow> u64 \<Rightarrow> typed_array \<Rightarrow> u64 \<Rightarrow> u64 \<Rightarrow> objects \<Rightarrow> bool \<Rightarrow> mem \<Rightarrow> bc_context \<Rightarrow> typed_array \<Rightarrow> bool" where
  "append_result g m es A src num R ok m' c' A' \<longleftrightarrow>
     (\<exists>N'. ta_inv g m' c' es A' N' R) \<and> kept_objects m m' R \<and>
     (if ok then ta_elems m' es A' = ta_elems m es A @ elems_at m es src (unat num)
      else A' = A \<and> ta_elems m' es A' = ta_elems m es A)"

context bc_core
begin

text \<open>The last step: the copy, once there is room.\<close>

lemma append_copy_ok:
  assumes inv: "ta_inv g m c es A N R" and room: "unat (ta_length A) + unat num \<le> unat (ta_capacity A)" "0 < unat num"
    and src: "in_object src (unat num * unat es) R"
  defines "m' \<equiv> core_memcpy E m (ta_data A + ta_length A * es) src (num * es)"
  defines "A' \<equiv> A\<lparr>ta_length := ta_length A + num\<rparr>"
  shows "ta_inv g m' c es A' N R" "kept_objects m m' R"
    "ta_elems m' es A' = ta_elems m es A @ elems_at m es src (unat num)"
proof -
  note t = ta_tail [OF inv room]
  note d = ta_inv_data [OF inv t(1)]
  define p where "p = ta_data A + ta_length A * es"
  have es: "0 < unat es" using inv by (simp add: ta_inv_def)
  obtain q k where q: "(q, k) \<in> R" "area src (unat num * unat es) \<subseteq> area q k" "unat src + unat num * unat es \<le> unat q + k"
    using src by (auto simp: in_object_def)
  have qb: "unat q + k \<le> 140737488355328" using since_bounds [OF d(1) insertI2 [OF q(1)]] by simp
  have len: "unat (num * es) = unat num * unat es" using t(4) by (simp add: no_wrap)
  have lim: "unat p + unat (num * es) \<le> 18446744073709551616" "unat src + unat (num * es) \<le> 18446744073709551616"
    using t(4) q(3) qb unfolding len p_def by simp_all
  have "(ta_data A, N) \<noteq> (q, k)" using d(2) q(1) by blast
  then have "apart (ta_data A) N q k" using since_apart [OF d(1) insertI1 insertI2 [OF q(1)]] by blast
  then have dis: "area (ta_data A) N \<inter> area q k = {}" by (rule apart_disjoint)
  have "area p (unat (num * es)) \<inter> area src (unat (num * es)) = {}"
    using dis t(5) q(2) unfolding len p_def by blast
  then have ap: "apart p (unat (num * es)) src (unat (num * es))"
    by (rule disjoint_apart) (use lim len room(2) es in simp_all)
  have cp: "m' = copy_bytes m p src (num * es)" unfolding m'_def by (simp add: memcpy [OF lim ap] flip: p_def)
  note ca = copy_bytes_apply [OF lim(1)]
  have out: "agree m m' (- area p (unat num * unat es))" unfolding cp agree_def using ca(2) len by auto
  have A': "A' = A\<lparr>ta_length := ta_length A + of_nat (unat num)\<rparr>" by (simp add: A'_def)
  note x = ta_extend [OF inv room out [unfolded p_def], folded A']
  show "ta_inv g m' c es A' N R" "kept_objects m m' R" by (rule x(1), rule x(2))
  have "elems_at m' es p (unat num) = elems_at m es src (unat num)"
    by (rule elems_at_cong) (use ca(1) len in \<open>simp add: cp\<close>)
  then show "ta_elems m' es A' = ta_elems m es A @ elems_at m es src (unat num)" using x(3) by (simp add: p_def)
qed

text \<open>The sizes of a bulk append: the sum does not wrap, and the loop ends with a capacity that fits.\<close>

lemma append_capacity:
  assumes sz: "max 8 (2 * (unat (ta_length A) + unat num)) * unat es \<le> 9223372036854775808" and es: "1 \<le> unat es"
  defines "r \<equiv> ta_length A + num"
  obtains k where "unat r = unat (ta_length A) + unat num"
    "grow_capacity (if ta_capacity A = 0 then 8 else ta_capacity A) r = Some k" "unat r \<le> unat k"
    "ta_capacity A < r \<Longrightarrow> unat k * unat es \<le> 9223372036854775808"
proof -
  have "max 8 (2 * (unat (ta_length A) + unat num)) * 1 \<le> max 8 (2 * (unat (ta_length A) + unat num)) * unat es"
    using es by (rule mult_le_mono2)
  then have b: "2 * (unat (ta_length A) + unat num) \<le> 9223372036854775808" using sz by linarith
  then have ur: "unat r = unat (ta_length A) + unat num" unfolding r_def by (simp add: no_wrap)
  define start where "start = (if ta_capacity A = 0 then 8 else ta_capacity A)"
  have s0: "0 < unat start" by (simp add: start_def unat_gt_0)
  obtain k where k: "grow_capacity start r = Some k" "unat r \<le> unat k" "k = start \<or> unat k < 2 * unat r"
    using grow_capacity_ok [OF s0, of r] b ur by auto
  have "unat k * unat es \<le> 9223372036854775808" if "ta_capacity A < r"
  proof -
    have "unat k \<le> max 8 (2 * unat r)" using k(3) that by (auto simp: start_def word_less_nat_alt)
    then have "unat k * unat es \<le> max 8 (2 * unat r) * unat es" by (rule mult_le_mono1)
    then show ?thesis using sz unfolding ur by linarith
  qed
  from that [OF ur k(1) [unfolded start_def] k(2) this] show thesis .
qed

text \<open>The source elements are another object's bytes, which the reservation keeps.\<close>

lemma source_kept:
  assumes src: "in_object src (n * unat es) R" and k: "kept_objects m m1 R" and inv: "ta_inv g m1 c1 es A N R"
  shows "elems_at m1 es src n = elems_at m es src n"
proof -
  obtain q j where q: "(q, j) \<in> R" "area src (n * unat es) \<subseteq> area q j" "unat src + n * unat es \<le> unat q + j"
    using src by (auto simp: in_object_def)
  obtain S where "pool_since g m1 c1 S" "R \<subseteq> S" using inv by (auto simp: ta_inv_def split: if_splits)
  then have jb: "unat q + j \<le> 140737488355328" using since_bounds q(1) by blast
  have "agree m m1 (area src (n * unat es))" using kept_objectsD [OF k q(1)] q(2) by (rule agree_subset)
  then show ?thesis by (rule elems_at_agree) (use q(3) jb in simp_all)
qed

lemma append_ok:
  assumes inv: "ta_inv g m c es A N R" and src: "in_object src (unat num * unat es) R"
    and sz: "max 8 (2 * (unat (ta_length A) + unat num)) * unat es \<le> 9223372036854775808"
  shows "\<exists>ok m' c' A'. typed_array_append_bulk E es m c A src num = Some (ok, m', c', A')
    \<and> append_result g m es A src num R ok m' c' A'"
proof (cases "num = 0")
  case True
  then show ?thesis using inv by (auto simp: typed_array_append_bulk_def append_result_def)
next
  case False
  then have n0: "0 < unat num" by (simp add: unat_gt_0)
  have es: "1 \<le> unat es" using inv by (simp add: ta_inv_def)
  obtain k where k: "unat (ta_length A + num) = unat (ta_length A) + unat num"
    "grow_capacity (if ta_capacity A = 0 then 8 else ta_capacity A) (ta_length A + num) = Some k"
    "unat (ta_length A + num) \<le> unat k"
    "ta_capacity A < ta_length A + num \<Longrightarrow> unat k * unat es \<le> 9223372036854775808"
    by (rule append_capacity [OF sz es]) blast
  have nw: "\<not> ta_length A + num < ta_length A" using k(1) by (simp add: word_less_nat_alt)
  show ?thesis
  proof (cases "ta_capacity A < ta_length A + num")
    case False
    then have rm: "unat (ta_length A) + unat num \<le> unat (ta_capacity A)" using k(1) by (simp add: word_less_nat_alt)
    have "typed_array_append_bulk E es m c A src num =
      Some (True, core_memcpy E m (ta_data A + ta_length A * es) src (num * es), c, A\<lparr>ta_length := ta_length A + num\<rparr>)"
      using \<open>num \<noteq> 0\<close> nw False by (simp add: typed_array_append_bulk_def Let_def)
    then show ?thesis using append_copy_ok [OF inv rm n0 src] by (auto simp: append_result_def)
  next
    case True
    obtain ok m1 c1 A1 where rs: "typed_array_reserve E es m c A k = (ok, m1, c1, A1)" by (metis prod_cases4)
    have run: "typed_array_append_bulk E es m c A src num =
      (if ok then Some (True, core_memcpy E m1 (ta_data A1 + ta_length A1 * es) src (num * es), c1,
         A1\<lparr>ta_length := ta_length A + num\<rparr>)
       else Some (False, m1, c1, A1))"
      using \<open>num \<noteq> 0\<close> nw True k(2) rs by (simp add: typed_array_append_bulk_def Let_def split: bool.splits)
    note rr = reserve_ok [OF inv disjI1 [OF k(4) [OF True]] rs, unfolded reserve_result_def]
    then obtain N1 where i1: "ta_inv g m1 c1 es A1 N1 R" by blast
    show ?thesis
    proof (cases ok)
      case no: False
      then show ?thesis using run rr i1 by (auto simp: append_result_def)
    next
      case ok: True
      have la: "ta_length A1 = ta_length A" using rr by blast
      have "unat (ta_length A1) + unat num \<le> unat (ta_capacity A1)" using rr ok k(1,3) la by simp
      note cp = append_copy_ok [OF i1 this n0 src]
      have "elems_at m1 es src (unat num) = elems_at m es src (unat num)"
        by (rule source_kept [OF src _ i1]) (use rr in blast)
      then show ?thesis using run ok cp rr la by (auto simp: append_result_def intro: kept_objects_trans)
    qed
  qed
qed

end

section \<open>Clearing and destroying\<close>

lemma ta_clear_ok:
  assumes "ta_inv g m c es A N R"
  shows "ta_inv g m c es (typed_array_clear A) N R" "ta_elems m es (typed_array_clear A) = []"
  using assms by (auto simp: ta_inv_def typed_array_clear_def ta_elems_def split: if_splits)

lemma ta_destroy_ok:
  assumes inv: "ta_inv g m c es A N R" and run: "typed_array_destroy m c A = (m', c', A')"
  shows "A' = zero_array" "pool_since g m' c' R" "kept_objects m m' R"
proof -
  obtain m1 c1 where f: "bc_allocators_pool_free m c (ta_data A) = (m1, c1)" by fastforce
  then show "A' = zero_array" using run by (cases A) (auto simp: typed_array_destroy_def zero_array_def)
  have r: "m' = m1" "c' = c1" using run f by (auto simp: typed_array_destroy_def)
  have "pool_since g m1 c1 R \<and> kept_objects m m1 R"
  proof (cases "ta_data A = NULL")
    case True
    note n = ta_inv_NULL [OF inv True]
    then show ?thesis using std.since.release_NULL [OF n(1)] f True by auto
  next
    case False
    note d = ta_inv_data [OF inv False]
    have "insert (ta_data A, N) R - {(ta_data A, N)} = R" using d(2) by simp
    then show ?thesis using std.since.release [OF d(1) insertI1 f] by simp
  qed
  then show "pool_since g m' c' R" "kept_objects m m' R" by (simp_all add: r)
qed

lemma zero_array_inv: "pool_since g m c R \<Longrightarrow> 0 < unat es \<Longrightarrow> ta_inv g m c es zero_array N R"
  and zero_array_elems [simp]: "ta_elems m es zero_array = []"
  by (simp_all add: ta_inv_def ta_elems_def zero_array_def)

end
