(* ===== verification/BC_Typed_Array_Props.thy ===== *)
theory BC_Typed_Array_Props
  imports BC_Typed_Array_Spec BC_Demo "HOL-Library.Sublist"
begin

text \<open>
  The properties of the typed array: push and bulk append on the list of elements, the capacity it takes, the loop that
  does not end, and destruction. \<open>ta_inv g m c es A N R\<close>: a well-formed array of elements of \<open>es\<close> bytes whose buffer has \<open>N\<close> bytes,
  beside the objects \<open>R\<close> of the pool, with nothing outside the pool changed since the memory and context \<open>g\<close>.
\<close>

text \<open>Pushing a list of values, one call each, until one is refused.\<close>

fun push_all :: "env \<Rightarrow> u64 \<Rightarrow> mem \<Rightarrow> bc_context \<Rightarrow> typed_array \<Rightarrow> u8 list list \<Rightarrow> bool \<times> mem \<times> bc_context \<times> typed_array" where
  "push_all E es m c A [] = (True, m, c, A)"
| "push_all E es m c A (v # vs) =
     (case typed_array_push E es m c A v of
        (True, m1, c1, A1) \<Rightarrow> push_all E es m1 c1 A1 vs
      | (False, m1, c1, A1) \<Rightarrow> (False, m1, c1, A1))"

text \<open>A capacity reached by pushes: nothing, or the least \<open>8 * 2 ^ k\<close> that holds the elements.\<close>

definition tight_capacity :: "nat \<Rightarrow> nat \<Rightarrow> bool" where
  "tight_capacity n cap \<longleftrightarrow> (if n = 0 then cap = 0 else \<exists>k. cap = 8 * 2 ^ k \<and> n \<le> cap \<and> (k = 0 \<or> cap < 2 * n))"

lemma tight_capacityI:
  "cap = 8 * 2 ^ k \<Longrightarrow> n \<le> cap \<Longrightarrow> k = 0 \<or> cap < 2 * n \<Longrightarrow> n \<noteq> 0 \<Longrightarrow> tight_capacity n cap"
  by (auto simp: tight_capacity_def)

lemma tight_capacity_grow:
  assumes "tight_capacity n cap" "n \<le> cap"
  shows "n < cap \<Longrightarrow> tight_capacity (Suc n) cap" "n = cap \<Longrightarrow> tight_capacity (Suc n) (if cap = 0 then 8 else 2 * cap)"
proof -
  show "tight_capacity (Suc n) cap" if "n < cap" using assms that by (auto simp: tight_capacity_def split: if_splits)
  assume e: "n = cap"
  show "tight_capacity (Suc n) (if cap = 0 then 8 else 2 * cap)"
  proof (cases "cap = 0")
    case True
    then have "(8 :: nat) = 8 * 2 ^ 0 \<and> Suc n \<le> 8" using e by simp
    then show ?thesis using True unfolding tight_capacity_def by auto
  next
    case False
    then obtain k where "cap = 8 * 2 ^ k" using assms(1) e by (auto simp: tight_capacity_def)
    then have "2 * cap = 8 * 2 ^ Suc k" by simp
    moreover have "Suc n \<le> 2 * cap" "2 * cap < 2 * Suc n" using e False by simp_all
    ultimately have "tight_capacity (Suc n) (2 * cap)" by (intro tight_capacityI [of _ "Suc k"] disjI2) simp_all
    then show ?thesis using False by simp
  qed
qed

context bc_core
begin

lemma push_all_ok:
  assumes "ta_inv g m c es A N R" "unat es \<le> 1152921504606846976" "\<forall>v \<in> set vs. length v = unat es"
    and "tight_capacity (unat (ta_length A)) (unat (ta_capacity A))"
    and "push_all E es m c A vs = (ok, m', c', A')"
  shows "(\<exists>N'. ta_inv g m' c' es A' N' R) \<and> kept_objects m m' R \<and>
    tight_capacity (unat (ta_length A')) (unat (ta_capacity A')) \<and>
    (\<exists>us. prefix us vs \<and> ta_elems m' es A' = ta_elems m es A @ us \<and> (ok \<longrightarrow> us = vs))"
  using assms(1,3-5)
proof (induction vs arbitrary: m c A N)
  case Nil
  then show ?case by auto
next
  case (Cons v vs)
  obtain b m1 c1 A1 where p: "typed_array_push E es m c A v = (b, m1, c1, A1)" by (metis prod_cases4)
  have v: "length v = unat es" using Cons.prems(2) by simp
  note pr = push_ok [OF Cons.prems(1) assms(2) v p, unfolded push_result_def]
  then obtain N1 where i1: "ta_inv g m1 c1 es A1 N1 R" by blast
  show ?case
  proof (cases b)
    case False
    then have r: "\<not> ok" "m' = m1" "c' = c1" "A' = A1" using Cons.prems(4) p by auto
    have same: "A1 = A" "ta_elems m1 es A1 = ta_elems m es A" "kept_objects m m1 R" using pr False by auto
    then have "\<exists>us. prefix us (v # vs) \<and> ta_elems m1 es A1 = ta_elems m es A @ us \<and> (ok \<longrightarrow> us = v # vs)"
      using r(1) by (intro exI [of _ "[]"]) simp
    then show ?thesis using i1 same(1,3) Cons.prems(3) r by auto
  next
    case True
    have run: "push_all E es m1 c1 A1 vs = (ok, m', c', A')" using Cons.prems(4) p True by simp
    have le: "unat (ta_length A) \<le> unat (ta_capacity A)" using Cons.prems(1) by (simp add: ta_inv_def)
    note tg = tight_capacity_grow [OF Cons.prems(3) le]
    have "tight_capacity (unat (ta_length A1)) (unat (ta_capacity A1))"
    proof (cases "ta_length A < ta_capacity A")
      case lt: True
      then show ?thesis using pr True tg(1) by (simp add: word_less_nat_alt)
    next
      case False
      then have "unat (ta_length A) = unat (ta_capacity A)" using le by (simp add: word_less_nat_alt)
      moreover have "unat (ta_capacity A1) = (if unat (ta_capacity A) = 0 then 8 else 2 * unat (ta_capacity A))"
        using pr True False next_capacity_size(3) [OF Cons.prems(1) assms(2)]
        by (cases "ta_capacity A = 0") (auto simp: next_capacity_def unat_eq_0)
      ultimately show ?thesis using pr True tg(2) by simp
    qed
    then obtain us where us: "\<exists>N'. ta_inv g m' c' es A' N' R" "kept_objects m1 m' R"
      "tight_capacity (unat (ta_length A')) (unat (ta_capacity A'))" "prefix us vs"
      "ta_elems m' es A' = ta_elems m1 es A1 @ us" "ok \<longrightarrow> us = vs"
      using Cons.IH [OF i1 _ _ run] Cons.prems(2) by auto
    have "prefix (v # us) (v # vs) \<and> ta_elems m' es A' = ta_elems m es A @ (v # us) \<and> (ok \<longrightarrow> v # us = v # vs)"
      using us(4-6) pr True by simp
    moreover have "kept_objects m m' R" using pr us(2) by (blast intro: kept_objects_trans)
    ultimately show ?thesis using us(1,3) by blast
  qed
qed

end

text \<open>C35: Push. It appends exactly the value to the list of elements, growing the capacity from 0 to 8 or to its double
  when and only when the array is full; a refusal (only of a full array) leaves array and elements as they were. Everything
  else alive in the pool keeps its bytes.\<close>

theorem typed_array_push_correct:
  assumes "bc_core E" "ta_inv g m c es A N R" "unat es \<le> 2 ^ 60" "length v = unat es"
  shows "case typed_array_push E es m c A v of (ok, m', c', A') \<Rightarrow>
    (\<exists>N'. ta_inv g m' c' es A' N' R) \<and> kept_objects m m' R \<and>
    (if ok then ta_elems m' es A' = ta_elems m es A @ [v] \<and>
       ta_capacity A' = (if ta_length A < ta_capacity A then ta_capacity A
         else if ta_capacity A = 0 then 8 else ta_capacity A * 2)
     else A' = A \<and> ta_elems m' es A' = ta_elems m es A \<and> ta_length A = ta_capacity A)"
proof -
  obtain ok m' c' A' where run: "typed_array_push E es m c A v = (ok, m', c', A')" by (metis prod_cases4)
  have "unat es \<le> 1152921504606846976" using assms(3) by simp
  from bc_core.push_ok [OF assms(1,2) this assms(4) run] show ?thesis
    by (auto simp: run push_result_def next_capacity_def)
qed

abbreviation demo_state0 :: "mem \<times> bc_context" where
  "demo_state0 \<equiv> (mc_mem demo_machine, demo_ctx)"

lemma demo_objects0: "pool_since demo_state0 (mc_mem demo_machine) demo_ctx {}"
  unfolding pool_since_now pool_objects_def using demo_inv by blast

theorem typed_array_push_correct_witness:
  "case typed_array_push std_env 16 (mc_mem demo_machine) demo_ctx zero_array (replicate 16 7) of (ok, m', c', A') \<Rightarrow>
    (if ok then ta_elems m' 16 A' = [replicate 16 7] \<and> ta_capacity A' = 8 else A' = zero_array)"
proof -
  have inv: "ta_inv demo_state0 (mc_mem demo_machine) demo_ctx 16 zero_array 0 {}" by (rule zero_array_inv [OF demo_objects0]) simp
  have "case typed_array_push std_env 16 (mc_mem demo_machine) demo_ctx zero_array (replicate 16 7) of (ok, m', c', A') \<Rightarrow>
    (\<exists>N'. ta_inv demo_state0 m' c' 16 A' N' {}) \<and> kept_objects (mc_mem demo_machine) m' {} \<and>
    (if ok then ta_elems m' 16 A' = ta_elems (mc_mem demo_machine) 16 zero_array @ [replicate 16 7] \<and>
       ta_capacity A' = (if ta_length zero_array < ta_capacity zero_array then ta_capacity zero_array
         else if ta_capacity zero_array = 0 then 8 else ta_capacity zero_array * 2)
     else A' = zero_array \<and> ta_elems m' 16 A' = ta_elems (mc_mem demo_machine) 16 zero_array
       \<and> ta_length zero_array = ta_capacity zero_array)"
    by (rule typed_array_push_correct [OF std.bc_core_axioms inv]) simp_all
  moreover have "ta_elems (mc_mem demo_machine) 16 zero_array = []" "\<not> ta_length zero_array < ta_capacity zero_array"
    "ta_capacity zero_array = 0" by (simp_all add: zero_array_def ta_elems_def)
  ultimately show ?thesis by (auto split: if_splits)
qed

text \<open>C36: Building a list. Pushing the values of a list onto a zero-initialised array yields that list, or a prefix of it
  when the pool refuses; the capacity is 0 for no element and otherwise the least \<open>8 * 2 ^ k\<close> that holds the elements, so
  the array has grown at most once per doubling (the header's logarithmic bound). Destroying the result gives its buffer
  back: the pool holds what it held before, and the array is the zero-initialised one.\<close>

theorem typed_array_builds_list:
  assumes "bc_core E" "pool_since g m c R" "0 < unat es" "unat es \<le> 2 ^ 60" "\<forall>v \<in> set vs. length v = unat es"
  shows "case push_all E es m c zero_array vs of (ok, m', c', A') \<Rightarrow>
    (\<exists>N'. ta_inv g m' c' es A' N' R) \<and> kept_objects m m' R \<and> prefix (ta_elems m' es A') vs \<and>
    (ok \<longrightarrow> ta_elems m' es A' = vs) \<and> tight_capacity (unat (ta_length A')) (unat (ta_capacity A')) \<and>
    (case typed_array_destroy m' c' A' of (m2, c2, A2) \<Rightarrow> A2 = zero_array \<and> pool_since g m2 c2 R \<and> kept_objects m m2 R)"
proof -
  obtain ok m' c' A' where run: "push_all E es m c zero_array vs = (ok, m', c', A')" by (metis prod_cases4)
  have inv: "ta_inv g m c es zero_array 0 R" using assms(2,3) by (rule zero_array_inv)
  have es: "unat es \<le> 1152921504606846976" using assms(4) by simp
  have tg: "tight_capacity (unat (ta_length zero_array)) (unat (ta_capacity zero_array))"
    by (simp add: tight_capacity_def zero_array_def)
  note pa = bc_core.push_all_ok [OF assms(1) inv es assms(5) tg run]
  then obtain N' where inv': "ta_inv g m' c' es A' N' R" and k: "kept_objects m m' R" by blast
  obtain m2 c2 A2 where ds: "typed_array_destroy m' c' A' = (m2, c2, A2)" by (metis prod_cases3)
  note d = ta_destroy_ok [OF inv' ds]
  have "kept_objects m m2 R" using k d(3) by (rule kept_objects_trans)
  then show ?thesis using pa d(1,2) by (auto simp: run ds)
qed

theorem typed_array_builds_list_witness:
  "case push_all std_env 2 (mc_mem demo_machine) demo_ctx zero_array [[1, 2], [3, 4], [5, 6]] of (ok, m', c', A') \<Rightarrow>
    prefix (ta_elems m' 2 A') [[1, 2], [3, 4], [5, 6]] \<and>
    (case typed_array_destroy m' c' A' of (m2, c2, A2) \<Rightarrow> A2 = zero_array \<and> pool_since demo_state0 m2 c2 {})"
  using typed_array_builds_list [OF std.bc_core_axioms demo_objects0, of 2 "[[1, 2], [3, 4], [5, 6]]"]
  by (auto split: prod.splits)

text \<open>C37: Bulk append. When twice the resulting length (at least 8) still fits the address space, the doubling loop
  ends and the call appends exactly the elements at the source (an area of another object alive in the pool), or is refused
  with the array and its elements as they were. Everything else alive in the pool keeps its bytes.\<close>

theorem typed_array_append_bulk_correct:
  assumes "bc_core E" "ta_inv g m c es A N R" "in_object src (unat num * unat es) R"
    "max 8 (2 * (unat (ta_length A) + unat num)) * unat es \<le> 2 ^ 63"
  shows "\<exists>ok m' c' A'. typed_array_append_bulk E es m c A src num = Some (ok, m', c', A') \<and>
    (\<exists>N'. ta_inv g m' c' es A' N' R) \<and> kept_objects m m' R \<and>
    (if ok then ta_elems m' es A' = ta_elems m es A @ elems_at m es src (unat num)
     else A' = A \<and> ta_elems m' es A' = ta_elems m es A)"
  using bc_core.append_ok [OF assms(1-3)] assms(4) by (simp add: append_result_def)

lemma demo1_objects: "pool_since (demo1_mem, demo1_ctx) demo1_mem demo1_ctx {(69632, 4096)}"
  unfolding pool_since_now pool_objects_def
  by (rule exI [of _ "{69632}"]) (simp add: demo1_inv pool_object_def demo1_ptr demo1_usable)

theorem typed_array_append_bulk_correct_witness:
  "\<exists>ok m' c' A'. typed_array_append_bulk std_env 8 demo1_mem demo1_ctx zero_array 69640 3 = Some (ok, m', c', A') \<and>
    (if ok then ta_elems m' 8 A' = elems_at demo1_mem 8 69640 3 else A' = zero_array)"
proof -
  have inv: "ta_inv (demo1_mem, demo1_ctx) demo1_mem demo1_ctx 8 zero_array 0 {(69632, 4096)}" by (rule zero_array_inv [OF demo1_objects]) simp
  have src: "in_object 69640 (unat (3 :: u64) * unat (8 :: u64)) {(69632, 4096)}" by (auto simp: in_object_def)
  have "max 8 (2 * (unat (ta_length zero_array) + unat (3 :: u64))) * unat (8 :: u64) \<le> 2 ^ 63" by (simp add: zero_array_def)
  from typed_array_append_bulk_correct [OF std.bc_core_axioms inv src this] obtain ok m' c' A' where
    r: "typed_array_append_bulk std_env 8 demo1_mem demo1_ctx zero_array 69640 3 = Some (ok, m', c', A')"
    "if ok then ta_elems m' 8 A' = ta_elems demo1_mem 8 zero_array @ elems_at demo1_mem 8 69640 (unat (3 :: u64))
     else A' = zero_array \<and> ta_elems m' 8 A' = ta_elems demo1_mem 8 zero_array" by blast
  have "if ok then ta_elems m' 8 A' = elems_at demo1_mem 8 69640 3 else A' = zero_array"
    using r(2) by (simp split: if_splits)
  then show ?thesis using r(1) by blast
qed



end
