(* ===== verification/BC_System.thy ===== *)
theory BC_System
  imports BC_Arena_Trace BC_Pool_Since
begin

text \<open>
  The allocators of one context together. A context holds the pool and the cache of arena blocks; an arena lives in
  mappings of its own. Each side leaves the state of the other as it is: the pool writes only its region and tag table and
  changes only its part of the context, the arena neither. So a program may interleave them in any order.
\<close>

section \<open>The arena does not see the pool\<close>

text \<open>The tag table is mapped, so the memory of the pool lies in the fixed mappings of the context.\<close>

definition tags_mapped :: "bc_context \<Rightarrow> bool" where
  "tags_mapped c \<longleftrightarrow> pool_total c div pool_page c \<le> unat (rg_page_class_size (cx_region c))"

lemma pool_area_mapped: "tags_mapped c \<Longrightarrow> pool_area c \<subseteq> mapped_bytes (fixed_mappings c)"
  by (auto simp: pool_area_def tags_mapped_def mapped_bytes_def fixed_mappings_def)

lemma context_maps_same:
  assumes "pool_shape c' = pool_shape c" "cache_view c' = cache_view c"
  shows "ctx_mappings c' = ctx_mappings c" "fixed_mappings c' = fixed_mappings c" "tags_mapped c' = tags_mapped c"
proof -
  note s = pool_shapeD [OF assms(1)]
  have v: "cx_self c' = cx_self c" "cx_context_mmap_size c' = cx_context_mmap_size c"
    "cx_arena_cache c' = cx_arena_cache c" "cx_arena_cache_count c' = cx_arena_cache_count c"
    using assms(2) by (simp_all add: cache_view_def)
  show "ctx_mappings c' = ctx_mappings c" "fixed_mappings c' = fixed_mappings c" "tags_mapped c' = tags_mapped c"
    by (simp_all add: ctx_mappings_def fixed_mappings_def tags_mapped_def s v)
qed

lemma arena_inv_elsewhere:
  assumes inv: "arena_inv E w c a n0 rs bs" and t: "tags_mapped c"
    and f: "pool_frame (mc_mem w) c m' c'" and v: "cache_view c' = cache_view c"
  shows "arena_inv E (w\<lparr>mc_mem := m'\<rparr>) c' a n0 rs bs" "arena_live m' a rs = arena_live (mc_mem w) a rs"
    "agree (mc_mem w) m' (mapped_bytes ((a, n0) # rs @ bs))"
proof -
  have sh: "pool_shape c' = pool_shape c" and out: "agree (mc_mem w) m' (- pool_area c)"
    using f by (auto simp: pool_frame_def)
  note d = arena_invD [OF inv] and s = pool_shapeD [OF sh] and cm = context_maps_same [OF sh v]
  have "maps_apart (((a, n0) # rs @ bs) @ ctx_mappings c)"
    using world_blocks(2) [OF d(2)] by (simp add: maps_ok_def)
  then have "mapped_bytes ((a, n0) # rs @ bs) \<inter> mapped_bytes (ctx_mappings c) = {}" by (rule maps_apart_append_disjoint)
  then have "pool_area c \<inter> mapped_bytes ((a, n0) # rs @ bs) = {}"
    using pool_area_mapped [OF t] ctx_mappings_fixed [of c] by blast
  then show ag: "agree (mc_mem w) m' (mapped_bytes ((a, n0) # rs @ bs))" by (rule agree_off [OF out])
  have "arena_headers a rs \<subseteq> mapped_bytes ((a, n0) # rs @ bs)"
    using arena_headers_mapped [OF d(1,3)] by (simp add: mapped_bytes_def) blast
  then have "agree (mc_mem w) m' (arena_headers a rs)" by (rule agree_subset [OF ag])
  note rc = arena_rep_cong [OF d(1,3) this]
  show "arena_live m' a rs = arena_live (mc_mem w) a rs" by (rule rc(2))
  have "world E (w\<lparr>mc_mem := m'\<rparr>) c' ((a, n0) # rs @ bs)"
    using d(2) v s(5) cm(1) by (simp add: world_def cache_view_def)
  then show "arena_inv E (w\<lparr>mc_mem := m'\<rparr>) c' a n0 rs bs" using rc(1) by (simp add: arena_inv_def)
qed

section \<open>Where a program starts\<close>

context bc_os
begin

lemma context_create_world:
  assumes run: "bc_allocators_context_create E w config = (Some c, w')" and ok: "maps_ok E (mc_maps w)"
  shows "world E w' c []" "tags_mapped c"
proof -
  obtain ps am pcs cas where s: "platform_get_page_size E = Some ps"
    "context_sizes E (fst (config_values config)) ps = Some (am, pcs, cas)"
    using run by (auto simp: context_create_phases split: option.splits)
  note cs = context_sizes_Some [OF s(1) config_values_pos s(2)]
  have cm: "create_mapped E w ps (am, pcs, cas) (snd (config_values config)) = (Some c, w')"
    using run s by (simp add: context_create_phases)
  obtain ctx w1 where s1: "platform_map E w cas = (Some ctx, w1)"
    using cm by (auto simp: create_mapped_def split: prod.splits option.splits)
  obtain base w2 where s2: "platform_map E w1 am = (Some base, w2)"
    using cm s1 by (auto simp: create_mapped_def split: prod.splits option.splits)
  obtain tab w3 where s3: "platform_map E w2 pcs = (Some tab, w3)"
    using cm s1 s2 by (auto simp: create_mapped_def split: prod.splits option.splits)
  have "maps_ok E (mc_maps w3)"
    using platform_map_maps_ok [OF s3 platform_map_maps_ok [OF s2 platform_map_maps_ok [OF s1 ok]]] .
  moreover have "mc_maps w' = mc_maps w3"
    using cm s1 s2 s3 platform_advise_hugepage(2) by (auto simp: create_mapped_def)
  ultimately have "maps_ok E (mc_maps w')" by simp
  note cc = context_create_Some [OF run]
  show "world E w' c []" using \<open>maps_ok E (mc_maps w')\<close> cc(2,6,10,11) by (simp add: world_def)
  obtain tr cb arg where o: "snd (config_values config) = (tr, cb, arg)" by (metis prod_cases3)
  have "cx_region c = \<lparr>rg_base = base, rg_total_size = am, rg_page_class_size = pcs,
      rg_bump = 0, rg_page_class = tab\<rparr>" "cx_page_size c = ps"
    using cm s1 s2 s3 by (auto simp: create_mapped_def fill_context_def zeroed_context_def Let_def o)
  moreover obtain k where "unat ps = 2 ^ k" using page_size_pow2 [OF s(1)] by metis
  then have "unat am div unat ps \<le> unat pcs" using cs(2) round_up_ge by simp
  ultimately show "tags_mapped c" by (simp add: tags_mapped_def)
qed

text \<open>The mappings of a new context are apart from those that were there.\<close>

lemma context_create_apart:
  assumes run: "bc_allocators_context_create E w config = (Some c, w')" and ok: "maps_ok E (mc_maps w)"
  shows "mapped_bytes (mc_maps w) \<inter> mapped_bytes (ctx_mappings c) = {}" "world E w' c (mc_maps w)"
proof -
  note cc = context_create_Some [OF run] and W = context_create_world(1) [OF run ok]
  have "maps_apart (mc_maps w @ rev (ctx_mappings c))" using W cc(2) by (simp add: world_def maps_ok_def)
  from maps_apart_append_disjoint [OF this]
  show "mapped_bytes (mc_maps w) \<inter> mapped_bytes (ctx_mappings c) = {}" by (simp add: mapped_bytes_def)
  show "world E w' c (mc_maps w)" using W cc(2) by (simp add: world_def)
qed

lemma context_round_trip:
  assumes create: "bc_allocators_context_create E w config = (Some c, w1)" and ok: "maps_ok E (mc_maps w)"
    and f: "pool_frame (mc_mem w1) c m' c'" and v: "cache_view c' = cache_view c"
    and w': "w' = bc_allocators_context_destroy E (w1\<lparr>mc_mem := m'\<rparr>) c'"
  shows "mset (mc_maps w') = mset (mc_maps w)" "agree (mc_mem w) (mc_mem w') (mapped_bytes (mc_maps w))"
proof -
  note cc = context_create_Some [OF create]
  have sh: "pool_shape c' = pool_shape c" using f by (simp add: pool_frame_def)
  have "mset (ctx_mappings c') \<subseteq># mset (mc_maps (w1\<lparr>mc_mem := m'\<rparr>))"
    using context_maps_same(1) [OF sh v] cc(2) by simp
  note d = context_destroy_maps [OF this, folded w']
  show "mset (mc_maps w') = mset (mc_maps w)" using d(1) context_maps_same(1) [OF sh v] cc(2) by simp
  have "pool_area c \<inter> mapped_bytes (mc_maps w) = {}"
    using pool_area_mapped [OF context_create_world(2) [OF create ok]] ctx_mappings_fixed [of c]
      context_create_apart(1) [OF create ok] by blast
  then have "agree (mc_mem w1) m' (mapped_bytes (mc_maps w))"
    using f unfolding pool_frame_def by (blast intro: agree_off)
  then show "agree (mc_mem w) (mc_mem w') (mapped_bytes (mc_maps w))" using cc(3) d(2) by (auto intro: agree_trans)
qed

end

section \<open>The counters behind the leak report\<close>

text \<open>Of the arena's only creation and destruction do.\<close>

lemma leak_view_tracked [simp]: "leak_view (track_mapped c n) = leak_view c" "leak_view (track_unmapped c n) = leak_view c"
  by (simp_all add: leak_view_def leak_setup_def track_mapped_def track_unmapped_def Let_def)

lemma leak_view_map_block: "arena_map_block E w c n = (r, w', c') \<Longrightarrow> leak_view c' = leak_view c"
  by (auto simp: arena_map_block_def leak_view_def leak_setup_def split: option.splits prod.splits)

lemma leak_view_release_block: "leak_view (snd (arena_release_block E w c b n)) = leak_view c"
  by (simp add: arena_release_block_def leak_view_def leak_setup_def)

lemma leak_view_grow: "arena_grow E w c a n = (r, w', c') \<Longrightarrow> leak_view c' = leak_view c"
  by (auto simp: arena_grow_def Let_def dest: leak_view_map_block split: option.splits prod.splits)

lemma leak_view_arena_allocate: "bc_allocators_arena_allocate E w c a sz al = (r, w', c') \<Longrightarrow> leak_view c' = leak_view c"
  by (auto simp: bc_allocators_arena_allocate_def dest: leak_view_grow split: if_splits option.splits prod.splits bool.splits)

lemma leak_view_release_chunks:
  assumes "release_chunks E ch w c = Some r"
  shows "leak_view (snd r) = leak_view c"
proof (rule release_chunks.raw_induct [where P = "\<lambda>E ch w c r. leak_view (snd r) = leak_view c", OF _ assms])
  fix rc E ch w c and r :: "machine \<times> bc_context"
  assume "\<And>E ch w c r. rc E ch w c = Some r \<Longrightarrow> leak_view (snd r) = leak_view c"
    and "(if ch = NULL then Some (w, c)
       else let next = chunk_next (mc_mem w) ch; mmap_size = chunk_mmap_size (mc_mem w) ch;
                c1 = track_unmapped c mmap_size; s = arena_release_block E w c1 ch mmap_size
            in rc E next (fst s) (snd s)) = Some r"
  then show "leak_view (snd r) = leak_view c"
    by (fastforce simp: Let_def leak_view_release_block split: if_splits)
qed

lemma leak_view_arena_reset: "bc_allocators_arena_reset E w c a = Some (w', c') \<Longrightarrow> leak_view c' = leak_view c"
  by (auto simp: bc_allocators_arena_reset_def Let_def dest: leak_view_release_chunks split: option.splits prod.splits)

lemma leak_view_reset_secure: "bc_allocators_arena_reset_secure E w c a = Some (w', c') \<Longrightarrow> leak_view c' = leak_view c"
  by (auto simp: bc_allocators_arena_reset_secure_def dest: leak_view_arena_reset split: option.splits)

lemma leak_setup_count [simp]:
  "leak_setup (c\<lparr>cx_arena_destroy_count := n\<rparr>) = leak_setup c" "leak_setup (c\<lparr>cx_arena_create_count := n\<rparr>) = leak_setup c"
  by (simp_all add: leak_setup_def)

lemma leak_setup_tracked [simp]: "leak_setup (track_mapped c n) = leak_setup c" "leak_setup (track_unmapped c n) = leak_setup c"
  by (rule leak_view_setup, simp)+

lemma leak_setup_arena_destroy: "bc_allocators_arena_destroy E w c a = Some (w', c') \<Longrightarrow> leak_setup c' = leak_setup c"
proof -
  assume run: "bc_allocators_arena_destroy E w c a = Some (w', c')"
  then obtain w1 c1 n where r: "release_chunks E (chunk_next (mc_mem w) (arena_first_chunk (mc_mem w) a)) w c = Some (w1, c1)"
    and d: "c' = snd (arena_release_block E w1 (track_unmapped (if cx_tracking_enabled c1
      then c1\<lparr>cx_arena_destroy_count := cx_arena_destroy_count c1 + 1\<rparr> else c1) n) a n)"
    by (fastforce simp: bc_allocators_arena_destroy_def Let_def split: option.splits prod.splits dest: arg_cong [of _ _ snd])
  have "leak_setup c' = leak_setup c1" unfolding d leak_view_setup [OF leak_view_release_block] by simp
  then show "leak_setup c' = leak_setup c" using leak_view_setup [OF leak_view_release_chunks [OF r]] by simp
qed

lemma leak_setup_make_first: "arena_make_first E w c cap ini mx g = (r, w', c') \<Longrightarrow> leak_setup c' = leak_setup c"
  by (auto simp: arena_make_first_def Let_def dest!: leak_view_map_block [THEN leak_view_setup] split: if_splits option.splits prod.splits)

lemma make_first_destroy_count:
  "arena_make_first E w c cap ini mx g = (r, w', c') \<Longrightarrow> cx_arena_destroy_count c' = cx_arena_destroy_count c"
  by (auto simp: arena_make_first_def Let_def leak_view_def track_mapped_def dest!: leak_view_map_block
      split: if_splits option.splits prod.splits)

end
