(* ===== verification/BC_Fuzz.thy ===== *)
theory BC_Fuzz
  imports BC_System
begin

text \<open>
  The fuzz drivers, \<^verbatim>\<open>fuzzing/fuzz_bc_allocators_pool.c\<close> and \<^verbatim>\<open>fuzzing/fuzz_bc_allocators_arena.c\<close>: programs that read a byte
  string as a sequence of calls of the library. \<open>fuzz_loop\<close> is the loop over the input, three bytes at a time, that both
  share; the \<open>main\<close> of each feeds random strings to its driver, with \<^verbatim>\<open>rand\<close> and \<^verbatim>\<open>srand\<close> as parameters that thread the
  state of the generator; \<^verbatim>\<open>strtoul\<close> is the one of the C standard, with base 10. Here
  the definitions and what one step of the pool driver keeps.
\<close>

section \<open>The loop and the random source\<close>

function fuzz_loop :: "(nat \<Rightarrow> 's \<Rightarrow> 's) \<Rightarrow> nat \<Rightarrow> nat \<Rightarrow> 's \<Rightarrow> 's" where
  "fuzz_loop body n i s = (if i + 2 < n then fuzz_loop body n (i + 3) (body i s) else s)"
  by pat_completeness auto

termination by (relation "measure (\<lambda>(_, n, i, _). n - i)") auto

declare fuzz_loop.simps [simp del]

lemma fuzz_loop_invariant:
  assumes "P s" "\<And>i s. i + 2 < n \<Longrightarrow> P s \<Longrightarrow> P (body i s)"
  shows "P (fuzz_loop body n i s)"
  using assms
proof (induction body n i s rule: fuzz_loop.induct)
  case (1 body n i s)
  show ?case
  proof (cases "i + 2 < n")
    case True
    have "P (fuzz_loop body n (i + 3) (body i s))" by (rule 1(1) [OF True 1(3) [OF True 1(2)] 1(3)])
    then show ?thesis using True by (subst fuzz_loop.simps) simp
  next
    case False
    then show ?thesis using 1(2) by (subst fuzz_loop.simps) simp
  qed
qed

fun random_bytes :: "('g \<Rightarrow> nat \<times> 'g) \<Rightarrow> nat \<Rightarrow> 'g \<Rightarrow> u8 list \<times> 'g" where
  "random_bytes rand 0 g = ([], g)"
| "random_bytes rand (Suc n) g =
     (case rand g of (r, g1) \<Rightarrow>
       (case random_bytes rand n g1 of (bs, g2) \<Rightarrow> (of_nat (r mod 256) # bs, g2)))"

fun fuzz_iterations :: "('g \<Rightarrow> nat \<times> 'g) \<Rightarrow> ('s \<Rightarrow> u8 list \<Rightarrow> 's) \<Rightarrow> nat \<Rightarrow> 'g \<Rightarrow> 's \<Rightarrow> 's" where
  "fuzz_iterations rand one_input 0 g s = s"
| "fuzz_iterations rand one_input (Suc n) g s =
     (case rand g of (r, g1) \<Rightarrow>
       (case random_bytes rand (r mod 2048) g1 of (buffer, g2) \<Rightarrow>
          fuzz_iterations rand one_input n g2 (one_input s buffer)))"

lemma fuzz_iterations_invariant:
  assumes "P s" "\<And>s data. P s \<Longrightarrow> P (one_input s data)"
  shows "P (fuzz_iterations rand one_input n g s)"
  using assms
  by (induction rand one_input n g s rule: fuzz_iterations.induct) (simp_all split: prod.split)

text \<open>\<^verbatim>\<open>strtoul\<close>: leading white space, an optional sign, digits; \<^verbatim>\<open>ULONG_MAX\<close> when the number is out of range.\<close>

fun decimal :: "nat \<Rightarrow> string \<Rightarrow> nat" where
  "decimal n [] = n"
| "decimal n (x # xs) =
     (let d = (of_char x :: nat) in if 48 \<le> d \<and> d \<le> 57 then decimal (n * 10 + (d - 48)) xs else n)"

definition strtoul :: "string \<Rightarrow> u64" where
  "strtoul s =
     (let s1 = dropWhile (\<lambda>x. x = CHR '' '' \<or> of_char x \<in> {9 .. 13 :: nat}) s;
          neg = (s1 \<noteq> [] \<and> hd s1 = CHR ''-'');
          s2 = (if s1 \<noteq> [] \<and> (hd s1 = CHR ''-'' \<or> hd s1 = CHR ''+'') then tl s1 else s1);
          n = decimal 0 s2
      in if 18446744073709551615 < n then - 1 else if neg then - of_nat n else of_nat n)"

section \<open>The pool driver\<close>

definition FUZZ_MAX_LIVE :: u64 where
  "FUZZ_MAX_LIVE = 128"

record fuzz_live =
  fz_live :: "u64 list"
  fz_live_sizes :: "u64 list"
  fz_live_count :: u64

definition fuzz_pool_requested :: "u8 \<Rightarrow> u8 \<Rightarrow> u64" where
  "fuzz_pool_requested d1 d2 =
     (let requested = push_bit 4 (ucast d1) OR ucast d2;
          requested1 = (if requested = 0 then 1 else requested)
      in if requested1 > push_bit 20 4 then push_bit 20 4 else requested1)"

type_synonym fuzz_pool_state = "mem \<times> bc_context \<times> fuzz_live"

definition fuzz_pool_step :: "env \<Rightarrow> u8 list \<Rightarrow> nat \<Rightarrow> fuzz_pool_state \<Rightarrow> fuzz_pool_state" where
  "fuzz_pool_step E data i s =
     (case s of (m, c, f) \<Rightarrow>
        let op = data ! i AND 3;
            requested = fuzz_pool_requested (data ! (i + 1)) (data ! (i + 2));
            n = fz_live_count f
        in if op = 0 \<and> n < FUZZ_MAX_LIVE then
             (case bc_allocators_pool_allocate E m c requested of
                (None, m1, c1) \<Rightarrow> (m1, c1, f)
              | (Some ptr, m1, c1) \<Rightarrow>
                  if ptr \<noteq> NULL then
                    (m1, c1, f\<lparr>fz_live := (fz_live f)[unat n := ptr],
                               fz_live_sizes := (fz_live_sizes f)[unat n := requested],
                               fz_live_count := n + 1\<rparr>)
                  else (m1, c1, f))
           else if op = 1 \<and> n > 0 then
             let idx = unat (ucast (data ! (i + 1)) mod n)
             in case bc_allocators_pool_reallocate E m c (fz_live f ! idx) requested of
                  (None, m1, c1) \<Rightarrow> (m1, c1, f)
                | (Some new_ptr, m1, c1) \<Rightarrow>
                    if new_ptr \<noteq> NULL then
                      (m1, c1, f\<lparr>fz_live := (fz_live f)[idx := new_ptr],
                                 fz_live_sizes := (fz_live_sizes f)[idx := requested]\<rparr>)
                    else (m1, c1, f)
           else if op = 2 \<and> n > 0 then
             let idx = unat (ucast (data ! (i + 1)) mod n)
             in case bc_allocators_pool_free m c (fz_live f ! idx) of
                  (m1, c1) \<Rightarrow>
                    (m1, c1, f\<lparr>fz_live := (fz_live f)[idx := fz_live f ! unat (n - 1)],
                               fz_live_sizes := (fz_live_sizes f)[idx := fz_live_sizes f ! unat (n - 1)],
                               fz_live_count := n - 1\<rparr>)
           else (m, c, f))"

definition fuzz_live_start :: fuzz_live where
  "fuzz_live_start =
     \<lparr>fz_live = replicate 128 NULL, fz_live_sizes = replicate 128 0, fz_live_count = 0\<rparr>"

definition fuzz_pool_loop :: "env \<Rightarrow> u8 list \<Rightarrow> mem \<Rightarrow> bc_context \<Rightarrow> fuzz_pool_state" where
  "fuzz_pool_loop E data m c = fuzz_loop (fuzz_pool_step E data) (length data) 0 (m, c, fuzz_live_start)"

definition fuzz_pool_free_all :: "fuzz_pool_state \<Rightarrow> mem \<times> bc_context" where
  "fuzz_pool_free_all s =
     (case s of (m, c, f) \<Rightarrow>
        fold (\<lambda>j (m, c). bc_allocators_pool_free m c (fz_live f ! j)) [0 ..< unat (fz_live_count f)] (m, c))"

definition fuzz_pool_one_input :: "env \<Rightarrow> machine \<Rightarrow> u8 list \<Rightarrow> int \<times> machine" where
  "fuzz_pool_one_input E w data =
     (case bc_allocators_context_create E w None of
        (None, w1) \<Rightarrow> (0, w1)
      | (Some ctx, w1) \<Rightarrow>
          (case fuzz_pool_free_all (fuzz_pool_loop E data (mc_mem w1) ctx) of
             (m, c) \<Rightarrow> (0, bc_allocators_context_destroy E (w1\<lparr>mc_mem := m\<rparr>) c)))"

definition fuzz_pool_main ::
  "env \<Rightarrow> ('g \<Rightarrow> nat \<times> 'g) \<Rightarrow> (32 word \<Rightarrow> 'g) \<Rightarrow> string list \<Rightarrow> machine \<Rightarrow> int \<times> machine" where
  "fuzz_pool_main E rand srand argv w =
     (if length argv < 2 then (2, w)
      else
        let iterations = strtoul (argv ! 1);
            seed = (if length argv \<ge> 3 then strtoul (argv ! 2) else 0)
        in (0, fuzz_iterations rand (\<lambda>w buffer. snd (fuzz_pool_one_input E w buffer)) (unat iterations)
                 (srand (ucast seed)) w))"

section \<open>What the pool driver keeps\<close>

text \<open>The first \<open>fz_live_count\<close> entries of the driver's table are exactly the objects the pool holds, each once, each with at
  least the recorded size; the indices it uses stay inside the table.\<close>

definition fuzz_table_ok :: "fuzz_live \<Rightarrow> (u64 \<Rightarrow> nat) \<Rightarrow> bool" where
  "fuzz_table_ok f k \<longleftrightarrow>
     length (fz_live f) = 128 \<and> length (fz_live_sizes f) = 128 \<and> unat (fz_live_count f) \<le> 128 \<and>
     distinct (take (unat (fz_live_count f)) (fz_live f)) \<and>
     (\<forall>i < unat (fz_live_count f). unat (fz_live_sizes f ! i) \<le> k (fz_live f ! i))"

definition fuzz_objects :: "fuzz_live \<Rightarrow> (u64 \<Rightarrow> nat) \<Rightarrow> objects" where
  "fuzz_objects f k = table_objects k (take (unat (fz_live_count f)) (fz_live f))"

definition fuzz_pool_inv :: "mem \<Rightarrow> bc_context \<Rightarrow> fuzz_pool_state \<Rightarrow> bool" where
  "fuzz_pool_inv m0 c0 s \<longleftrightarrow>
     (case s of (m, c, f) \<Rightarrow>
       (\<exists>k. fuzz_table_ok f k \<and> pool_objects m c (fuzz_objects f k)) \<and>
       pool_frame m0 c0 m c \<and> cache_view c = cache_view c0)"

lemma swap_remove:
  assumes "distinct xs" "i < length xs" "n = length xs - 1"
  shows "distinct (take n (xs[i := xs ! n]))" "set (take n (xs[i := xs ! n])) = set xs - {xs ! i}"
proof -
  obtain ys l where xs: "xs = ys @ [l]" using assms(2) by (cases xs rule: rev_cases) auto
  have d: "distinct ys" "l \<notin> set ys" and n: "n = length ys" using assms(1,3) xs by auto
  show "distinct (take n (xs[i := xs ! n]))" "set (take n (xs[i := xs ! n])) = set xs - {xs ! i}"
  proof (atomize (full), cases "i = length ys")
    case False
    then have i: "i < length ys" using assms(2) xs by simp
    have "take n (xs[i := xs ! n]) = ys[i := l]" using i n by (simp add: xs list_update_append)
    moreover have "ys ! i \<noteq> l" using d i by auto
    ultimately show "distinct (take n (xs[i := xs ! n])) \<and> set (take n (xs[i := xs ! n])) = set xs - {xs ! i}"
      using d i by (auto simp: xs nth_append set_update_distinct intro: distinct_list_update)
  qed (use d n in \<open>simp add: xs\<close>)
qed

lemma fuzz_pool_requested_bound: "unat (fuzz_pool_requested d1 d2) \<le> 9223372036854775808"
proof -
  have "fuzz_pool_requested d1 d2 \<le> 4194304"
    by (simp add: fuzz_pool_requested_def Let_def not_less push_bit_eq_mult)
  then have "unat (fuzz_pool_requested d1 d2) \<le> 4194304" by (simp add: word_le_nat_alt)
  then show ?thesis by simp
qed

text \<open>The three changes of the table.\<close>

lemma table_push:
  assumes t: "fuzz_table_ok f k" and n: "fz_live_count f < FUZZ_MAX_LIVE" and q: "q \<notin> fst ` fuzz_objects f k" "unat sz \<le> z"
    and f': "f' = f\<lparr>fz_live := (fz_live f)[unat (fz_live_count f) := q],
      fz_live_sizes := (fz_live_sizes f)[unat (fz_live_count f) := sz], fz_live_count := fz_live_count f + 1\<rparr>"
  shows "fuzz_table_ok f' (k(q := z))" "fuzz_objects f' (k(q := z)) = insert (q, z) (fuzz_objects f k)"
proof -
  define n where "n = unat (fz_live_count f)"
  have n128: "n < 128" using n by (simp add: n_def FUZZ_MAX_LIVE_def word_less_nat_alt)
  then have n1: "unat (fz_live_count f + 1) = Suc n" unfolding n_def by (simp add: unat_word_ariths)
  note t' = t [unfolded fuzz_table_ok_def, folded n_def]
  have tk: "take (Suc n) ((fz_live f)[n := q]) = take n (fz_live f) @ [q]"
    using n128 t' by (simp add: take_Suc_conv_app_nth)
  have fresh: "q \<notin> set (take n (fz_live f))" using q(1) by (simp add: fuzz_objects_def n_def)
  have "q \<noteq> fz_live f ! i" if "i < n" for i
    using fresh that n128 t' by (auto simp: in_set_conv_nth)
  then show "fuzz_table_ok f' (k(q := z))"
    using t' n128 fresh q(2) unfolding f' fuzz_table_ok_def
    by (auto simp: n1 tk n_def [symmetric] nth_list_update less_Suc_eq)
  show "fuzz_objects f' (k(q := z)) = insert (q, z) (fuzz_objects f k)"
    unfolding fuzz_objects_def f' by (simp add: n1 n_def [symmetric] tk) (rule table_objects_upd [OF fresh], simp)
qed

lemma table_replace:
  assumes t: "fuzz_table_ok f k" and i: "i < unat (fz_live_count f)"
    and q: "q \<notin> fst ` (fuzz_objects f k - {(fz_live f ! i, k (fz_live f ! i))})" "unat sz \<le> z"
    and f': "f' = f\<lparr>fz_live := (fz_live f)[i := q], fz_live_sizes := (fz_live_sizes f)[i := sz]\<rparr>"
  shows "fuzz_table_ok f' (k(q := z))"
    "fuzz_objects f' (k(q := z)) = insert (q, z) (fuzz_objects f k - {(fz_live f ! i, k (fz_live f ! i))})"
proof -
  define n where "n = unat (fz_live_count f)"
  define xs where "xs = take n (fz_live f)"
  note t' = t [unfolded fuzz_table_ok_def, folded n_def]
  have in_n: "i < n" using i by (simp add: n_def)
  have x: "distinct xs" "i < length xs" "xs ! i = fz_live f ! i" "length xs = n"
    using t' in_n by (auto simp: xs_def)
  have tk: "take n ((fz_live f)[i := q]) = xs[i := q]" by (simp add: xs_def take_update_swap)
  have "fuzz_objects f k - {(fz_live f ! i, k (fz_live f ! i))} = table_objects k (remove1 (fz_live f ! i) xs)"
    unfolding fuzz_objects_def n_def [symmetric] xs_def [symmetric]
    by (rule table_objects_remove [symmetric]) (use x(1) in simp)
  note ob = this
  have fresh: "q \<notin> set (remove1 (fz_live f ! i) xs)" using q(1) unfolding ob by simp
  have st: "set (remove1 (fz_live f ! i) xs) = set xs - {xs ! i}" using x(1,3) by simp
  have dis: "distinct (xs[i := q])" by (rule distinct_list_update [OF x(1)]) (use fresh st in simp)
  have "fz_live f ! j \<noteq> q" if "j < n" "j \<noteq> i" for j
  proof -
    have "xs ! j \<noteq> xs ! i" using nth_eq_iff_index_eq [OF x(1), of j i] that x(2,4) by simp
    then have "xs ! j \<in> set xs - {xs ! i}" using that x by simp
    then show ?thesis using fresh st that(1) by (auto simp: xs_def)
  qed
  then show "fuzz_table_ok f' (k(q := z))"
    using t' dis q(2) in_n unfolding f' fuzz_table_ok_def by (auto simp: n_def [symmetric] tk nth_list_update)
  have "set (xs[i := q]) = insert q (set (remove1 (fz_live f ! i) xs))"
    using st by (simp add: set_update_distinct [OF x(1,2)])
  from table_objects_upd [OF fresh this]
  show "fuzz_objects f' (k(q := z)) = insert (q, z) (fuzz_objects f k - {(fz_live f ! i, k (fz_live f ! i))})"
    unfolding ob by (simp add: fuzz_objects_def f' n_def [symmetric] tk)
qed

lemma table_drop:
  assumes t: "fuzz_table_ok f k" and i: "i < unat (fz_live_count f)"
    and f': "f' = f\<lparr>fz_live := (fz_live f)[i := fz_live f ! unat (fz_live_count f - 1)],
      fz_live_sizes := (fz_live_sizes f)[i := fz_live_sizes f ! unat (fz_live_count f - 1)],
      fz_live_count := fz_live_count f - 1\<rparr>"
  shows "fuzz_table_ok f' k" "fuzz_objects f' k = fuzz_objects f k - {(fz_live f ! i, k (fz_live f ! i))}"
proof -
  define n where "n = unat (fz_live_count f)"
  define xs where "xs = take n (fz_live f)"
  note t' = t [unfolded fuzz_table_ok_def, folded n_def]
  have in_n: "i < n" using i by (simp add: n_def)
  then have n1: "unat (fz_live_count f - 1) = n - 1" unfolding n_def by (simp add: unat_sub word_le_nat_alt)
  have x: "distinct xs" "i < length xs" "xs ! i = fz_live f ! i" "length xs = n" "xs ! (n - 1) = fz_live f ! (n - 1)"
    using t' in_n by (auto simp: xs_def)
  have tk: "take (n - 1) ((fz_live f)[i := fz_live f ! (n - 1)]) = take (n - 1) (xs[i := xs ! (n - 1)])"
    unfolding x(5) by (simp add: xs_def take_update_swap min_def)
  note sr = swap_remove [OF x(1,2), of "n - 1"]
  have "unat (fz_live_sizes f ! j) \<le> k (fz_live f ! j)" if "j < n" for j using t' that by blast
  moreover have "distinct (take (n - 1) ((fz_live f)[i := fz_live f ! (n - 1)]))" unfolding tk by (rule sr(1)) (simp add: x(4))
  ultimately show "fuzz_table_ok f' k"
    using t' in_n unfolding f' fuzz_table_ok_def by (auto simp: n1 nth_list_update)
  have "set (take (n - 1) (xs[i := xs ! (n - 1)])) = set xs - {fz_live f ! i}" using sr(2) x by simp
  note rem = table_objects_remove [OF this]
  have "fuzz_objects f' k = table_objects k (take (n - 1) ((fz_live f)[i := fz_live f ! (n - 1)]))"
    by (simp add: fuzz_objects_def f' n1)
  also have "\<dots> = table_objects k xs - {(fz_live f ! i, k (fz_live f ! i))}" unfolding tk by (rule rem)
  finally show "fuzz_objects f' k = fuzz_objects f k - {(fz_live f ! i, k (fz_live f ! i))}"
    by (simp add: fuzz_objects_def n_def [symmetric] xs_def)
qed

text \<open>One step of the driver, and the frees at the end.\<close>

context bc_core
begin

text \<open>The table and the pool after a call that keeps everything else.\<close>

lemma fuzz_pool_invI:
  assumes "fuzz_table_ok f k" "pool_objects m1 c1 (fuzz_objects f k)" "pool_frame m c m1 c1" "cache_view c1 = cache_view c"
    and "pool_frame m0 c0 m c" "cache_view c = cache_view c0"
  shows "fuzz_pool_inv m0 c0 (m1, c1, f)"
  using assms(1,2,4,6) pool_frame_trans [OF assms(5,3)] by (auto simp: fuzz_pool_inv_def)

lemma fuzz_allocate_keeps:
  assumes k: "fuzz_table_ok f k" "pool_objects m c (fuzz_objects f k)"
    and fr: "pool_frame m0 c0 m c" "cache_view c = cache_view c0"
    and sz: "unat r \<le> 9223372036854775808" and room: "fz_live_count f < FUZZ_MAX_LIVE"
    and run: "bc_allocators_pool_allocate E m c r = (p, m1, c1)"
  shows "fuzz_pool_inv m0 c0 (m1, c1, case p of None \<Rightarrow> f | Some q \<Rightarrow>
    f\<lparr>fz_live := (fz_live f)[unat (fz_live_count f) := q],
      fz_live_sizes := (fz_live_sizes f)[unat (fz_live_count f) := r], fz_live_count := fz_live_count f + 1\<rparr>)
    \<and> p \<noteq> Some NULL"
proof -
  note fc = pool_allocate_frame [OF k(2) sz run] cache_view_allocate [OF run]
  show ?thesis
  proof (cases p)
    case None
    have "pool_objects m1 c1 (fuzz_objects f k)" using pool.alloc_None [OF k(2) sz run [unfolded None]] by blast
    from fuzz_pool_invI [OF k(1) this fc fr] show ?thesis by (simp add: None)
  next
    case (Some q)
    obtain z where z: "unat r \<le> z" "q \<notin> fst ` fuzz_objects f k" "pool_objects m1 c1 (insert (q, z) (fuzz_objects f k))"
      using pool.alloc_Some [OF k(2) sz run [unfolded Some]] by blast
    note tp = table_push [OF k(1) room z(2,1) refl]
    from fuzz_pool_invI [OF tp(1) _ fc fr] z(3) tp(2) pool_store_bounds [OF z(3), of q z] show ?thesis by (simp add: Some)
  qed
qed

lemma fuzz_reallocate_keeps:
  assumes k: "fuzz_table_ok f k" "pool_objects m c (fuzz_objects f k)"
    and fr: "pool_frame m0 c0 m c" "cache_view c = cache_view c0"
    and sz: "unat r \<le> 9223372036854775808" and j: "j < unat (fz_live_count f)"
      "(fz_live f ! j, k (fz_live f ! j)) \<in> fuzz_objects f k"
    and run: "bc_allocators_pool_reallocate E m c (fz_live f ! j) r = (p, m1, c1)"
  shows "fuzz_pool_inv m0 c0 (m1, c1, case p of None \<Rightarrow> f | Some q \<Rightarrow>
    f\<lparr>fz_live := (fz_live f)[j := q], fz_live_sizes := (fz_live_sizes f)[j := r]\<rparr>)
    \<and> p \<noteq> Some NULL"
proof -
  note fc = pool_reallocate_frame [OF k(2) j(2) sz run] cache_view_reallocate [OF run]
  show ?thesis
  proof (cases p)
    case None
    have "pool_objects m1 c1 (fuzz_objects f k)" using pool.resize_None [OF k(2) j(2) sz run [unfolded None]] by blast
    from fuzz_pool_invI [OF k(1) this fc fr] show ?thesis by (simp add: None)
  next
    case (Some q)
    obtain z where z: "unat r \<le> z" "q \<notin> fst ` (fuzz_objects f k - {(fz_live f ! j, k (fz_live f ! j))})"
      "pool_objects m1 c1 (insert (q, z) (fuzz_objects f k - {(fz_live f ! j, k (fz_live f ! j))}))"
      using pool.resize_Some [OF k(2) j(2) sz run [unfolded Some]] by blast
    note tp = table_replace [OF k(1) j(1) z(2,1) refl]
    from fuzz_pool_invI [OF tp(1) _ fc fr] z(3) tp(2) pool_store_bounds [OF z(3), of q z] show ?thesis by (simp add: Some)
  qed
qed

lemma fuzz_pool_step_keeps:
  assumes inv: "fuzz_pool_inv m0 c0 s"
  shows "fuzz_pool_inv m0 c0 (fuzz_pool_step E data i s)"
proof -
  obtain m c f where s: "s = (m, c, f)" by (metis prod_cases3)
  obtain k where k: "fuzz_table_ok f k" "pool_objects m c (fuzz_objects f k)" and fr: "pool_frame m0 c0 m c"
    "cache_view c = cache_view c0" using inv by (auto simp: fuzz_pool_inv_def s)
  define r where "r = fuzz_pool_requested (data ! Suc i) (data ! Suc (Suc i))"
  define j where "j = unat (ucast (data ! Suc i) mod fz_live_count f)"
  note sz = fuzz_pool_requested_bound [of "data ! Suc i" "data ! Suc (Suc i)", folded r_def]
  have j: "j < unat (fz_live_count f)" "(fz_live f ! j, k (fz_live f ! j)) \<in> fuzz_objects f k" if "fz_live_count f > 0"
  proof -
    have "0 < unat (fz_live_count f)" using that by (simp add: word_less_nat_alt)
    then show lt: "j < unat (fz_live_count f)" by (simp add: j_def unat_mod)
    then show "(fz_live f ! j, k (fz_live f ! j)) \<in> fuzz_objects f k"
      using k(1) by (force simp: fuzz_objects_def table_objects_def fuzz_table_ok_def in_set_conv_nth)
  qed
  consider (alloc) "data ! i AND 3 = 0" "fz_live_count f < FUZZ_MAX_LIVE" | (realloc) "data ! i AND 3 = 1" "fz_live_count f > 0"
    | (free) "data ! i AND 3 = 2" "fz_live_count f > 0" | (skip) "fuzz_pool_step E data i s = s"
    by (fastforce simp: fuzz_pool_step_def s Let_def)
  then show ?thesis
  proof cases
    case alloc
    obtain p m1 c1 where run: "bc_allocators_pool_allocate E m c r = (p, m1, c1)" by (metis prod_cases3)
    from fuzz_allocate_keeps [OF k fr sz alloc(2) run] show ?thesis
      using alloc run by (cases p) (auto simp: fuzz_pool_step_def s Let_def r_def [symmetric])
  next
    case realloc
    obtain p m1 c1 where run: "bc_allocators_pool_reallocate E m c (fz_live f ! j) r = (p, m1, c1)" by (metis prod_cases3)
    from fuzz_reallocate_keeps [OF k fr sz j [OF realloc(2)] run] show ?thesis
      using realloc run by (cases p) (auto simp: fuzz_pool_step_def s Let_def r_def [symmetric] j_def [symmetric])
  next
    case free
    note jj = j [OF free(2)]
    obtain m1 c1 where run: "bc_allocators_pool_free m c (fz_live f ! j) = (m1, c1)" by fastforce
    note tp = table_drop [OF k(1) jj(1) refl]
    have "pool_objects m1 c1 (fuzz_objects f k - {(fz_live f ! j, k (fz_live f ! j))})"
      using pool.release [OF k(2) jj(2) run] by blast
    from fuzz_pool_invI [OF tp(1) this [folded tp(2)] pool_free_frame [OF k(2) jj(2) run] cache_view_free [OF run] fr]
    show ?thesis using free run by (simp add: fuzz_pool_step_def s Let_def j_def [symmetric])
  qed (simp add: inv)
qed

lemma free_list_of_objects:
  assumes "pool_objects m c (table_objects k ps)" "distinct ps" "pool_frame m0 c0 m c" "cache_view c = cache_view c0"
    and "fold (\<lambda>p (m, c). bc_allocators_pool_free m c p) ps (m, c) = (m', c')"
  shows "pool_objects m' c' {} \<and> pool_frame m0 c0 m' c' \<and> cache_view c' = cache_view c0"
  using assms
proof (induction ps arbitrary: m c)
  case (Cons p ps)
  obtain m1 c1 where run: "bc_allocators_pool_free m c p = (m1, c1)" by fastforce
  have mem: "(p, k p) \<in> table_objects k (p # ps)" by (simp add: table_objects_def)
  have "table_objects k ps = table_objects k (p # ps) - {(p, k p)}"
    by (rule table_objects_remove) (use Cons.prems(2) in auto)
  then have h: "pool_objects m1 c1 (table_objects k ps)" using pool.release [OF Cons.prems(1) mem run] by simp
  have f: "pool_frame m0 c0 m1 c1" by (rule pool_frame_trans [OF Cons.prems(3) pool_free_frame [OF Cons.prems(1) mem run]])
  have v: "cache_view c1 = cache_view c0" using Cons.prems(4) cache_view_free [OF run] by simp
  show ?case by (rule Cons.IH [OF h _ f v]) (use Cons.prems(2,5) run in simp_all)
qed simp

lemma fuzz_pool_loop_inv:
  assumes "pool_objects m c {}"
  shows "fuzz_pool_inv m c (fuzz_pool_loop E data m c)"
proof -
  have "fuzz_table_ok fuzz_live_start (\<lambda>_. 0)" "fuzz_objects fuzz_live_start (\<lambda>_. 0) = {}"
    by (simp_all add: fuzz_table_ok_def fuzz_objects_def fuzz_live_start_def)
  then have "fuzz_pool_inv m c (m, c, fuzz_live_start)"
    using assms by (auto simp: fuzz_pool_inv_def pool_frame_def intro!: exI [of _ "\<lambda>_. 0"])
  then show ?thesis unfolding fuzz_pool_loop_def by (rule fuzz_loop_invariant) (rule fuzz_pool_step_keeps)
qed

lemma fuzz_pool_free_all_ok:
  assumes inv: "fuzz_pool_inv m0 c0 s" and run: "fuzz_pool_free_all s = (m', c')"
  shows "pool_objects m' c' {} \<and> pool_frame m0 c0 m' c' \<and> cache_view c' = cache_view c0"
proof -
  obtain m c f where s: "s = (m, c, f)" by (metis prod_cases3)
  obtain k where k: "fuzz_table_ok f k" "pool_objects m c (fuzz_objects f k)" and fr: "pool_frame m0 c0 m c"
    "cache_view c = cache_view c0" using inv by (auto simp: fuzz_pool_inv_def s)
  define ps where "ps = take (unat (fz_live_count f)) (fz_live f)"
  have "map ((!) (fz_live f)) [0 ..< unat (fz_live_count f)] = ps"
    using k(1) unfolding ps_def fuzz_table_ok_def by (intro nth_equalityI) auto
  then have "fold (\<lambda>p (m, c). bc_allocators_pool_free m c p) ps (m, c) = (m', c')"
    using run by (simp add: fuzz_pool_free_all_def s fold_map comp_def flip: \<open>_ = ps\<close>)
  from free_list_of_objects [OF _ _ fr this] show ?thesis
    using k by (auto simp: fuzz_objects_def fuzz_table_ok_def ps_def)
qed

end

context bc_os
begin

lemma fuzz_pool_one_input_ok:
  assumes ok: "maps_ok E (mc_maps w)" and run: "fuzz_pool_one_input E w data = (r, w')"
  shows "r = 0 \<and> mset (mc_maps w') = mset (mc_maps w) \<and> agree (mc_mem w) (mc_mem w') (mapped_bytes (mc_maps w))"
proof -
  obtain oc w1 where create: "bc_allocators_context_create E w None = (oc, w1)" by fastforce
  show ?thesis
  proof (cases oc)
    case None
    then show ?thesis using run create context_create_None context_create_agree [OF create]
      by (auto simp: fuzz_pool_one_input_def)
  next
    case (Some c)
    obtain m' c' where fa: "fuzz_pool_free_all (fuzz_pool_loop E data (mc_mem w1) c) = (m', c')" by fastforce
    have "pool_objects (mc_mem w1) c {}"
      unfolding pool_objects_def using context_create_Some(1) [OF create [unfolded Some]] by blast
    from fuzz_pool_free_all_ok [OF fuzz_pool_loop_inv [OF this] fa]
    have e: "pool_frame (mc_mem w1) c m' c'" "cache_view c' = cache_view c" by blast+
    have res: "r = 0" "w' = bc_allocators_context_destroy E (w1\<lparr>mc_mem := m'\<rparr>) c'"
      using run create Some fa by (simp_all add: fuzz_pool_one_input_def)
    show ?thesis using context_round_trip [OF create [unfolded Some] ok e res(2)] res(1) by blast
  qed
qed

lemma fuzz_pool_main_ok:
  assumes "maps_ok E (mc_maps w)" "fuzz_pool_main E rand srand argv w = (r, w')"
  shows "r = (if length argv < 2 then 2 else 0) \<and> mset (mc_maps w') = mset (mc_maps w) \<and> agree (mc_mem w) (mc_mem w') (mapped_bytes (mc_maps w))"
proof -
  define P where "P = (\<lambda>v :: machine. mset (mc_maps v) = mset (mc_maps w) \<and> agree (mc_mem w) (mc_mem v) (mapped_bytes (mc_maps w)))"
  have "P (snd (fuzz_pool_one_input E v data))" if "P v" for v data
  proof -
    have ms: "mset (mc_maps v) = mset (mc_maps w)" using that by (simp add: P_def)
    obtain r v' where run: "fuzz_pool_one_input E v data = (r, v')" by fastforce
    from fuzz_pool_one_input_ok [OF maps_ok_mset [OF assms(1) ms] run]
    show ?thesis using that mapped_bytes_mset [OF ms] by (auto simp: P_def run intro: agree_trans)
  qed
  note step = this
  have "P w" by (simp add: P_def)
  then have "P (fuzz_iterations rand (\<lambda>w buffer. snd (fuzz_pool_one_input E w buffer)) n g w)" for n g
    by (rule fuzz_iterations_invariant) (rule step)
  then show ?thesis using assms(2) by (auto simp: fuzz_pool_main_def P_def Let_def agree_def split: if_splits)
qed

end

end
