(* ===== verification/BC_Fuzz_Arena.thy ===== *)
theory BC_Fuzz_Arena
  imports BC_Fuzz
begin

text \<open>
  The arena driver, \<^verbatim>\<open>fuzzing/fuzz_bc_allocators_arena.c\<close>, and what one step of it keeps. The 64-byte \<^verbatim>\<open>buffer\<close> on the
  driver's stack is an area of memory at a given address, inside one of the mappings the process had before.
\<close>

definition ARENA_SMALL_CAPACITY :: u64 where
  "ARENA_SMALL_CAPACITY = 1 * 1024 * 1024"

definition fuzz_arena_requested :: "u8 \<Rightarrow> u8 \<Rightarrow> u64" where
  "fuzz_arena_requested d1 d2 =
     (let requested = push_bit 3 (ucast d1) OR ucast d2
      in if requested = 0 then 1 else requested)"

definition fuzz_alignment :: "u8 \<Rightarrow> u64" where
  "fuzz_alignment d2 = push_bit (unat (d2 AND 7)) 1"

text \<open>The string of the driver: up to 63 bytes of the input, none of them zero, then the terminator.\<close>

definition string_length :: "u64 \<Rightarrow> u64" where
  "string_length requested = (if requested < 64 - 1 then requested else 64 - 1)"

definition fill_buffer :: "u8 list \<Rightarrow> nat \<Rightarrow> u64 \<Rightarrow> u64 \<Rightarrow> mem \<Rightarrow> mem" where
  "fill_buffer data i buffer requested m =
     (let n = string_length requested;
          m1 = fold (\<lambda>k m. m(buffer + of_nat k := data ! ((i + k) mod length data) OR 1)) [0 ..< unat n] m
      in m1(buffer + n := 0))"

type_synonym fuzz_arena_state = "(machine \<times> bc_context) option"

definition fuzz_arena_step :: "env \<Rightarrow> u64 \<Rightarrow> u64 \<Rightarrow> u8 list \<Rightarrow> nat \<Rightarrow> fuzz_arena_state \<Rightarrow> fuzz_arena_state" where
  "fuzz_arena_step E buffer arena data i s =
     (case s of None \<Rightarrow> None
      | Some (w, c) \<Rightarrow>
          let op = data ! i AND 7;
              requested = fuzz_arena_requested (data ! (i + 1)) (data ! (i + 2));
              alignment = fuzz_alignment (data ! (i + 2))
          in if op = 0 then Some (snd (bc_allocators_arena_allocate E w c arena requested alignment))
             else if op = 1 then
               Some (snd (bc_allocators_arena_copy_string E
                            (w\<lparr>mc_mem := fill_buffer data i buffer requested (mc_mem w)\<rparr>) c arena buffer))
             else if op = 2 then bc_allocators_arena_reset E w c arena
             else if op = 3 then bc_allocators_arena_reset_secure E w c arena
             else if op = 4 then map_option (\<lambda>(_, w'). (w', c)) (bc_allocators_arena_release_pages E w arena)
             else if op = 5 then map_option (\<lambda>_. (w, c)) (bc_allocators_arena_get_stats (mc_mem w) arena)
             else Some (w, c))"

definition fuzz_arena_one_input :: "env \<Rightarrow> u64 \<Rightarrow> machine \<Rightarrow> u8 list \<Rightarrow> (int \<times> machine) option" where
  "fuzz_arena_one_input E buffer w data =
     (case bc_allocators_context_create E w None of
        (None, w1) \<Rightarrow> Some (0, w1)
      | (Some ctx, w1) \<Rightarrow>
          (case bc_allocators_arena_create E w1 ctx ARENA_SMALL_CAPACITY of
             (None, w2, c2) \<Rightarrow> Some (0, bc_allocators_context_destroy E w2 c2)
           | (Some arena, w2, c2) \<Rightarrow>
               (case fuzz_loop (fuzz_arena_step E buffer arena data) (length data) 0 (Some (w2, c2)) of
                  None \<Rightarrow> None
                | Some (w3, c3) \<Rightarrow>
                    (case bc_allocators_arena_destroy E w3 c3 arena of
                       None \<Rightarrow> None
                     | Some (w4, c4) \<Rightarrow> Some (0, bc_allocators_context_destroy E w4 c4)))))"

definition fuzz_arena_main :: "env \<Rightarrow> u64 \<Rightarrow> ('g \<Rightarrow> nat \<times> 'g) \<Rightarrow> (32 word \<Rightarrow> 'g) \<Rightarrow> string list \<Rightarrow> machine
    \<Rightarrow> (int \<times> machine) option" where
  "fuzz_arena_main E stack rand srand argv w =
     (if length argv < 2 then Some (2, w)
      else
        let iterations = strtoul (argv ! 1);
            seed = (if length argv \<ge> 3 then strtoul (argv ! 2) else 0)
        in map_option (\<lambda>w'. (0, w'))
             (fuzz_iterations rand (\<lambda>s buffer. Option.bind s (\<lambda>w. map_option snd (fuzz_arena_one_input E stack w buffer)))
                (unat iterations) (srand (ucast seed)) (Some w)))"

section \<open>What a step keeps\<close>

text \<open>\<open>bs\<close> are the mappings the process had before, the stack among them.\<close>

definition fuzz_arena_inv ::
  "env \<Rightarrow> u64 \<Rightarrow> u64 \<Rightarrow> u64 \<Rightarrow> maps \<Rightarrow> machine \<Rightarrow> bc_context \<Rightarrow> fuzz_arena_state \<Rightarrow> bool" where
  "fuzz_arena_inv E buffer a n0 bs w0 c0 s \<longleftrightarrow>
     (\<exists>w c rs. s = Some (w, c) \<and> arena_inv E w c a n0 rs bs \<and>
        other_mappings w c ((a, n0) # rs @ bs) = other_mappings w0 c0 ((a, n0) # bs) \<and>
        agree (mc_mem w0) (mc_mem w) (mapped_bytes bs - area buffer 64))"

lemma fuzz_arena_invI:
  assumes inv: "fuzz_arena_inv E buffer a n0 bs w0 c0 (Some (w, c))" and "arena_inv E w c a n0 rs bs"
    and "arena_inv E w' c' a n0 rs' bs"
    and "other_mappings w' c' ((a, n0) # rs' @ bs) = other_mappings w0 c0 ((a, n0) # bs)"
    and "agree (mc_mem w) (mc_mem w') (mapped_bytes bs - area buffer 64)"
  shows "fuzz_arena_inv E buffer a n0 bs w0 c0 (Some (w', c'))"
  using assms unfolding fuzz_arena_inv_def by (blast intro: agree_trans)

lemma fill_loop_apply:
  "n \<le> 64 \<Longrightarrow> fold (\<lambda>k m. m(b + of_nat k := f k)) [0 ..< n] m x =
     (if unat (x - b) < n then f (unat (x - b)) else m x)" for b :: u64
proof (induction n)
  case (Suc n)
  have "x = b + of_nat n \<longleftrightarrow> unat (x - b) = n"
  proof
    assume "unat (x - b) = n"
    then have "of_nat n = x - b" by auto
    then show "x = b + of_nat n" by simp
  next
    assume "x = b + of_nat n"
    then have "x - b = of_nat n" by simp
    then show "unat (x - b) = n" using Suc.prems by (simp add: unat_of_nat_no_wrap)
  qed
  then show ?case using Suc by (auto simp: less_Suc_eq)
qed simp

lemma or_one_nonzero: "x OR 1 \<noteq> (0 :: u8)"
  using even_or_iff [of x 1] by auto

lemma fill_buffer_string:
  assumes b: "unat buffer + 64 \<le> 18446744073709551616"
  obtains k where "k \<le> 63" "fill_buffer data i buffer sz m (buffer + of_nat k) = 0"
    "\<forall>j < k. fill_buffer data i buffer sz m (buffer + of_nat j) \<noteq> 0"
    "agree m (fill_buffer data i buffer sz m) (- area buffer 64)"
proof -
  define n where "n = string_length sz"
  have n: "unat n \<le> 63" by (auto simp: n_def string_length_def word_less_nat_alt)
  have e: "fill_buffer data i buffer sz m x =
      (if x = buffer + n then 0 else if unat (x - buffer) < unat n
       then data ! ((i + unat (x - buffer)) mod length data) OR 1 else m x)" for x
    using n by (simp add: fill_buffer_def Let_def n_def [symmetric] fill_loop_apply)
  have uj: "unat (of_nat j :: u64) = j" if "j \<le> 63" for j using that by (simp add: unat_of_nat_no_wrap)
  have "fill_buffer data i buffer sz m (buffer + of_nat (unat n)) = 0" by (simp add: e)
  moreover have "fill_buffer data i buffer sz m (buffer + of_nat j) \<noteq> 0" if "j < unat n" for j
  proof -
    have u: "unat (of_nat j :: u64) = j" using that n by (intro uj) simp
    then have "buffer + of_nat j \<noteq> buffer + n" using that by auto
    then show ?thesis using u that or_one_nonzero by (simp add: e)
  qed
  moreover have "agree m (fill_buffer data i buffer sz m) (- area buffer 64)"
  proof (unfold agree_def, intro ballI)
    fix x assume x: "x \<in> - area buffer 64"
    have "\<not> unat (x - buffer) < 64" using x in_area_offset [of buffer 64 x] b by simp
    then show "fill_buffer data i buffer sz m x = m x" using n by (auto simp: e)
  qed
  ultimately show thesis using n that by blast
qed

context bc_os
begin

lemma arena_kept_fuzz:
  assumes inv: "fuzz_arena_inv E buffer a n0 bs w0 c0 (Some (w, c))" and i: "arena_inv E w c a n0 rs bs"
    and o: "other_mappings w c ((a, n0) # rs @ bs) = other_mappings w0 c0 ((a, n0) # bs)"
    and k: "arena_kept E a n0 bs w c rs w' c' rs'"
  shows "fuzz_arena_inv E buffer a n0 bs w0 c0 (Some (w', c'))"
proof (rule fuzz_arena_invI [OF inv i])
  show "arena_inv E w' c' a n0 rs' bs"
    "other_mappings w' c' ((a, n0) # rs' @ bs) = other_mappings w0 c0 ((a, n0) # bs)"
    using k o by (simp_all add: arena_kept_def)
  have "agree (mc_mem w) (mc_mem w') (mapped_bytes bs)"
    using k by (auto simp: arena_kept_def arena_frame_def intro: agree_subset)
  then show "agree (mc_mem w) (mc_mem w') (mapped_bytes bs - area buffer 64)" by (rule agree_subset) blast
qed

text \<open>Writing the buffer disturbs neither the arena nor the other mappings.\<close>

lemma foreign_write:
  assumes i: "arena_inv E w c a n0 rs bs" and out: "agree (mc_mem w) m' (- B)" and B: "B \<subseteq> mapped_bytes bs"
  shows "arena_inv E (w\<lparr>mc_mem := m'\<rparr>) c a n0 rs bs"
proof -
  note d = arena_invD [OF i]
  have "agree (mc_mem w) m' (arena_headers a rs)"
    using headers_frame(2) [OF d(1,2)] B by (intro agree_off [OF out]) auto
  then show ?thesis using arena_rep_cong(1) [OF d(1,3)] d(2) by (simp add: arena_inv_def world_def)
qed

lemma fuzz_copy_step:
  assumes inv: "fuzz_arena_inv E buffer a n0 bs w0 c0 (Some (w, c))"
    and b: "unat buffer + 64 \<le> 18446744073709551616" "area buffer 64 \<subseteq> mapped_bytes bs"
    and run: "bc_allocators_arena_copy_string E (w\<lparr>mc_mem := fill_buffer data i buffer sz (mc_mem w)\<rparr>) c a buffer = (r, w', c')"
  shows "fuzz_arena_inv E buffer a n0 bs w0 c0 (Some (w', c'))"
proof -
  obtain rs where i: "arena_inv E w c a n0 rs bs"
    "other_mappings w c ((a, n0) # rs @ bs) = other_mappings w0 c0 ((a, n0) # bs)"
    using inv by (auto simp: fuzz_arena_inv_def)
  define m1 where "m1 = fill_buffer data i buffer sz (mc_mem w)"
  define w1 where "w1 = w\<lparr>mc_mem := m1\<rparr>"
  obtain k where k: "k \<le> 63" "m1 (buffer + of_nat k) = 0" "\<forall>j < k. m1 (buffer + of_nat j) \<noteq> 0"
    "agree (mc_mem w) m1 (- area buffer 64)"
    unfolding m1_def by (rule fill_buffer_string [OF b(1)]) blast
  have i1: "arena_inv E w1 c a n0 rs bs" unfolding w1_def by (rule foreign_write [OF i(1) k(4) b(2)])
  have o1: "other_mappings w1 c ((a, n0) # rs @ bs) = other_mappings w0 c0 ((a, n0) # bs)"
    using i(2) by (simp add: other_mappings_def w1_def)
  have "agree (mc_mem w) (mc_mem w1) (mapped_bytes bs - area buffer 64)"
    unfolding w1_def by simp (rule agree_subset [OF k(4)], blast)
  then have inv1: "fuzz_arena_inv E buffer a n0 bs w0 c0 (Some (w1, c))" by (rule fuzz_arena_invI [OF inv i(1) i1 o1])
  have run1: "bc_allocators_arena_copy_string E w1 c a buffer = (r, w', c')" using run by (simp add: w1_def m1_def)
  have "\<exists>rs'. arena_kept E a n0 bs w1 c rs w' c' rs'"
  proof (cases r)
    case None
    obtain n where "bc_allocators_arena_allocate E w1 c a n 1 = (None, w', c')"
      using run1 None by (auto simp: bc_allocators_arena_copy_string_def Let_def split: option.splits prod.splits)
    then show ?thesis using arena_allocate_ok [OF i1] by blast
  next
    case (Some p)
    have "area buffer (Suc k) \<subseteq> arena_live (mc_mem w1) a rs \<union> mapped_bytes (bs @ fixed_mappings c)"
      using b(2) area_mono [of "Suc k" 64 buffer] k(1) by auto
    then show ?thesis
      using arena_copy_string_ok [OF i1 run1 [unfolded Some], of k] k(1-3) b(1) by (auto simp: w1_def)
  qed
  then show ?thesis using arena_kept_fuzz [OF inv1 i1 o1] by blast
qed

lemma fuzz_arena_step_keeps:
  assumes inv: "fuzz_arena_inv E buffer a n0 bs w0 c0 s"
    and b: "unat buffer + 64 \<le> 18446744073709551616" "area buffer 64 \<subseteq> mapped_bytes bs"
  shows "fuzz_arena_inv E buffer a n0 bs w0 c0 (fuzz_arena_step E buffer a data i s)"
proof -
  obtain w c rs where s: "s = Some (w, c)" and i: "arena_inv E w c a n0 rs bs"
    "other_mappings w c ((a, n0) # rs @ bs) = other_mappings w0 c0 ((a, n0) # bs)"
    using inv by (auto simp: fuzz_arena_inv_def)
  note inv' = inv [unfolded s]
  have keep: "fuzz_arena_inv E buffer a n0 bs w0 c0 (Some (w', c'))"
    if "arena_inv E w' c' a n0 [] bs" "arena_frame (mc_mem w) (mc_mem w') c bs"
      "other_mappings w' c' ((a, n0) # bs) = other_mappings w c ((a, n0) # rs @ bs)" for w' c'
  proof (rule fuzz_arena_invI [OF inv' i(1), where rs' = "[]"])
    show "agree (mc_mem w) (mc_mem w') (mapped_bytes bs - area buffer 64)"
      using that(2) by (auto simp: arena_frame_def intro: agree_subset)
  qed (use that i(2) in simp_all)
  consider (alloc) "data ! i AND 7 = 0" | (copy) "data ! i AND 7 = 1" | (reset) "data ! i AND 7 = 2"
    | (secure) "data ! i AND 7 = 3" | (pages) "data ! i AND 7 = 4" | (stats) "data ! i AND 7 = 5"
    | (skip) "fuzz_arena_step E buffer a data i s = s"
    by (fastforce simp: fuzz_arena_step_def s Let_def)
  then show ?thesis
  proof cases
    case alloc
    obtain r w' c' where run: "bc_allocators_arena_allocate E w c a (fuzz_arena_requested (data ! Suc i) (data ! Suc (Suc i)))
      (fuzz_alignment (data ! Suc (Suc i))) = (r, w', c')" by (metis prod_cases3)
    obtain rs' where "arena_kept E a n0 bs w c rs w' c' rs'" using arena_allocate_ok [OF i(1) run] by blast
    from arena_kept_fuzz [OF inv' i this] show ?thesis using alloc run by (simp add: fuzz_arena_step_def s Let_def)
  next
    case copy
    obtain r w' c' where run: "bc_allocators_arena_copy_string E (w\<lparr>mc_mem := fill_buffer data i buffer
      (fuzz_arena_requested (data ! Suc i) (data ! Suc (Suc i))) (mc_mem w)\<rparr>) c a buffer = (r, w', c')" by (metis prod_cases3)
    from fuzz_copy_step [OF inv' b run] show ?thesis using copy run by (simp add: fuzz_arena_step_def s Let_def)
  next
    case reset
    obtain w' c' where "bc_allocators_arena_reset E w c a = Some (w', c')" "arena_inv E w' c' a n0 [] bs"
      "arena_frame (mc_mem w) (mc_mem w') c bs"
      "other_mappings w' c' ((a, n0) # bs) = other_mappings w c ((a, n0) # rs @ bs)"
      using arena_reset_ok [OF i(1)] by blast
    with keep show ?thesis using reset by (simp add: fuzz_arena_step_def s Let_def)
  next
    case secure
    obtain w' c' where "bc_allocators_arena_reset_secure E w c a = Some (w', c')" "arena_inv E w' c' a n0 [] bs"
      "arena_frame (mc_mem w) (mc_mem w') c bs"
      "other_mappings w' c' ((a, n0) # bs) = other_mappings w c ((a, n0) # rs @ bs)"
      using arena_reset_secure_ok [OF i(1)] by blast
    with keep show ?thesis using secure by (simp add: fuzz_arena_step_def s Let_def)
  next
    case pages
    have "fuzz_arena_inv E buffer a n0 bs w0 c0 (Some (w\<lparr>mc_clock := mc_clock w + length (arena_chunks a rs)\<rparr>, c))"
      by (rule fuzz_arena_invI [OF inv' i(1), where rs' = rs]) (use i in \<open>simp_all add: arena_inv_def world_def other_mappings_def\<close>)
    then show ?thesis using pages arena_release_pages_ok [OF i(1)] by (simp add: fuzz_arena_step_def s Let_def)
  next
    case stats
    note d = arena_invD [OF i(1)]
    have "bc_allocators_arena_get_stats (mc_mem w) a \<noteq> None" using arena_get_stats_ok [OF d(1,3)] by auto
    then show ?thesis using stats inv' by (auto simp: fuzz_arena_step_def s Let_def)
  qed (simp add: inv)
qed

section \<open>The driver as a whole\<close>

lemma fuzz_arena_one_input_ok:
  assumes ok: "maps_ok E (mc_maps w)" and b: "unat buffer + 64 \<le> 18446744073709551616" "area buffer 64 \<subseteq> mapped_bytes (mc_maps w)"
  shows "\<exists>w'. fuzz_arena_one_input E buffer w data = Some (0, w') \<and> mset (mc_maps w') = mset (mc_maps w) \<and>
    agree (mc_mem w) (mc_mem w') (mapped_bytes (mc_maps w) - area buffer 64)"
proof -
  let ?bs = "mc_maps w" and ?B = "mapped_bytes (mc_maps w) - area buffer 64"
  obtain oc w1 where create: "bc_allocators_context_create E w None = (oc, w1)" by fastforce
  have a1: "agree (mc_mem w) (mc_mem w1) ?B" by (rule agree_subset [OF context_create_agree [OF create]]) blast
  show ?thesis
  proof (cases oc)
    case None
    then show ?thesis using create context_create_None [of w None w1] a1 by (simp add: fuzz_arena_one_input_def)
  next
    case (Some c)
    note create' = create [unfolded Some] and cc = context_create_Some [OF create [unfolded Some]]
    note W = context_create_apart(2) [OF create' ok]
    have o1: "other_mappings w1 c ?bs = {#}" using cc(2) by (simp add: other_mappings_def)
    have fin: "mset (mc_maps (bc_allocators_context_destroy E v d)) = mset ?bs"
        "mc_mem (bc_allocators_context_destroy E v d) = mc_mem v"
      if v: "world E v d ?bs" "other_mappings v d ?bs = {#}" for v d
    proof -
      have le: "mset (ctx_mappings d) + mset ?bs \<subseteq># mset (mc_maps v)" using v(1) by (simp add: world_def)
      then have eq: "mset (mc_maps v) = mset (ctx_mappings d) + mset ?bs"
        using v(2) by (simp add: other_mappings_def Diff_eq_empty_iff_mset subset_mset.antisym)
      then have "mset (ctx_mappings d) \<subseteq># mset (mc_maps v)" by simp
      note dm = context_destroy_maps [OF this]
      show "mset (mc_maps (bc_allocators_context_destroy E v d)) = mset ?bs"
        "mc_mem (bc_allocators_context_destroy E v d) = mc_mem v" using dm eq by simp_all
    qed
    obtain oa w2 c2 where mk: "bc_allocators_arena_create E w1 c ARENA_SMALL_CAPACITY = (oa, w2, c2)" by (metis prod_cases3)
    note mf = make_first_ok [OF W mk [unfolded bc_allocators_arena_create_def]]
    show ?thesis
    proof (cases oa)
      case None
      have e: "c2 = c" "mc_mem w2 = mc_mem w1" "mc_maps w2 = mc_maps w1" using mf(1) [OF None] by simp_all
      have "world E w2 c2 ?bs" "other_mappings w2 c2 ?bs = {#}" using W o1 e by (simp_all add: world_def other_mappings_def)
      note f = fin [OF this]
      show ?thesis using create' mk None f a1 e(2) by (simp add: fuzz_arena_one_input_def)
    next
      case (Some a)
      obtain n0 where n0: "arena_inv E w2 c2 a n0 [] ?bs" "arena_frame (mc_mem w1) (mc_mem w2) c ?bs"
        "other_mappings w2 c2 ((a, n0) # ?bs) = {#}" using mf(2) [OF Some] o1 by auto
      have "agree (mc_mem w1) (mc_mem w2) ?B" using n0(2) by (auto simp: arena_frame_def intro: agree_subset)
      with a1 have a2: "agree (mc_mem w) (mc_mem w2) ?B" by (rule agree_trans)
      have "fuzz_arena_inv E buffer a n0 ?bs w2 c2 (Some (w2, c2))"
        unfolding fuzz_arena_inv_def by (intro exI [of _ w2] exI [of _ c2] exI [of _ "[]"]) (simp add: n0(1))
      then have "fuzz_arena_inv E buffer a n0 ?bs w2 c2
          (fuzz_loop (fuzz_arena_step E buffer a data) (length data) 0 (Some (w2, c2)))"
        by (rule fuzz_loop_invariant) (rule fuzz_arena_step_keeps [OF _ b])
      then obtain w3 c3 rs where l: "fuzz_loop (fuzz_arena_step E buffer a data) (length data) 0 (Some (w2, c2)) = Some (w3, c3)"
        "arena_inv E w3 c3 a n0 rs ?bs" "other_mappings w3 c3 ((a, n0) # rs @ ?bs) = {#}"
        "agree (mc_mem w2) (mc_mem w3) ?B" using n0(3) unfolding fuzz_arena_inv_def by auto
      obtain w4 c4 where d: "bc_allocators_arena_destroy E w3 c3 a = Some (w4, c4)" "world E w4 c4 ?bs"
        "mc_mem w4 = mc_mem w3" "other_mappings w4 c4 ?bs = {#}"
        using arena_destroy_ok [OF l(2)] l(3) by auto
      note f = fin [OF d(2,4)]
      have "agree (mc_mem w) (mc_mem w4) ?B" using a2 l(4) d(3) by (auto intro: agree_trans)
      then show ?thesis using create' mk Some l(1) d(1) f by (simp add: fuzz_arena_one_input_def)
    qed
  qed
qed

lemma fuzz_arena_main_ok:
  assumes ok: "maps_ok E (mc_maps w)" and b: "unat buffer + 64 \<le> 18446744073709551616" "area buffer 64 \<subseteq> mapped_bytes (mc_maps w)"
  shows "\<exists>w'. fuzz_arena_main E buffer rand srand argv w = Some (if length argv < 2 then 2 else 0, w') \<and> mset (mc_maps w') = mset (mc_maps w) \<and>
    agree (mc_mem w) (mc_mem w') (mapped_bytes (mc_maps w) - area buffer 64)"
proof -
  define P where "P = (\<lambda>s :: machine option. \<exists>v. s = Some v \<and> mset (mc_maps v) = mset (mc_maps w)
    \<and> agree (mc_mem w) (mc_mem v) (mapped_bytes (mc_maps w) - area buffer 64))"
  let ?one = "\<lambda>s data. Option.bind s (\<lambda>w. map_option snd (fuzz_arena_one_input E buffer w data))"
  have "P (?one s data)" if s: "P s" for s data
  proof -
    obtain v where v: "s = Some v" "mset (mc_maps v) = mset (mc_maps w)"
      "agree (mc_mem w) (mc_mem v) (mapped_bytes (mc_maps w) - area buffer 64)" using s by (auto simp: P_def)
    note mb = mapped_bytes_mset [OF v(2)]
    obtain v' where "fuzz_arena_one_input E buffer v data = Some (0, v')" "mset (mc_maps v') = mset (mc_maps w)"
      "agree (mc_mem v) (mc_mem v') (mapped_bytes (mc_maps w) - area buffer 64)"
      using fuzz_arena_one_input_ok [OF maps_ok_mset [OF ok v(2)] b(1), where data = data] b(2) mb v(2) by auto
    then show ?thesis using v by (auto simp: P_def intro: agree_trans)
  qed
  note step = this
  have "P (Some w)" by (simp add: P_def)
  then have "P (fuzz_iterations rand ?one n g (Some w))" for n g
    by (rule fuzz_iterations_invariant) (rule step)
  then show ?thesis by (fastforce simp: fuzz_arena_main_def P_def Let_def agree_def)
qed

end

end
