(* ===== verification/BC_Fuzz_Props.thy ===== *)
theory BC_Fuzz_Props
  imports BC_Fuzz_Arena BC_Arena_Demo
begin

text \<open>
  The properties of the fuzz drivers: whole programs over the library, from an input string to the exit code.
\<close>

text \<open>C39: The pool driver on any input, and its \<^verbatim>\<open>main\<close> with any arguments and any random source: it returns 0 (2 without the argument), leaves
  the process with the mappings it had and does not change a byte of them. When the loop over the input ends, the table of
  the driver holds exactly the live objects of the pool, each once and each with at least the recorded size, its
  count within its 128 entries; the frees that follow leave the pool with no live object.\<close>

theorem fuzz_pool_driver_correct:
  assumes "bc_os E" "maps_ok E (mc_maps w)"
  shows "(case fuzz_pool_one_input E w data of (r, w') \<Rightarrow>
      r = 0 \<and> mset (mc_maps w') = mset (mc_maps w) \<and> agree (mc_mem w) (mc_mem w') (mapped_bytes (mc_maps w))) \<and>
    (case fuzz_pool_main E rand srand argv w of (r, w') \<Rightarrow>
      r = (if length argv < 2 then 2 else 0) \<and> mset (mc_maps w') = mset (mc_maps w) \<and> agree (mc_mem w) (mc_mem w') (mapped_bytes (mc_maps w))) \<and>
    (\<forall>c w1. bc_allocators_context_create E w None = (Some c, w1) \<longrightarrow>
      (case fuzz_pool_loop E data (mc_mem w1) c of (m1, c1, f) \<Rightarrow>
        \<exists>k. fuzz_table_ok f k \<and> pool_objects m1 c1 (fuzz_objects f k)) \<and>
      (case fuzz_pool_free_all (fuzz_pool_loop E data (mc_mem w1) c) of (m2, c2) \<Rightarrow> pool_inv m2 c2 {}))"
proof -
  have core: "bc_core E" using assms(1) by (simp add: bc_os_def)
  have one: "case fuzz_pool_one_input E w data of (r, w') \<Rightarrow>
      r = 0 \<and> mset (mc_maps w') = mset (mc_maps w) \<and> agree (mc_mem w) (mc_mem w') (mapped_bytes (mc_maps w))"
    using bc_os.fuzz_pool_one_input_ok [OF assms] by (simp split: prod.split)
  have main: "case fuzz_pool_main E rand srand argv w of (r, w') \<Rightarrow>
      r = (if length argv < 2 then 2 else 0) \<and> mset (mc_maps w') = mset (mc_maps w) \<and> agree (mc_mem w) (mc_mem w') (mapped_bytes (mc_maps w))"
    using bc_os.fuzz_pool_main_ok [OF assms, where rand = rand and srand = srand and argv = argv] by (auto split: prod.split)
  have loop: "fuzz_pool_inv (mc_mem w1) c (fuzz_pool_loop E data (mc_mem w1) c)"
    if "bc_allocators_context_create E w None = (Some c, w1)" for c w1
    by (rule bc_core.fuzz_pool_loop_inv [OF core])
      (use bc_os.context_create_Some(1) [OF assms(1) that] in \<open>auto simp: pool_objects_def\<close>)
  have "pool_inv m2 c2 {}" if "bc_allocators_context_create E w None = (Some c, w1)"
    "fuzz_pool_free_all (fuzz_pool_loop E data (mc_mem w1) c) = (m2, c2)" for c w1 m2 c2
    using bc_core.fuzz_pool_free_all_ok [OF core loop [OF that(1)] that(2)] by (auto simp: pool_objects_def)
  then show ?thesis using one main loop by (auto simp: fuzz_pool_inv_def split: prod.splits)
qed

text \<open>An allocation of 256 bytes, its growth to 512 and a free, on the concrete environment.\<close>

theorem fuzz_pool_driver_correct_witness:
  "fst (fuzz_pool_one_input std_env boot [0, 16, 0, 1, 32, 0, 2, 0, 0]) = 0 \<and>
   mc_maps (snd (fuzz_pool_one_input std_env boot [0, 16, 0, 1, 32, 0, 2, 0, 0])) = []"
proof -
  let ?d = "[0, 16, 0, 1, 32, 0, 2, 0, 0]"
  obtain r w' where run: "fuzz_pool_one_input std_env boot ?d = (r, w')" by (rule prod.exhaust)
  have m: "mc_maps boot = []" by (simp add: boot_def)
  then have ok: "maps_ok std_env (mc_maps boot)" by (simp add: maps_ok_def)
  note t = conjunct1 [OF fuzz_pool_driver_correct [OF std.bc_os_axioms ok, where data = ?d and argv = "[]" and rand = "\<lambda>g :: nat. (g, g)"], unfolded run prod.case m]
  then have "mc_maps w' = []" by simp
  then show ?thesis unfolding run using t by simp
qed

text \<open>C40: The arena driver on any input, and its \<^verbatim>\<open>main\<close>: every walk over the chunks ends, so it returns, with 0 (2 without the argument); it leaves
  the process with the mappings it had, and changes no byte of them outside the 64-byte buffer on its stack.\<close>

theorem fuzz_arena_driver_correct:
  assumes "bc_os E" "maps_ok E (mc_maps w)" "unat stack + 64 \<le> 18446744073709551616"
    and "area stack 64 \<subseteq> mapped_bytes (mc_maps w)"
  shows "(\<exists>w'. fuzz_arena_one_input E stack w data = Some (0, w') \<and> mset (mc_maps w') = mset (mc_maps w) \<and>
      agree (mc_mem w) (mc_mem w') (mapped_bytes (mc_maps w) - area stack 64)) \<and>
    (\<exists>w'. fuzz_arena_main E stack rand srand argv w = Some (if length argv < 2 then 2 else 0, w') \<and> mset (mc_maps w') = mset (mc_maps w) \<and>
      agree (mc_mem w) (mc_mem w') (mapped_bytes (mc_maps w) - area stack 64))"
  by (intro conjI bc_os.fuzz_arena_one_input_ok [OF assms] bc_os.fuzz_arena_main_ok [OF assms])

text \<open>An allocation, a string copy, a secure reset and the statistics, with the stack on a page at 65536.\<close>

theorem fuzz_arena_driver_correct_witness:
  "\<exists>w'. fuzz_arena_one_input std_env 65600 (boot\<lparr>mc_maps := [(65536, 4096)]\<rparr>) [0, 16, 3, 1, 1, 1, 3, 0, 0, 5, 0, 0] = Some (0, w') \<and>
     mc_maps w' = [(65536, 4096)]"
proof -
  define v where "v = boot\<lparr>mc_maps := [(65536, 4096)]\<rparr>"
  have m: "mc_maps v = [(65536, 4096)]" by (simp add: v_def)
  have ok: "maps_ok std_env (mc_maps v)" unfolding m by (simp add: maps_ok_def map_ok_def std_core_simps)
  have s: "area 65600 64 \<subseteq> mapped_bytes (mc_maps v)" unfolding m by (auto simp: mapped_bytes_def)
  have lim: "unat (65600 :: u64) + 64 \<le> 18446744073709551616" by simp
  note t = conjunct1 [OF fuzz_arena_driver_correct [OF std.bc_os_axioms ok lim s, where data = "[0, 16, 3, 1, 1, 1, 3, 0, 0, 5, 0, 0]"
      and argv = "[]" and rand = "\<lambda>g :: nat. (g, g)"]]
  then obtain w' where w': "fuzz_arena_one_input std_env 65600 v [0, 16, 3, 1, 1, 1, 3, 0, 0, 5, 0, 0] = Some (0, w')"
    "mset (mc_maps w') = mset (mc_maps v)" by blast
  have "mc_maps w' = [(65536, 4096)]" using w'(2) unfolding m by simp
  with w'(1) show ?thesis unfolding v_def by blast
qed

end
