(* ===== verification/BC_Client.thy ===== *)
theory BC_Client
  imports BC_Slab_Spec BC_Typed_Array_Spec
begin

text \<open>
  What a program holds of the pool: plain objects, slabs and typed arrays, as one type of clients, with the calls a program
  can make on each. They meet the contract \<open>pool_clients\<close>, so any number of them shares one pool.
\<close>

text \<open>A slab is given by its address, its object size and the objects in use; an array by its element size and its struct.\<close>

datatype client =
    Object u64 nat
  | Slab u64 u64 "u64 set"
  | Array u64 typed_array

text \<open>The memory a client may use.\<close>

fun hands_out :: "client \<Rightarrow> objects" where
  "hands_out (Object p n) = {(p, n)}"
| "hands_out (Slab s osz U) = (\<lambda>b. (b, unat osz)) ` U"
| "hands_out (Array es A) = (if ta_data A = NULL then {} else {(ta_data A, unat (ta_length A) * unat es)})"

inductive client_step :: "env \<Rightarrow> objects \<Rightarrow> mem \<times> bc_context \<times> client \<Rightarrow> mem \<times> bc_context \<times> client \<Rightarrow> bool"
  for E :: env and Q :: objects where
  object_resize: "unat sz \<le> 2 ^ 63 \<Longrightarrow> bc_allocators_pool_reallocate E m c p sz = (Some q, m', c') \<Longrightarrow>
    client_step E Q (m, c, Object p n) (m', c', Object q (unat (fst (get_usable_size m' c' q))))"
| object_refuse: "unat sz \<le> 2 ^ 63 \<Longrightarrow> bc_allocators_pool_reallocate E m c p sz = (None, m', c') \<Longrightarrow>
    client_step E Q (m, c, Object p n) (m', c', Object p n)"
| object_write: "agree m m' (- area p n) \<Longrightarrow> client_step E Q (m, c, Object p n) (m', c, Object p n)"
| slab_allocate: "bc_allocators_slab_allocate E m c s = Some (Some p, m', c') \<Longrightarrow>
    client_step E Q (m, c, Slab s osz U) (m', c', Slab s osz (insert p U))"
| slab_refuse: "bc_allocators_slab_allocate E m c s = Some (None, m', c') \<Longrightarrow>
    client_step E Q (m, c, Slab s osz U) (m', c', Slab s osz U)"
| slab_free: "p \<in> U \<Longrightarrow>
    client_step E Q (m, c, Slab s osz U) (bc_allocators_slab_free m s p, c, Slab s osz (U - {p}))"
| slab_write: "p \<in> U \<Longrightarrow> agree m m' (- area p (unat osz)) \<Longrightarrow>
    client_step E Q (m, c, Slab s osz U) (m', c, Slab s osz U)"
| array_push: "unat es \<le> 2 ^ 60 \<Longrightarrow> length v = unat es \<Longrightarrow> typed_array_push E es m c A v = (ok, m', c', A') \<Longrightarrow>
    client_step E Q (m, c, Array es A) (m', c', Array es A')"
| array_reserve: "unat k * unat es \<le> 2 ^ 63 \<or> 2 ^ 64 \<le> unat k * unat es \<Longrightarrow>
    typed_array_reserve E es m c A k = (ok, m', c', A') \<Longrightarrow>
    client_step E Q (m, c, Array es A) (m', c', Array es A')"
| array_append: "in_object src (unat num * unat es) Q \<Longrightarrow>
    max 8 (2 * (unat (ta_length A) + unat num)) * unat es \<le> 2 ^ 63 \<Longrightarrow>
    typed_array_append_bulk E es m c A src num = Some (ok, m', c', A') \<Longrightarrow>
    client_step E Q (m, c, Array es A) (m', c', Array es A')"
| array_clear: "client_step E Q (m, c, Array es A) (m, c, Array es (typed_array_clear A))"
| array_write: "ta_data A \<noteq> NULL \<Longrightarrow> agree m m' (- area (ta_data A) (unat (ta_length A) * unat es)) \<Longrightarrow>
    client_step E Q (m, c, Array es A) (m', c, Array es A)"
| array_destroy: "typed_array_destroy m c A = (m', c', A') \<Longrightarrow>
    client_step E Q (m, c, Array es A) (m', c', Array es A')"

section \<open>The representation\<close>

fun client_rep :: "mem \<Rightarrow> client \<Rightarrow> objects \<Rightarrow> bool" where
  "client_rep m (Object p n) S = (S = {(p, n)})"
| "client_rep m (Slab s osz U) S =
     (\<exists>ops ps fs N. slab_rep m s osz ops ps fs \<and> slab_sizes s osz ops ps N \<and>
        U = slab_used osz ops ps fs \<and> S = slab_own s ps N)"
| "client_rep m (Array es A) S =
     (0 < unat es \<and> unat (ta_length A) \<le> unat (ta_capacity A) \<and>
      (if ta_data A = NULL then ta_capacity A = 0 \<and> S = {}
       else (\<exists>N. unat (ta_capacity A) * unat es \<le> N \<and> S = {(ta_data A, N)})))"

definition client_inv :: "mem \<times> bc_context \<Rightarrow> mem \<Rightarrow> bc_context \<Rightarrow> client \<Rightarrow> objects \<Rightarrow> objects \<Rightarrow> bool" where
  "client_inv g m c x S R \<longleftrightarrow> client_rep m x S \<and> pool_since g m c (S \<union> R) \<and> S \<inter> R = {}"

lemma client_objectI:
  "pool_since g m c (insert (p, n) R) \<Longrightarrow> (p, n) \<notin> R \<Longrightarrow> client_inv g m c (Object p n) {(p, n)} R"
  by (simp add: client_inv_def)

lemma client_objectD:
  assumes "client_inv g m c (Object p n) S R"
  shows "pool_since g m c (insert (p, n) R)" "insert (p, n) R - {(p, n)} = R"
  using assms by (auto simp: client_inv_def)

lemma client_slabI:
  "slab_inv g m c s osz ops ps fs N R \<Longrightarrow>
    client_inv g m c (Slab s osz (slab_used osz ops ps fs)) (slab_own s ps N) R"
  by (auto simp: client_inv_def slab_inv_def)

lemma client_slabE:
  assumes "client_inv g m c (Slab s osz U) S R"
  obtains ops ps fs N where "slab_inv g m c s osz ops ps fs N R" "U = slab_used osz ops ps fs" "S = slab_own s ps N"
  using assms by (auto simp: client_inv_def slab_inv_def)

lemma client_arrayI:
  assumes "ta_inv g m c es A N R"
  shows "\<exists>S. client_inv g m c (Array es A) S R"
proof (cases "ta_data A = NULL")
  case True
  then have "client_inv g m c (Array es A) {} R"
    using assms ta_inv_NULL [OF assms True] by (simp add: client_inv_def ta_inv_def)
  then show ?thesis ..
next
  case False
  then have "client_inv g m c (Array es A) {(ta_data A, N)} R" using assms by (simp add: client_inv_def ta_inv_def)
  then show ?thesis ..
qed

lemma client_arrayE:
  assumes "client_inv g m c (Array es A) S R"
  obtains N where "ta_inv g m c es A N R" "ta_data A \<noteq> NULL \<Longrightarrow> S = {(ta_data A, N)}"
  using assms by (cases "ta_data A = NULL") (auto simp: client_inv_def ta_inv_def)

lemma slab_keeps:
  "slab_inv g m' c' s osz ops ps fs N R \<Longrightarrow> U = slab_used osz ops ps fs \<Longrightarrow> kept_objects m m' R \<Longrightarrow>
    \<exists>S. client_inv g m' c' (Slab s osz U) S R \<and> kept_objects m m' R"
  using client_slabI by blast

lemma array_keeps:
  "ta_inv g m' c' es A N R \<Longrightarrow> kept_objects m m' R \<Longrightarrow> \<exists>S. client_inv g m' c' (Array es A) S R \<and> kept_objects m m' R"
  using client_arrayI by blast

section \<open>Steps\<close>

text \<open>A write into the elements of an array.\<close>

lemma ta_write_ok:
  assumes inv: "ta_inv g m c es A N R" and d: "ta_data A \<noteq> NULL"
    and out: "agree m m' (- area (ta_data A) (unat (ta_length A) * unat es))"
  shows "ta_inv g m' c es A N R" "kept_objects m m' R"
proof -
  note t = ta_inv_data [OF inv d]
  have "agree m m' (- area (ta_data A) N)" using area_mono [OF t(5)] by (intro agree_subset [OF out]) blast
  note w = std.since.write_keeps [OF t(1) insertI1 this]
  show "ta_inv g m' c es A N R" using w(1) t(2,3) inv d by (simp add: ta_inv_def)
  show "kept_objects m m' R" using w(2) t(2) by simp
qed

context bc_core
begin

lemma slab_client_step:
  assumes inv: "client_inv g m c (Slab s osz U) S R" and st: "client_step E Q (m, c, Slab s osz U) (m', c', x')"
  shows "\<exists>S'. client_inv g m' c' x' S' R \<and> kept_objects m m' R"
proof -
  obtain ops ps fs N where i: "slab_inv g m c s osz ops ps fs N R" and U: "U = slab_used osz ops ps fs"
    using client_slabE [OF inv] by metis
  obtain r m1 c1 where al: "bc_allocators_slab_allocate E m c s = Some (r, m1, c1)" "kept_objects m m1 R"
    "case r of None \<Rightarrow> fs = [] \<and> (\<exists>N'. slab_inv g m1 c1 s osz ops ps fs N' R)
       | Some p \<Rightarrow> \<exists>ps' fs' N'. slab_inv g m1 c1 s osz ops ps' fs' N' R \<and> p \<in> all_slots osz ops ps'
           \<and> p \<notin> slab_used osz ops ps fs \<and> slab_used osz ops ps' fs' = insert p (slab_used osz ops ps fs)
           \<and> (fs \<noteq> [] \<longrightarrow> fs = p # fs' \<and> ps' = ps \<and> c1 = c)"
    using slab_allocate_ok [OF i] by blast
  from st show ?thesis
  proof cases
    case (slab_allocate p)
    then obtain ps' fs' N' where "slab_inv g m' c' s osz ops ps' fs' N' R" "slab_used osz ops ps' fs' = insert p U"
      using al(1,3) U by auto
    then show ?thesis using slab_keeps [of g m' c' s osz ops ps' fs' N' R "insert p U" m] al(1,2) slab_allocate by simp
  next
    case slab_refuse
    then obtain N' where "slab_inv g m' c' s osz ops ps fs N' R" using al(1,3) by auto
    from slab_keeps [OF this U] show ?thesis using al(1,2) slab_refuse by simp
  next
    case (slab_free p)
    note f = slab_free_ok [OF i slab_free(4) [unfolded U]]
    show ?thesis using slab_keeps [OF f(1) _ f(2), of "U - {p}"] f(4) slab_free U by simp
  next
    case (slab_write p)
    note f = slab_write_ok [OF i _ slab_write(4)]
    show ?thesis using slab_keeps [OF f(1) U f(2)] slab_write U by simp
  qed
qed

lemma array_client_step:
  assumes inv: "client_inv g m c (Array es A) S R" and Q: "\<And>p n. (p, n) \<in> Q \<Longrightarrow> in_object p n R"
    and st: "client_step E Q (m, c, Array es A) (m', c', x')"
  shows "\<exists>S'. client_inv g m' c' x' S' R \<and> kept_objects m m' R"
proof -
  obtain N where i: "ta_inv g m c es A N R" using client_arrayE [OF inv] by metis
  from st show ?thesis
  proof cases
    case (array_push v ok A')
    have "unat es \<le> 1152921504606846976" using array_push(2) by simp
    then have "push_result g m es A v R ok m' c' A'" by (rule push_ok [OF i _ array_push(3,4)])
    then show ?thesis using array_keeps array_push(1) unfolding push_result_def by blast
  next
    case (array_reserve k ok A')
    have "unat k * unat es \<le> 9223372036854775808 \<or> 18446744073709551616 \<le> unat k * unat es" using array_reserve(2) by simp
    then have "reserve_result g m es A k R ok m' c' A'" by (rule reserve_ok [OF i _ array_reserve(3)])
    then show ?thesis using array_keeps array_reserve(1) unfolding reserve_result_def by blast
  next
    case (array_append src num ok A')
    have "in_object src (unat num * unat es) R" by (rule in_object_trans [OF array_append(2) Q])
    moreover have "max 8 (2 * (unat (ta_length A) + unat num)) * unat es \<le> 9223372036854775808"
      using array_append(3) by simp
    ultimately have "append_result g m es A src num R ok m' c' A'" using append_ok [OF i] array_append(4) by fastforce
    then show ?thesis using array_keeps array_append(1) unfolding append_result_def by blast
  next
    case array_clear
    then show ?thesis using array_keeps [OF ta_clear_ok(1) [OF i], of m] by simp
  next
    case array_write
    then show ?thesis using array_keeps [OF ta_write_ok [OF i array_write(3,4)]] by simp
  next
    case (array_destroy A')
    note f = ta_destroy_ok [OF i array_destroy(2)]
    have "0 < unat es" using i by (simp add: ta_inv_def)
    then show ?thesis using array_keeps [OF zero_array_inv [OF f(2)] f(3)] f(1) array_destroy(1) by simp
  qed
qed

lemma object_client_step:
  assumes inv: "client_inv g m c (Object p n) S R" and st: "client_step E Q (m, c, Object p n) (m', c', x')"
  shows "\<exists>S'. client_inv g m' c' x' S' R \<and> kept_objects m m' R"
proof -
  note h = client_objectD [OF inv]
  from st show ?thesis
  proof cases
    case (object_resize sz q)
    have "unat sz \<le> 9223372036854775808" using object_resize(2) by simp
    then obtain k where k: "q \<notin> fst ` R" "pool_since g m' c' (insert (q, k) R)" "kept_objects m m' R"
      using since.resize_Some [OF h(1) insertI1 _ object_resize(3)] h(2) by auto
    have "unat (fst (get_usable_size m' c' q)) = k" by (rule pool_objects_usable [OF pool_since_objects [OF k(2)]]) simp
    moreover have "(q, k) \<notin> R" using k(1) by force
    ultimately show ?thesis using client_objectI [OF k(2)] k(3) object_resize(1) by blast
  next
    case (object_refuse sz)
    have "unat sz \<le> 9223372036854775808" using object_refuse(2) by simp
    then have k: "pool_since g m' c' (insert (p, n) R)" "kept_objects m m' (insert (p, n) R)"
      using since.resize_None [OF h(1) insertI1 _ object_refuse(3)] by auto
    then show ?thesis using client_objectI [OF k(1)] h(2) object_refuse(1) kept_objects_subset [OF k(2)] by blast
  next
    case object_write
    note w = since.write_keeps [OF h(1) insertI1 object_write(3), unfolded h(2)]
    then show ?thesis using client_objectI [OF w(1)] h(2) object_write(1,2) by blast
  qed
qed

lemma client_step_keeps:
  assumes "client_inv g m c x S R" "\<And>p n. (p, n) \<in> Q \<Longrightarrow> in_object p n R" "client_step E Q (m, c, x) (m', c', x')"
  shows "\<exists>S'. client_inv g m' c' x' S' R \<and> kept_objects m m' R"
  using assms by (cases x) (blast intro: object_client_step slab_client_step array_client_step)+

end

section \<open>What a client hands out\<close>

lemma client_rep_kept:
  assumes rep: "client_rep m x S" and h: "pool_since g m c (S \<union> R)" and k: "kept_objects m m' S"
  shows "client_rep m' x S"
proof (cases x)
  case (Slab s osz U)
  then obtain ops ps fs N where i: "slab_rep m s osz ops ps fs" "slab_sizes s osz ops ps N"
    "U = slab_used osz ops ps fs" "S = slab_own s ps N" using rep by auto
  note h' = h [unfolded i(4)]
  have piece: "agree m m' (area p n) \<and> unat p + n \<le> 18446744073709551616" if "(p, n) \<in> slab_pieces s osz ops ps" for p n
  proof -
    note o = slab_piece_own [OF i(2) that]
    have "agree m m' (area p (N p))" using kept_objectsD [OF k [unfolded i(4)] o(1)] .
    then show ?thesis using slab_pieces_bounds(2) [OF i(2) h' that] area_mono [OF o(2)] by (auto intro: agree_subset)
  qed
  have "slab_rep m' s osz ops ps fs"
  proof (rule slab_rep_cong [OF i(1)])
    show "agree m m' (area s 56)" "unat s + 56 \<le> 18446744073709551616"
      using piece [of s 56] by (simp_all add: slab_pieces_def)
    show "agree m m' (area p 16) \<and> unat p + 16 \<le> 18446744073709551616" if "(p, q) \<in> set ps" for p q
      by (rule piece) (use that in \<open>force simp: slab_pieces_def\<close>)
    show "agree m m' (area b 8)" if b: "b \<in> set fs" for b
    proof -
      have b': "b \<in> all_slots osz ops ps" using slab_repD(4) [OF i(1)] b by blast
      obtain p q where q: "area b (unat osz) \<subseteq> area q (unat ops * unat osz)"
        "(q, unat ops * unat osz) \<in> slab_pieces s osz ops ps" using all_slots_piece [OF i(2) h' b'] by metis
      show ?thesis
        using piece [OF q(2)] q(1) slot_nodes(2) [OF i(2) h' b'] by (auto simp del: in_area intro: agree_subset)
    qed
  qed
  then show ?thesis using Slab i by auto
qed (use rep in auto)

lemma client_hands_out:
  assumes rep: "client_rep m x S" and h: "pool_since g m c (S \<union> R)" and p: "(p, n) \<in> hands_out x"
  shows "in_object p n S \<and> p \<noteq> NULL"
    "(q, k) \<in> hands_out x \<Longrightarrow> (p, n) \<noteq> (q, k) \<Longrightarrow> area p n \<inter> area q k = {}"
proof -
  have "(in_object p n S \<and> p \<noteq> NULL) \<and> ((q, k) \<in> hands_out x \<longrightarrow> (p, n) \<noteq> (q, k) \<longrightarrow> area p n \<inter> area q k = {})"
  proof (cases x)
    case (Object p' n')
    then have "S = {(p, n)}" using rep p by simp
    then show ?thesis using since_bounds [OF h, of p n] p Object by (auto simp: in_object_def)
  next
    case (Array es A)
    have d: "ta_data A \<noteq> NULL" "p = ta_data A" "n = unat (ta_length A) * unat es" using p Array by (auto split: if_splits)
    then obtain N where N: "unat (ta_capacity A) * unat es \<le> N" "S = {(p, N)}" using rep Array by auto
    have "n \<le> unat (ta_capacity A) * unat es" using rep Array d(3) by (auto intro: mult_le_mono1)
    then have "n \<le> N" using N(1) by linarith
    then show ?thesis using N(2) area_mono [of n N p] Array d by (auto simp: in_object_def simp del: in_area)
  next
    case (Slab s osz U)
    then obtain ops ps fs N where i: "slab_rep m s osz ops ps fs" "slab_sizes s osz ops ps N"
      "U = slab_used osz ops ps fs" "S = slab_own s ps N" using rep by auto
    note h' = h [unfolded i(4)]
    have U: "U \<subseteq> all_slots osz ops ps" using i(3) by (auto simp: slab_used_def)
    have pn: "p \<in> all_slots osz ops ps" "n = unat osz" using p Slab U by auto
    obtain p0 q0 where q: "(p0, q0) \<in> set ps" "p \<in> set (slots q0 osz ops)"
      "area p (unat osz) \<subseteq> area q0 (unat ops * unat osz)"
      "(q0, unat ops * unat osz) \<in> slab_pieces s osz ops ps" using all_slots_piece [OF i(2) h' pn(1)] by metis
    note o = slab_piece_own [OF i(2) q(4)]
    obtain j where j: "j < unat ops" "p = q0 + of_nat j * osz" using q(2) by (auto simp: slots_def)
    note sa = slot_addr [OF slab_pieces_bounds(2) [OF i(2) h' q(4)] j(1)]
    have "unat p + unat osz \<le> unat q0 + N q0" using sa o(2) unfolding j(2) by linarith
    then have "in_object p n S"
      using o q(3) area_mono [OF o(2), of q0] unfolding in_object_def i(4) pn(2) by blast
    moreover have "p \<noteq> NULL" using slot_nodes(1) [OF i(2) h' pn(1)] by (simp add: node_def)
    moreover have "area p n \<inter> area q k = {}" if "(q, k) \<in> hands_out x" "(p, n) \<noteq> (q, k)"
      using slots_apart [OF i(2) h' pn(1)] that U pn(2) Slab by fastforce
    ultimately show ?thesis by blast
  qed
  then show "in_object p n S \<and> p \<noteq> NULL" "(q, k) \<in> hands_out x \<Longrightarrow> (p, n) \<noteq> (q, k) \<Longrightarrow> area p n \<inter> area q k = {}" by blast+
qed

sublocale bc_core \<subseteq> clients: pool_clients client_rep "client_step E" hands_out
proof (unfold_locales, goal_cases)
  case (1 m x S g c R Q m' c' x')
  have "client_inv g m c x S R" using 1(1-3) by (simp add: client_inv_def)
  from client_step_keeps [OF this 1(4,5)] show ?case by (auto simp: client_inv_def)
next
  case (2 m x S g c R m')
  then show ?case by (rule client_rep_kept)
next
  case (3 m x S g c R p n)
  then show ?case by (rule client_hands_out(1))
next
  case (4 m x S g c R p n q k)
  then show ?case by (rule client_hands_out(2))
qed

section \<open>Creation and destruction\<close>

lemma clients_hold_inv:
  "clients_hold client_rep g m c (xs @ (x, S) # ys) \<Longrightarrow> client_inv g m c x S (owned (xs @ ys))"
  by (simp add: clients_hold_middle client_inv_def)

context bc_core
begin

lemma clients_new:
  assumes h: "clients_hold client_rep g m c Bs" and k: "kept_objects m m' (owned Bs)" and i: "client_inv g m' c' x S (owned Bs)"
  shows "\<exists>Bs'. map fst Bs' = x # map fst Bs \<and> clients_hold client_rep g m' c' Bs'"
proof -
  have "clients_hold client_rep g m' c' ((x, S) # Bs)"
    by (rule clients.clients_add [OF h k]) (use i in \<open>simp_all add: client_inv_def\<close>)
  then show ?thesis by (intro exI [of _ "(x, S) # Bs"]) simp
qed

lemma clients_allocate:
  assumes h: "clients_hold client_rep g m c Bs" and sz: "unat sz \<le> 2 ^ 63"
    and run: "bc_allocators_pool_allocate E m c sz = (r, m', c')"
  shows "\<exists>Bs'. map fst Bs' = (case r of None \<Rightarrow> [] | Some p \<Rightarrow> [Object p (unat (fst (get_usable_size m' c' p)))]) @ map fst Bs
    \<and> clients_hold client_rep g m' c' Bs'" "kept_objects m m' (owned Bs)"
proof -
  have p: "pool_since g m c (owned Bs)" using h by (simp add: clients_hold_def)
  have sz': "unat sz \<le> 9223372036854775808" using sz by simp
  have "(\<exists>Bs'. map fst Bs' = (case r of None \<Rightarrow> [] | Some p \<Rightarrow> [Object p (unat (fst (get_usable_size m' c' p)))]) @ map fst Bs
    \<and> clients_hold client_rep g m' c' Bs') \<and> kept_objects m m' (owned Bs)"
  proof (cases r)
    case None
    note f = since.alloc_None [OF p sz' run [unfolded None]]
    have "clients_hold client_rep g m' c' Bs" by (rule clients.clients_same [OF h]) (use f in simp_all)
    then show ?thesis using None f by auto
  next
    case (Some a)
    obtain n where f: "a \<notin> fst ` owned Bs" "pool_since g m' c' (insert (a, n) (owned Bs))" "kept_objects m m' (owned Bs)"
      using since.alloc_Some [OF p sz' run [unfolded Some]] by blast
    have u: "unat (fst (get_usable_size m' c' a)) = n" by (rule pool_objects_usable [OF pool_since_objects [OF f(2)]]) simp
    have "(a, n) \<notin> owned Bs" using f(1) by force
    from clients_new [OF h f(3) client_objectI [OF f(2) this]] show ?thesis using Some u f(3) by simp
  qed
  then show "\<exists>Bs'. map fst Bs' = (case r of None \<Rightarrow> [] | Some p \<Rightarrow> [Object p (unat (fst (get_usable_size m' c' p)))]) @ map fst Bs
    \<and> clients_hold client_rep g m' c' Bs'" "kept_objects m m' (owned Bs)" by blast+
qed

lemma clients_slab_create:
  assumes h: "clients_hold client_rep g m c Bs" and sz: "unat ops * unat osz \<le> 2 ^ 63"
  shows "\<exists>r m' c' Bs'. bc_allocators_slab_create E m c osz ops = Some (r, m', c') \<and>
    map fst Bs' = (case r of None \<Rightarrow> [] | Some s \<Rightarrow> [Slab s osz {}]) @ map fst Bs \<and> clients_hold client_rep g m' c' Bs'
    \<and> kept_objects m m' (owned Bs)"
proof -
  have p: "pool_since g m c (owned Bs)" using h by (simp add: clients_hold_def)
  have "unat ops * unat osz \<le> 9223372036854775808" using sz by simp
  from slab_create_ok [OF p this] obtain r m' c'
    where run: "bc_allocators_slab_create E m c osz ops = Some (r, m', c')" and f: "slab_created g m osz ops (owned Bs) r m' c'"
    by blast
  have k: "kept_objects m m' (owned Bs)" using f by (simp add: slab_created_def)
  show ?thesis
  proof (cases r)
    case None
    then have "clients_hold client_rep g m' c' Bs"
      using f by (intro clients.clients_same [OF h k]) (simp add: slab_created_def)
    then show ?thesis using run None k by auto
  next
    case (Some s)
    then obtain q0 q N where i: "slab_inv g m' c' s osz ops [(q0, q)] (rev (slots q osz ops)) N (owned Bs)"
      "slab_used osz ops [(q0, q)] (rev (slots q osz ops)) = {}" using f by (auto simp: slab_created_def)
    from clients_new [OF h k client_slabI [OF i(1)]] show ?thesis using run Some i(2) k by auto
  qed
qed

lemma clients_free:
  assumes h: "clients_hold client_rep g m c (xs @ (Object p n, S) # ys)" and run: "bc_allocators_pool_free m c p = (m', c')"
  shows "clients_hold client_rep g m' c' (xs @ ys)" "kept_objects m m' (owned (xs @ ys))"
proof -
  note o = client_objectD [OF clients_hold_inv [OF h]]
  note f = since.release [OF o(1) insertI1 run, unfolded o(2)]
  then show "kept_objects m m' (owned (xs @ ys))" by blast
  then show "clients_hold client_rep g m' c' (xs @ ys)" using f by (intro clients.clients_remove [OF h]) blast+
qed

lemma clients_slab_destroy:
  assumes h: "clients_hold client_rep g m c (xs @ (Slab s osz U, S) # ys)"
  shows "\<exists>m' c'. bc_allocators_slab_destroy m c s = Some (m', c') \<and> clients_hold client_rep g m' c' (xs @ ys) \<and>
    kept_objects m m' (owned (xs @ ys))"
proof -
  obtain ops ps fs N where "slab_inv g m c s osz ops ps fs N (owned (xs @ ys))"
    using client_slabE [OF clients_hold_inv [OF h]] by metis
  from slab_destroy_ok [OF this] obtain m' c' where d: "bc_allocators_slab_destroy m c s = Some (m', c')"
    "pool_since g m' c' (owned (xs @ ys))" "kept_objects m m' (owned (xs @ ys))" by blast
  then show ?thesis using clients.clients_remove [OF h d(3,2)] by blast
qed

lemma clients_array:
  assumes h: "clients_hold client_rep g m c Bs" and es: "0 < unat es"
  shows "\<exists>Bs'. map fst Bs' = Array es zero_array # map fst Bs \<and> clients_hold client_rep g m c Bs'"
proof -
  have "client_inv g m c (Array es zero_array) {} (owned Bs)"
    using h es by (simp add: client_inv_def clients_hold_def zero_array_def)
  from clients_new [OF h kept_objects_refl this] show ?thesis .
qed

lemma clients_array_done:
  assumes h: "clients_hold client_rep g m c (xs @ (Array es A, S) # ys)" and A: "ta_data A = NULL"
  shows "clients_hold client_rep g m c (xs @ ys)"
proof -
  have "pool_since g m c (owned (xs @ ys))"
    using clients_hold_inv [OF h] A by (auto simp: client_inv_def)
  from clients.clients_remove [OF h kept_objects_refl this] show ?thesis .
qed

text \<open>Every call that loops returns.\<close>

lemma client_calls_return:
  assumes h: "clients_hold client_rep g m c (xs @ (x, S) # ys)"
  shows "x = Slab s osz U \<Longrightarrow> bc_allocators_slab_allocate E m c s \<noteq> None"
    "x = Slab s osz U \<Longrightarrow> bc_allocators_slab_destroy m c s \<noteq> None"
    "x = Array es A \<Longrightarrow> in_object src (unat num * unat es) (\<Union> (hands_out ` fst ` set (xs @ ys))) \<Longrightarrow>
      max 8 (2 * (unat (ta_length A) + unat num)) * unat es \<le> 2 ^ 63 \<Longrightarrow>
      typed_array_append_bulk E es m c A src num \<noteq> None"
proof -
  note i = clients_hold_inv [OF h]
  show "bc_allocators_slab_allocate E m c s \<noteq> None" "bc_allocators_slab_destroy m c s \<noteq> None" if x: "x = Slab s osz U"
  proof -
    obtain ops ps fs N where sl: "slab_inv g m c s osz ops ps fs N (owned (xs @ ys))"
      by (rule client_slabE [OF i [unfolded x]])
    from slab_allocate_ok [OF sl] slab_destroy_ok [OF sl]
    show "bc_allocators_slab_allocate E m c s \<noteq> None" "bc_allocators_slab_destroy m c s \<noteq> None" by auto
  qed
  show "typed_array_append_bulk E es m c A src num \<noteq> None"
    if x: "x = Array es A" and src: "in_object src (unat num * unat es) (\<Union> (hands_out ` fst ` set (xs @ ys)))"
      and sz: "max 8 (2 * (unat (ta_length A) + unat num)) * unat es \<le> 2 ^ 63"
  proof -
    obtain N where a: "ta_inv g m c es A N (owned (xs @ ys))" by (rule client_arrayE [OF i [unfolded x]])
    have "in_object src (unat num * unat es) (owned (xs @ ys))"
      by (rule in_object_trans [OF src clients.others_hand_out [OF h]])
    from append_ok [OF a this] sz show ?thesis by fastforce
  qed
qed

end

text \<open>A client that owns nothing is an array without a buffer.\<close>

fun holds_memory :: "client \<Rightarrow> bool" where
  "holds_memory (Array es A) = (ta_data A \<noteq> NULL)"
| "holds_memory x = True"

lemma client_owns: "client_rep m x S \<Longrightarrow> S = {} \<longleftrightarrow> \<not> holds_memory x"
  by (cases x) (auto simp: slab_own_def slab_ptrs_def split: if_splits)

end
