(* ===== verification/BC_Program.thy ===== *)
theory BC_Program
  imports BC_System BC_Client
begin

text \<open>
  Programs over the library: a context, any number of arenas, and of objects, slabs and typed arrays in its pool, used in any
  order. The state is the machine, the context, the arenas in use with the objects each has handed out since its last
  reset, and the clients of the pool. Here the step relation, its invariant, and the invariant's preservation. The
  invariant keeps a book per arena, with its address, its first block, its grown blocks and its objects, and for every
  client the objects of the pool it owns.
\<close>

type_synonym program_state = "machine \<times> bc_context \<times> (u64 \<times> maps) list \<times> client list"

abbreviation shared :: "client list \<Rightarrow> objects" where
  "shared Cs \<equiv> \<Union> (hands_out ` set Cs)"

inductive program_step :: "env \<Rightarrow> program_state \<Rightarrow> program_state \<Rightarrow> bool" for E :: env where
  on_create: "bc_allocators_arena_create E w c cap = (Some a, w', c') \<Longrightarrow>
    program_step E (w, c, As, Cs) (w', c', (a, []) # As, Cs)"
| on_create_refused: "bc_allocators_arena_create E w c cap = (None, w', c') \<Longrightarrow>
    program_step E (w, c, As, Cs) (w', c', As, Cs)"
| on_create_growable: "bc_allocators_arena_create_growable E w c ini mx = (Some a, w', c') \<Longrightarrow>
    program_step E (w, c, As, Cs) (w', c', (a, []) # As, Cs)"
| on_create_growable_refused: "bc_allocators_arena_create_growable E w c ini mx = (None, w', c') \<Longrightarrow>
    program_step E (w, c, As, Cs) (w', c', As, Cs)"
| on_arena: "arena_step E a (w, c, os) (w', c', os') \<Longrightarrow>
    program_step E (w, c, As @ (a, os) # As', Cs) (w', c', As @ (a, os') # As', Cs)"
| on_destroy: "bc_allocators_arena_destroy E w c a = Some (w', c') \<Longrightarrow>
    program_step E (w, c, As @ (a, os) # As', Cs) (w', c', As @ As', Cs)"
| on_allocate: "unat sz \<le> 2 ^ 63 \<Longrightarrow> bc_allocators_pool_allocate E (mc_mem w) c sz = (Some p, m', c') \<Longrightarrow>
    program_step E (w, c, As, Cs)
      (w\<lparr>mc_mem := m'\<rparr>, c', As, Object p (unat (fst (get_usable_size m' c' p))) # Cs)"
| on_refuse: "unat sz \<le> 2 ^ 63 \<Longrightarrow> bc_allocators_pool_allocate E (mc_mem w) c sz = (None, m', c') \<Longrightarrow>
    program_step E (w, c, As, Cs) (w\<lparr>mc_mem := m'\<rparr>, c', As, Cs)"
| on_free: "bc_allocators_pool_free (mc_mem w) c p = (m', c') \<Longrightarrow>
    program_step E (w, c, As, Cs @ Object p n # Cs') (w\<lparr>mc_mem := m'\<rparr>, c', As, Cs @ Cs')"
| on_slab_create: "unat ops * unat osz \<le> 2 ^ 63 \<Longrightarrow>
    bc_allocators_slab_create E (mc_mem w) c osz ops = Some (Some s, m', c') \<Longrightarrow>
    program_step E (w, c, As, Cs) (w\<lparr>mc_mem := m'\<rparr>, c', As, Slab s osz {} # Cs)"
| on_slab_refused: "unat ops * unat osz \<le> 2 ^ 63 \<Longrightarrow>
    bc_allocators_slab_create E (mc_mem w) c osz ops = Some (None, m', c') \<Longrightarrow>
    program_step E (w, c, As, Cs) (w\<lparr>mc_mem := m'\<rparr>, c', As, Cs)"
| on_slab_destroy: "bc_allocators_slab_destroy (mc_mem w) c s = Some (m', c') \<Longrightarrow>
    program_step E (w, c, As, Cs @ Slab s osz U # Cs') (w\<lparr>mc_mem := m'\<rparr>, c', As, Cs @ Cs')"
| on_array: "0 < unat es \<Longrightarrow> program_step E (w, c, As, Cs) (w, c, As, Array es zero_array # Cs)"
| on_array_done: "ta_data A = NULL \<Longrightarrow> program_step E (w, c, As, Cs @ Array es A # Cs') (w, c, As, Cs @ Cs')"
| on_client: "client_step E (shared (Cs @ Cs')) (mc_mem w, c, x) (m', c', x') \<Longrightarrow>
    program_step E (w, c, As, Cs @ x # Cs') (w\<lparr>mc_mem := m'\<rparr>, c', As, Cs @ x' # Cs')"

section \<open>The book of an arena\<close>

type_synonym book = "u64 \<times> u64 \<times> maps \<times> maps"

fun book_blocks :: "book \<Rightarrow> maps" where
  "book_blocks (a, n0, rs, os) = (a, n0) # rs"

fun book_use :: "book \<Rightarrow> u64 \<times> maps" where
  "book_use (a, n0, rs, os) = (a, os)"

fun book_ok :: "mem \<Rightarrow> book \<Rightarrow> bool" where
  "book_ok m (a, n0, rs, os) \<longleftrightarrow> arena_rep m a n0 rs \<and> arena_objects m a rs os"

abbreviation all_blocks :: "book list \<Rightarrow> maps" where
  "all_blocks Ds \<equiv> concat (map book_blocks Ds)"

lemma book_elsewhere:
  assumes "book_ok m D" "maps_ok E (book_blocks D)" "agree m m' (mapped_bytes (book_blocks D))"
  shows "book_ok m' D"
proof -
  obtain a n0 rs os where D: "D = (a, n0, rs, os)" by (metis prod_cases4)
  have rep: "arena_rep m a n0 rs" and obj: "arena_objects m a rs os" using assms(1) by (auto simp: D)
  have ok: "maps_ok E ((a, n0) # rs @ [])" using assms(2) by (simp add: D)
  have "agree m m' (arena_headers a rs)"
    using arena_headers_mapped [OF rep ok] assms(3) by (auto simp: D simp del: mapped_bytes_Cons intro: agree_subset)
  note rc = arena_rep_cong [OF rep ok this]
  have "arena_objects m' a rs os" by (rule arena_objects_live [OF obj]) (simp add: rc(2))
  then show ?thesis using rc(1) by (simp add: D)
qed

lemma book_bytes: "D \<in> set Ds \<Longrightarrow> mapped_bytes (book_blocks D) \<subseteq> mapped_bytes (all_blocks Ds)"
  by (auto simp: mapped_bytes_def simp del: in_area)

lemma books_elsewhere:
  assumes "\<forall>D \<in> set Ds. book_ok m D" "maps_ok E (all_blocks Ds)" "agree m m' (mapped_bytes (all_blocks Ds))"
  shows "\<forall>D \<in> set Ds. book_ok m' D"
proof
  fix D assume D: "D \<in> set Ds"
  then obtain xs ys where Ds: "Ds = xs @ D # ys" by (meson split_list)
  have "maps_ok E (book_blocks D)" by (rule maps_ok_subset [OF assms(2)]) (simp add: Ds)
  then show "book_ok m' D"
    using book_elsewhere [of m D E m'] assms(1) D agree_subset [OF assms(3) book_bytes [OF D]] by blast
qed

lemma world_mset: "mset bs' = mset bs \<Longrightarrow> world E w c bs' = world E w c bs"
  by (simp add: world_def)

lemma other_mappings_mset: "mset bs' = mset bs \<Longrightarrow> other_mappings w c bs' = other_mappings w c bs"
  by (simp add: other_mappings_def)

section \<open>The objects of a program\<close>

lemma book_live:
  assumes "book_ok m (a, n0, rs, os)" "maps_ok E (book_blocks (a, n0, rs, os))"
  shows "mapped_bytes os \<subseteq> mapped_bytes (book_blocks (a, n0, rs, os))" "maps_apart os"
    "\<forall>(p, n) \<in> set os. 0 < unat n \<and> unat p + unat n \<le> 140737488355328"
proof -
  have rep: "arena_rep m a n0 rs" and obj: "arena_objects m a rs os" using assms(1) by auto
  have "maps_ok E ((a, n0) # rs @ [])" using assms(2) by simp
  then show "mapped_bytes os \<subseteq> mapped_bytes (book_blocks (a, n0, rs, os))"
    using live_outside_headers(2) [OF rep] obj unfolding arena_objects_def book_blocks.simps by blast
  show "maps_apart os" "\<forall>(p, n) \<in> set os. 0 < unat n \<and> unat p + unat n \<le> 140737488355328"
    using obj by (auto simp: arena_objects_def)
qed

lemma maps_apart_appendI:
  assumes "maps_apart xs" "maps_apart ys" "mapped_bytes xs \<inter> mapped_bytes ys = {}"
    and "\<forall>(p, n) \<in> set (xs @ ys). 0 < unat n \<and> unat p + unat n \<le> 140737488355328"
  shows "maps_apart (xs @ ys)"
  using assms
proof (induction xs rule: maps_apart.induct)
  case (2 p n xs)
  have "apart p (unat n) q (unat k)" if q: "(q, k) \<in> set ys" for q k
  proof (rule disjoint_apart)
    have "area q (unat k) \<subseteq> mapped_bytes ys" using q unfolding mapped_bytes_def by blast
    then show "area p (unat n) \<inter> area q (unat k) = {}" using "2.prems"(3) by (simp del: in_area) blast
    have "(p, n) \<in> set (((p, n) # xs) @ ys)" "(q, k) \<in> set (((p, n) # xs) @ ys)" using q by simp_all
    then show "0 < unat n" "0 < unat k" "unat p + unat n \<le> 18446744073709551616" "unat q + unat k \<le> 18446744073709551616"
      using bspec [OF "2.prems"(4)] by force+
  qed
  moreover have "maps_apart (xs @ ys)"
    by (rule "2.IH") (use "2.prems" in \<open>auto simp del: in_area\<close>)
  ultimately show ?case using "2.prems"(1) by auto
qed simp

definition handed_out :: "(u64 \<times> maps) list \<Rightarrow> maps" where
  "handed_out As = concat (map snd As)"

lemma handed_out_simps [simp]:
  "handed_out [] = []" "handed_out ((a, os) # As) = os @ handed_out As"
  by (simp_all add: handed_out_def)

lemma books_objects:
  assumes "\<forall>D \<in> set Ds. book_ok m D" "maps_ok E (all_blocks Ds)"
  shows "maps_apart (handed_out (map book_use Ds))"
    "mapped_bytes (handed_out (map book_use Ds)) \<subseteq> mapped_bytes (all_blocks Ds)"
    "\<forall>(p, n) \<in> set (handed_out (map book_use Ds)). 0 < unat n \<and> unat p + unat n \<le> 140737488355328"
proof -
  have "maps_apart (handed_out (map book_use Ds)) \<and>
    mapped_bytes (handed_out (map book_use Ds)) \<subseteq> mapped_bytes (all_blocks Ds) \<and>
    (\<forall>(p, n) \<in> set (handed_out (map book_use Ds)). 0 < unat n \<and> unat p + unat n \<le> 140737488355328)"
    using assms
  proof (induction Ds)
    case (Cons D Ds)
    obtain a n0 rs os where D: "D = (a, n0, rs, os)" by (metis prod_cases4)
    have ok: "maps_ok E (book_blocks D)" "maps_ok E (all_blocks Ds)"
      by (rule maps_ok_subset [OF Cons.prems(2)], simp)+
    note b = book_live [OF Cons.prems(1) [rule_format, of D, unfolded D] ok(1) [unfolded D]]
    have IH: "maps_apart (handed_out (map book_use Ds))"
      "mapped_bytes (handed_out (map book_use Ds)) \<subseteq> mapped_bytes (all_blocks Ds)"
      "\<forall>(p, n) \<in> set (handed_out (map book_use Ds)). 0 < unat n \<and> unat p + unat n \<le> 140737488355328"
      using Cons.IH [OF _ ok(2)] Cons.prems(1) by auto
    have "maps_apart (book_blocks D @ all_blocks Ds)" using Cons.prems(2) by (simp add: maps_ok_def)
    from maps_apart_append_disjoint [OF this]
    have dis: "mapped_bytes os \<inter> mapped_bytes (handed_out (map book_use Ds)) = {}" using b(1) IH(2) D by auto
    have "maps_apart (os @ handed_out (map book_use Ds))"
      by (rule maps_apart_appendI [OF b(2) IH(1) dis]) (use b(3) IH(3) in auto)
    then show ?case using b(1,3) IH(2,3) by (auto simp: D simp del: in_area)
  qed simp
  then show "maps_apart (handed_out (map book_use Ds))"
    "mapped_bytes (handed_out (map book_use Ds)) \<subseteq> mapped_bytes (all_blocks Ds)"
    "\<forall>(p, n) \<in> set (handed_out (map book_use Ds)). 0 < unat n \<and> unat p + unat n \<le> 140737488355328" by blast+
qed

section \<open>The invariant\<close>

text \<open>The machine holds the mappings of the context, the blocks of the arenas in use, and those it had before, and no other;
  the counters behind the leak report count the arenas in use; the clients hold the pool.\<close>

abbreviation clients_now :: "mem \<Rightarrow> bc_context \<Rightarrow> (client \<times> objects) list \<Rightarrow> bool" where
  "clients_now m c \<equiv> clients_hold client_rep (m, c) m c"

definition program_inv :: "env \<Rightarrow> machine \<Rightarrow> bool \<times> u64 \<times> u64 \<Rightarrow> program_state \<Rightarrow> bool" where
  "program_inv E w0 opts s \<longleftrightarrow>
     (case s of (w, c, As, Cs) \<Rightarrow>
       (\<exists>Ds. As = map book_use Ds \<and> (\<forall>D \<in> set Ds. book_ok (mc_mem w) D) \<and>
          world E w c (all_blocks Ds @ mc_maps w0) \<and> other_mappings w c (all_blocks Ds @ mc_maps w0) = {#}) \<and>
       (\<exists>Bs. Cs = map fst Bs \<and> clients_now (mc_mem w) c Bs) \<and> tags_mapped c \<and>
       agree (mc_mem w0) (mc_mem w) (mapped_bytes (mc_maps w0)) \<and> leak_setup c = opts \<and>
       (cx_tracking_enabled c \<longrightarrow> cx_arena_create_count c = cx_arena_destroy_count c + of_nat (length As)))"

lemma program_invE:
  assumes "program_inv E w0 opts (w, c, As, Cs)"
  obtains Ds where "As = map book_use Ds" "\<forall>D \<in> set Ds. book_ok (mc_mem w) D" "world E w c (all_blocks Ds @ mc_maps w0)"
    "other_mappings w c (all_blocks Ds @ mc_maps w0) = {#}" "tags_mapped c"
    "agree (mc_mem w0) (mc_mem w) (mapped_bytes (mc_maps w0))" "leak_setup c = opts"
    "cx_tracking_enabled c \<longrightarrow> cx_arena_create_count c = cx_arena_destroy_count c + of_nat (length As)"
  using assms by (auto simp: program_inv_def)

lemma program_inv_clients:
  assumes "program_inv E w0 opts (w, c, As, Cs)"
  obtains Bs where "Cs = map fst Bs" "clients_now (mc_mem w) c Bs"
  using assms by (auto simp: program_inv_def)

lemma program_inv_client:
  assumes "program_inv E w0 opts (w, c, As, Cs @ x # Cs')"
  obtains xs S ys where "Cs = map fst xs" "Cs' = map fst ys" "clients_now (mc_mem w) c (xs @ (x, S) # ys)"
proof -
  obtain Bs where B: "Cs @ x # Cs' = map fst Bs" "clients_now (mc_mem w) c Bs" by (rule program_inv_clients [OF assms])
  then obtain xs b ys where e: "Bs = xs @ b # ys" "Cs = map fst xs" "x = fst b" "Cs' = map fst ys"
    by (fastforce simp: append_eq_map_conv Cons_eq_map_conv)
  show thesis by (rule that [OF e(2,4), of "snd b"]) (use B(2) e in simp)
qed

text \<open>Steps of the pool: the arenas and the earlier mappings lie outside its memory.\<close>

lemma program_inv_pool:
  assumes inv: "program_inv E w0 opts (w, c, As, Cs)" and h: "clients_hold client_rep (mc_mem w, c) m' c' Bs"
  shows "program_inv E w0 opts (w\<lparr>mc_mem := m'\<rparr>, c', As, map fst Bs)"
    "agree (mc_mem w) m' (mapped_bytes (handed_out As))"
proof -
  obtain Ds where D: "As = map book_use Ds" "\<forall>D \<in> set Ds. book_ok (mc_mem w) D" "world E w c (all_blocks Ds @ mc_maps w0)"
    "other_mappings w c (all_blocks Ds @ mc_maps w0) = {#}" and t: "tags_mapped c"
    and ag: "agree (mc_mem w0) (mc_mem w) (mapped_bytes (mc_maps w0))" and o: "leak_setup c = opts"
    "cx_tracking_enabled c \<longrightarrow> cx_arena_create_count c = cx_arena_destroy_count c + of_nat (length As)"
    by (rule program_invE [OF inv])
  have f: "pool_frame (mc_mem w) c m' c'" and v: "cache_view c' = cache_view c" and l: "leak_view c' = leak_view c"
    using h by (simp_all add: clients_hold_def pool_since_def)
  have sh: "pool_shape c' = pool_shape c" and out: "agree (mc_mem w) m' (- pool_area c)" using f by (auto simp: pool_frame_def)
  note s = pool_shapeD [OF sh] and cm = context_maps_same [OF sh v] and wb = world_blocks [OF D(3)]
  have "mapped_bytes (all_blocks Ds @ mc_maps w0) \<inter> mapped_bytes (ctx_mappings c) = {}"
    by (rule maps_apart_append_disjoint) (use wb(2) in \<open>simp add: maps_ok_def\<close>)
  then have "pool_area c \<inter> mapped_bytes (all_blocks Ds @ mc_maps w0) = {}"
    using pool_area_mapped [OF t] ctx_mappings_fixed [of c] by blast
  then have a1: "agree (mc_mem w) m' (mapped_bytes (all_blocks Ds @ mc_maps w0))" by (rule agree_off [OF out])
  have ok: "maps_ok E (all_blocks Ds)" by (rule maps_ok_subset [OF wb(1)]) simp
  have a2: "agree (mc_mem w) m' (mapped_bytes (all_blocks Ds))" using a1 by (auto simp del: mset_map intro: agree_subset)
  then have "\<forall>D \<in> set Ds. book_ok m' D" by (rule books_elsewhere [OF D(2) ok])
  moreover have "world E (w\<lparr>mc_mem := m'\<rparr>) c' (all_blocks Ds @ mc_maps w0)"
    using D(3) v s(5) cm(1) by (simp add: world_def cache_view_def)
  moreover have "other_mappings (w\<lparr>mc_mem := m'\<rparr>) c' (all_blocks Ds @ mc_maps w0) = {#}"
    using D(4) cm(1) by (simp add: other_mappings_def)
  moreover have "agree (mc_mem w0) m' (mapped_bytes (mc_maps w0))"
    using ag a1 by (auto intro: agree_trans agree_subset)
  moreover have "tags_mapped c'" using cm(3) t by simp
  moreover have "leak_setup c' = opts" "cx_tracking_enabled c' = cx_tracking_enabled c"
    "cx_arena_create_count c' = cx_arena_create_count c" "cx_arena_destroy_count c' = cx_arena_destroy_count c"
    using l o(1) by (auto simp: leak_view_def leak_setup_def)
  ultimately show "program_inv E w0 opts (w\<lparr>mc_mem := m'\<rparr>, c', As, map fst Bs)"
    unfolding program_inv_def prod.case using D(1) clients_hold_now [OF h] o(2)
    by (intro conjI exI [of _ Ds] exI [of _ Bs]) simp_all
  show "agree (mc_mem w) m' (mapped_bytes (handed_out As))"
    by (rule agree_subset [OF a2]) (use books_objects(2) [OF D(2) ok] D(1) in simp)
qed

context bc_os
begin

text \<open>Steps of an arena: its blocks change, the blocks of the others and the pool's memory do not.\<close>

lemma program_inv_arenas:
  assumes inv: "program_inv E w0 opts (w, c, As, Cs)"
    and Ds: "\<forall>D \<in> set Ds. book_ok (mc_mem w) D" "maps_ok E (all_blocks Ds)"
    and fr: "arena_frame (mc_mem w) (mc_mem w') c (all_blocks Ds @ mc_maps w0)"
    and new: "\<forall>D \<in> set Ns. book_ok (mc_mem w') D" "mset (all_blocks Ds') = mset (all_blocks Ns) + mset (all_blocks Ds)"
      "set Ds' = set Ns \<union> set Ds"
    and W: "world E w' c' (all_blocks Ds' @ mc_maps w0)" "other_mappings w' c' (all_blocks Ds' @ mc_maps w0) = {#}"
    and v: "pool_view c' = pool_view c" "stat_view c' = stat_view c"
    and l: "leak_setup c' = leak_setup c"
      "cx_tracking_enabled c' \<longrightarrow> cx_arena_create_count c' = cx_arena_destroy_count c' + of_nat (length Ds')"
  shows "program_inv E w0 opts (w', c', map book_use Ds', Cs)"
    "x \<in> set Cs \<Longrightarrow> (p, n) \<in> hands_out x \<Longrightarrow> agree (mc_mem w) (mc_mem w') (area p n)"
proof -
  have p: "tags_mapped c" "agree (mc_mem w0) (mc_mem w) (mapped_bytes (mc_maps w0))"
    "leak_setup c = opts" using inv by (auto simp: program_inv_def)
  obtain Bs where B: "Cs = map fst Bs" "clients_now (mc_mem w) c Bs" by (rule program_inv_clients [OF inv])
  have ag: "agree (mc_mem w) (mc_mem w') (mapped_bytes (all_blocks Ds))"
    "agree (mc_mem w) (mc_mem w') (mapped_bytes (mc_maps w0))" "agree (mc_mem w) (mc_mem w') (mapped_bytes (fixed_mappings c))"
    using fr unfolding arena_frame_def by (auto intro: agree_subset)
  have "\<forall>D \<in> set Ds'. book_ok (mc_mem w') D" using books_elsewhere [OF Ds ag(1)] new(1,3) by blast
  moreover have "pool_objects (mc_mem w) c (owned Bs)" using B(2) by (simp add: clients_hold_def)
  note e = pool_objects_elsewhere [OF this agree_subset [OF ag(3) pool_area_mapped [OF p(1)]] v]
  have "clients_now (mc_mem w') c' Bs" by (rule clients.clients_same [OF B(2) e(2)]) (simp add: e(1))
  moreover have "tags_mapped c'" using p(1) v(1) by (simp add: tags_mapped_def pool_view_def)
  ultimately show "program_inv E w0 opts (w', c', map book_use Ds', Cs)"
    unfolding program_inv_def prod.case using W p(2,3) ag(2) l B(1)
    by (intro conjI exI [of _ Ds'] exI [of _ Bs]) (auto intro: agree_trans)
  assume "x \<in> set Cs" "(p, n) \<in> hands_out x"
  then have "in_object p n (owned Bs)" using clients.hands_out_owned(1) [OF B(2)] B(1) by auto
  then show "agree (mc_mem w) (mc_mem w') (area p n)" by (rule in_object_agree [OF _ e(2)])
qed

end

lemma book_arena_inv:
  assumes "world E w c (all_blocks (xs @ (a, n0, rs, os) # ys) @ ms)" "book_ok (mc_mem w) (a, n0, rs, os)"
  shows "arena_inv E w c a n0 rs (all_blocks (xs @ ys) @ ms)" "arena_objects (mc_mem w) a rs os"
    "maps_ok E (all_blocks (xs @ ys))"
proof -
  have "world E w c ((a, n0) # rs @ all_blocks (xs @ ys) @ ms)"
    using assms(1) by (rule world_mset [THEN iffD1, rotated]) simp
  then show i: "arena_inv E w c a n0 rs (all_blocks (xs @ ys) @ ms)" using assms(2) by (simp add: arena_inv_def)
  show "arena_objects (mc_mem w) a rs os" using assms(2) by simp
  show "maps_ok E (all_blocks (xs @ ys))" by (rule maps_ok_subset [OF arena_invD(3) [OF i]]) simp
qed

section \<open>Steps of one arena\<close>

lemma arena_step_leak_view: "arena_step E a (w, c, os) (w', c', os') \<Longrightarrow> leak_view c' = leak_view c"
  by (induction "(w, c, os)" "(w', c', os')" rule: arena_step.induct)
    (auto dest: leak_view_arena_allocate leak_view_arena_reset leak_view_reset_secure)

context bc_os
begin

lemma arena_step_frame:
  assumes st: "arena_step E a (w, c, os) (w', c', os')" and inv: "arena_inv E w c a n0 rs bs"
    and os: "arena_objects (mc_mem w) a rs os"
  shows "arena_frame (mc_mem w) (mc_mem w') c bs" "pool_view c' = pool_view c" "stat_view c' = stat_view c"
    "fixed_mappings c' = fixed_mappings c"
proof -
  have "arena_frame (mc_mem w) (mc_mem w') c bs \<and> pool_view c' = pool_view c \<and> stat_view c' = stat_view c
    \<and> fixed_mappings c' = fixed_mappings c"
    using st
  proof (induction "(w, c, os)" "(w', c', os')" rule: arena_step.induct)
    case (step_allocate sz al p)
    then show ?case using arena_allocate_ok [OF inv] by (fastforce simp: arena_kept_def)
  next
    case (step_refuse sz al)
    then show ?case using arena_allocate_ok [OF inv] by (fastforce simp: arena_kept_def)
  next
    case (step_write p n m')
    have sub: "area p (unat n) \<subseteq> arena_live (mc_mem w) a rs"
      using os step_write(1) unfolding arena_objects_def mapped_bytes_def by blast
    show ?case using arena_client_write(3) [OF inv step_write(2) sub] step_write by auto
  next
    case step_reset
    then show ?case using arena_reset_ok [OF inv] by auto
  next
    case step_reset_secure
    then show ?case using arena_reset_secure_ok [OF inv] by auto
  next
    case (step_release_pages r)
    then show ?case using arena_release_pages_ok [OF inv] by (auto simp: arena_frame_def)
  qed
  then show "arena_frame (mc_mem w) (mc_mem w') c bs" "pool_view c' = pool_view c" "stat_view c' = stat_view c"
    "fixed_mappings c' = fixed_mappings c" by blast+
qed

lemma arena_step_whole:
  assumes st: "arena_step E a (w, c, os) (w', c', os')" and inv: "arena_inv E w c a n0 rs bs"
    and os: "arena_objects (mc_mem w) a rs os"
  obtains rs' where "arena_inv E w' c' a n0 rs' bs" "arena_objects (mc_mem w') a rs' os'"
    "arena_frame (mc_mem w) (mc_mem w') c bs"
    "other_mappings w' c' ((a, n0) # rs' @ bs) = other_mappings w c ((a, n0) # rs @ bs)"
proof -
  have "arena_state E a n0 bs w c (w, c, os) (other_mappings w c ((a, n0) # rs @ bs))"
    using inv os by (auto simp: arena_state_def arena_frame_def)
  from arena_step_keeps [OF st this] show thesis using that by (auto simp: arena_state_def)
qed

lemma program_step_arena:
  assumes st: "arena_step E a (w, c, os) (w', c', os')" and inv: "program_inv E w0 opts (w, c, As @ (a, os) # As', Cs)"
  shows "program_inv E w0 opts (w', c', As @ (a, os') # As', Cs)"
    "agree (mc_mem w) (mc_mem w') (mapped_bytes (handed_out (As @ As')))"
    "x \<in> set Cs \<Longrightarrow> (p, n) \<in> hands_out x \<Longrightarrow> agree (mc_mem w) (mc_mem w') (area p n)"
proof -
  obtain Ds where D: "As @ (a, os) # As' = map book_use Ds" "\<forall>D \<in> set Ds. book_ok (mc_mem w) D"
    "world E w c (all_blocks Ds @ mc_maps w0)" "other_mappings w c (all_blocks Ds @ mc_maps w0) = {#}"
    and cnt: "cx_tracking_enabled c \<longrightarrow> cx_arena_create_count c = cx_arena_destroy_count c + of_nat (length (As @ (a, os) # As'))"
    by (rule program_invE [OF inv])
  obtain xs n0 rs ys where e: "Ds = xs @ (a, n0, rs, os) # ys" "As = map book_use xs" "As' = map book_use ys"
    using D(1) by (fastforce simp: map_eq_append_conv map_eq_Cons_conv append_eq_map_conv Cons_eq_map_conv)
  have bo: "book_ok (mc_mem w) (a, n0, rs, os)" using D(2) e(1) by auto
  note b = book_arena_inv [OF D(3) [unfolded e(1)] bo]
  obtain rs' where r: "arena_inv E w' c' a n0 rs' (all_blocks (xs @ ys) @ mc_maps w0)" "arena_objects (mc_mem w') a rs' os'"
    "arena_frame (mc_mem w) (mc_mem w') c (all_blocks (xs @ ys) @ mc_maps w0)"
    "other_mappings w' c' ((a, n0) # rs' @ all_blocks (xs @ ys) @ mc_maps w0) =
      other_mappings w c ((a, n0) # rs @ all_blocks (xs @ ys) @ mc_maps w0)"
    by (rule arena_step_whole [OF st b(1,2)])
  note v = arena_step_frame [OF st b(1,2)] and lv = arena_step_leak_view [OF st]
  define Ds' where "Ds' = xs @ (a, n0, rs', os') # ys"
  have m: "mset (all_blocks Ds' @ mc_maps w0) = mset ((a, n0) # rs' @ all_blocks (xs @ ys) @ mc_maps w0)"
    "mset (all_blocks Ds @ mc_maps w0) = mset ((a, n0) # rs @ all_blocks (xs @ ys) @ mc_maps w0)"
    by (simp_all add: Ds'_def e(1))
  have bk: "\<forall>D \<in> set (xs @ ys). book_ok (mc_mem w) D" using D(2) e(1) by auto
  have new: "\<forall>D \<in> set [(a, n0, rs', os')]. book_ok (mc_mem w') D" "world E w' c' (all_blocks Ds' @ mc_maps w0)"
    "other_mappings w' c' (all_blocks Ds' @ mc_maps w0) = {#}"
    using r(1,2,4) D(4) world_mset [OF m(1)] unfolding other_mappings_mset [OF m(1)] other_mappings_mset [OF m(2)]
    by (simp_all add: arena_inv_def)
  have cnt': "cx_tracking_enabled c' \<longrightarrow> cx_arena_create_count c' = cx_arena_destroy_count c' + of_nat (length Ds')"
    using cnt lv e by (simp add: leak_view_def leak_setup_def Ds'_def)
  note pa = program_inv_arenas [OF inv bk b(3) r(3) new(1) _ _ new(2,3) v(2,3) leak_view_setup [OF lv] cnt']
  show "program_inv E w0 opts (w', c', As @ (a, os') # As', Cs)" using pa(1) by (simp add: Ds'_def e)
  show "x \<in> set Cs \<Longrightarrow> (p, n) \<in> hands_out x \<Longrightarrow> agree (mc_mem w) (mc_mem w') (area p n)"
    by (rule pa(2)) (auto simp: Ds'_def)
  have "agree (mc_mem w) (mc_mem w') (mapped_bytes (all_blocks (xs @ ys)))"
    using r(3) by (auto simp: arena_frame_def simp del: map_append intro: agree_subset)
  moreover have "mapped_bytes (handed_out (As @ As')) \<subseteq> mapped_bytes (all_blocks (xs @ ys))"
    using books_objects(2) [OF bk b(3)] e(2,3) by simp
  ultimately show "agree (mc_mem w) (mc_mem w') (mapped_bytes (handed_out (As @ As')))" by (rule agree_subset)
qed

lemma program_step_destroy:
  assumes run: "bc_allocators_arena_destroy E w c a = Some (w', c')"
    and inv: "program_inv E w0 opts (w, c, As @ (a, os) # As', Cs)"
  shows "program_inv E w0 opts (w', c', As @ As', Cs)"
proof -
  obtain Ds where D: "As @ (a, os) # As' = map book_use Ds" "\<forall>D \<in> set Ds. book_ok (mc_mem w) D"
    "world E w c (all_blocks Ds @ mc_maps w0)" "other_mappings w c (all_blocks Ds @ mc_maps w0) = {#}"
    and cnt: "cx_tracking_enabled c \<longrightarrow> cx_arena_create_count c = cx_arena_destroy_count c + of_nat (length (As @ (a, os) # As'))"
    by (rule program_invE [OF inv])
  obtain xs n0 rs ys where e: "Ds = xs @ (a, n0, rs, os) # ys" "As = map book_use xs" "As' = map book_use ys"
    using D(1) by (fastforce simp: map_eq_append_conv map_eq_Cons_conv append_eq_map_conv Cons_eq_map_conv)
  have bo: "book_ok (mc_mem w) (a, n0, rs, os)" using D(2) e(1) by auto
  note b = book_arena_inv [OF D(3) [unfolded e(1)] bo]
  have d: "world E w' c' (all_blocks (xs @ ys) @ mc_maps w0)" "mc_mem w' = mc_mem w"
    "other_mappings w' c' (all_blocks (xs @ ys) @ mc_maps w0) =
      other_mappings w c ((a, n0) # rs @ all_blocks (xs @ ys) @ mc_maps w0)"
    "pool_view c' = pool_view c" "stat_view c' = stat_view c"
    "cx_tracking_enabled c \<longrightarrow> cx_arena_create_count c' = cx_arena_create_count c
      \<and> cx_arena_destroy_count c' = cx_arena_destroy_count c + 1"
    using arena_destroy_ok [OF b(1)] run by auto
  have m: "mset (all_blocks Ds @ mc_maps w0) = mset ((a, n0) # rs @ all_blocks (xs @ ys) @ mc_maps w0)" by (simp add: e(1))
  note ls = leak_setup_arena_destroy [OF run]
  have "program_inv E w0 opts (w', c', map book_use (xs @ ys), Cs)"
  proof (rule program_inv_arenas [OF inv _ b(3), of w' "[]" "xs @ ys"])
    show "\<forall>D \<in> set (xs @ ys). book_ok (mc_mem w) D" using D(2) e(1) by auto
    show "arena_frame (mc_mem w) (mc_mem w') c (all_blocks (xs @ ys) @ mc_maps w0)" by (simp add: arena_frame_def d(2))
    show "other_mappings w' c' (all_blocks (xs @ ys) @ mc_maps w0) = {#}" using d(3) D(4) other_mappings_mset [OF m] by simp
    show "cx_tracking_enabled c' \<longrightarrow> cx_arena_create_count c' = cx_arena_destroy_count c' + of_nat (length (xs @ ys))"
      using cnt d(6) ls e by (auto simp: leak_setup_def)
  qed (use d ls in auto)
  then show ?thesis by (simp add: e)
qed

lemma program_step_create:
  assumes run: "arena_make_first E w c cap ini mx g = (r, w', c')" and inv: "program_inv E w0 opts (w, c, As, Cs)"
  shows "program_inv E w0 opts (w', c', (case r of None \<Rightarrow> As | Some a \<Rightarrow> (a, []) # As), Cs)"
proof -
  obtain Ds where D: "As = map book_use Ds" "\<forall>D \<in> set Ds. book_ok (mc_mem w) D"
    "world E w c (all_blocks Ds @ mc_maps w0)" "other_mappings w c (all_blocks Ds @ mc_maps w0) = {#}"
    and cnt: "cx_tracking_enabled c \<longrightarrow> cx_arena_create_count c = cx_arena_destroy_count c + of_nat (length As)"
    by (rule program_invE [OF inv])
  note mf = make_first_ok [OF D(3) run]
  show ?thesis
  proof (cases r)
    case None
    have e: "c' = c" "mc_mem w' = mc_mem w" "mc_maps w' = mc_maps w" using mf(1) [OF None] by simp_all
    then show ?thesis
      using inv None unfolding program_inv_def prod.case by (auto simp: world_def other_mappings_def)
  next
    case (Some a)
    obtain n0 where n: "arena_inv E w' c' a n0 [] (all_blocks Ds @ mc_maps w0)"
      "arena_frame (mc_mem w) (mc_mem w') c (all_blocks Ds @ mc_maps w0)"
      "other_mappings w' c' ((a, n0) # all_blocks Ds @ mc_maps w0) = {#}"
      "cx_tracking_enabled c \<longrightarrow> cx_arena_create_count c' = cx_arena_create_count c + 1"
      using mf(2) [OF Some] D(4) by auto
    have ok: "maps_ok E (all_blocks Ds)" by (rule maps_ok_subset [OF world_blocks(1) [OF D(3)]]) simp
    note ls = leak_setup_make_first [OF run]
    have dc: "cx_arena_destroy_count c' = cx_arena_destroy_count c" by (rule make_first_destroy_count [OF run])
    have "program_inv E w0 opts (w', c', map book_use ((a, n0, [], []) # Ds), Cs)"
    proof (rule program_inv_arenas [OF inv D(2) ok n(2), of "[(a, n0, [], [])]"])
      show "\<forall>D \<in> set [(a, n0, [], [])]. book_ok (mc_mem w') D" using n(1) by (simp add: arena_inv_def)
      show "world E w' c' (all_blocks ((a, n0, [], []) # Ds) @ mc_maps w0)" using n(1) by (simp add: arena_inv_def)
      show "cx_tracking_enabled c' \<longrightarrow> cx_arena_create_count c' =
          cx_arena_destroy_count c' + of_nat (length ((a, n0, [], []) # Ds))"
        using cnt n(4) ls dc D(1) by (simp add: leak_setup_def)
    qed (use n(3) mf(3,4) ls in auto)
    then show ?thesis by (simp add: Some D(1))
  qed
qed

end

end
