(* ===== verification/BC_Program_Spec.thy ===== *)
theory BC_Program_Spec
  imports BC_Program
begin

text \<open>
  The invariant of a program holds from the creation of the context on, in every reachable state; what it says of the
  objects the program holds, and of what remains when the context is destroyed.
\<close>

lemma program_inv_books:
  assumes "program_inv E w0 opts (w, c, As, Cs)"
    and "\<exists>Bs'. map fst Bs' = Cs' \<and> clients_hold client_rep (mc_mem w, c) m' c' Bs'"
  shows "program_inv E w0 opts (w\<lparr>mc_mem := m'\<rparr>, c', As, Cs')"
  using program_inv_pool(1) [OF assms(1)] assms(2) by blast

context bc_os
begin

text \<open>A step of one client: nobody else's memory changes.\<close>

lemma program_step_client:
  assumes st: "client_step E (shared (Cs @ Cs')) (mc_mem w, c, x) (m', c', x')"
    and inv: "program_inv E w0 opts (w, c, As, Cs @ x # Cs')"
  shows "program_inv E w0 opts (w\<lparr>mc_mem := m'\<rparr>, c', As, Cs @ x' # Cs')"
    "agree (mc_mem w) m' (mapped_bytes (handed_out As))"
    "(p, n) \<in> shared (Cs @ Cs') \<Longrightarrow> agree (mc_mem w) m' (area p n)"
proof -
  obtain xs S ys where B: "Cs = map fst xs" "Cs' = map fst ys" "clients_now (mc_mem w) c (xs @ (x, S) # ys)"
    by (rule program_inv_client [OF inv])
  have Q: "shared (Cs @ Cs') = \<Union> (hands_out ` fst ` set (xs @ ys))" by (simp add: B(1,2) image_Un)
  obtain S' where s: "clients_hold client_rep (mc_mem w, c) m' c' (xs @ (x', S') # ys)"
    "kept_objects (mc_mem w) m' (owned (xs @ ys))"
    by (rule clients.clients_step [OF B(3) st equalityD1 [OF Q]])
  from program_inv_pool(1) [OF inv s(1)]
  show "program_inv E w0 opts (w\<lparr>mc_mem := m'\<rparr>, c', As, Cs @ x' # Cs')" by (simp add: B(1,2))
  show "agree (mc_mem w) m' (mapped_bytes (handed_out As))" by (rule program_inv_pool(2) [OF inv s(1)])
  assume "(p, n) \<in> shared (Cs @ Cs')"
  from in_object_agree [OF clients.others_hand_out [OF B(3) this [unfolded Q]] s(2)]
  show "agree (mc_mem w) m' (area p n)" .
qed

lemma program_step_keeps:
  assumes st: "program_step E s t" and inv: "program_inv E w0 opts s"
  shows "program_inv E w0 opts t"
  using st inv
proof (induction rule: program_step.induct)
  case (on_create w c cap a w' c' As Cs)
  from program_step_create [OF on_create.hyps [unfolded bc_allocators_arena_create_def] on_create.prems] show ?case by simp
next
  case (on_create_refused w c cap w' c' As Cs)
  from program_step_create [OF on_create_refused.hyps [unfolded bc_allocators_arena_create_def] on_create_refused.prems]
  show ?case by simp
next
  case (on_create_growable w c ini mx a w' c' As Cs)
  then have "arena_make_first E w c ini ini mx True = (Some a, w', c')"
    by (auto simp: bc_allocators_arena_create_growable_def split: if_splits)
  from program_step_create [OF this on_create_growable.prems] show ?case by simp
next
  case (on_create_growable_refused w c ini mx w' c' As Cs)
  have "(w' = w \<and> c' = c) \<or> arena_make_first E w c ini ini mx True = (None, w', c')"
    using on_create_growable_refused.hyps by (auto simp: bc_allocators_arena_create_growable_def split: if_splits)
  then consider (args) "w' = w" "c' = c" | (block) "arena_make_first E w c ini ini mx True = (None, w', c')" by blast
  then show ?case
  proof cases
    case args
    then show ?thesis using on_create_growable_refused.prems by simp
  next
    case block
    from program_step_create [OF block on_create_growable_refused.prems] show ?thesis by simp
  qed
next
  case (on_arena a w c os w' c' os' As As' S)
  show ?case by (rule program_step_arena [OF on_arena])
next
  case (on_destroy w c a w' c' As os As' S)
  show ?case by (rule program_step_destroy [OF on_destroy])
next
  case (on_allocate sz w c p m' c' As Cs)
  obtain Bs where B: "Cs = map fst Bs" "clients_now (mc_mem w) c Bs" by (rule program_inv_clients [OF on_allocate.prems])
  show ?case
    by (rule program_inv_books [OF on_allocate.prems]) (use clients_allocate(1) [OF B(2) on_allocate.hyps] B(1) in simp)
next
  case (on_refuse sz w c m' c' As Cs)
  obtain Bs where B: "Cs = map fst Bs" "clients_now (mc_mem w) c Bs" by (rule program_inv_clients [OF on_refuse.prems])
  show ?case
    by (rule program_inv_books [OF on_refuse.prems]) (use clients_allocate(1) [OF B(2) on_refuse.hyps] B(1) in simp)
next
  case (on_free w c p m' c' As Cs n Cs')
  obtain xs S ys where B: "Cs = map fst xs" "Cs' = map fst ys" "clients_now (mc_mem w) c (xs @ (Object p n, S) # ys)"
    by (rule program_inv_client [OF on_free.prems])
  from program_inv_pool(1) [OF on_free.prems clients_free(1) [OF B(3) on_free.hyps]] show ?case by (simp add: B)
next
  case (on_slab_create ops osz w c s m' c' As Cs)
  obtain Bs where B: "Cs = map fst Bs" "clients_now (mc_mem w) c Bs" by (rule program_inv_clients [OF on_slab_create.prems])
  show ?case
    by (rule program_inv_books [OF on_slab_create.prems])
      (use clients_slab_create [OF B(2) on_slab_create.hyps(1)] on_slab_create.hyps(2) B(1) in \<open>auto del: map_eq_Cons_D\<close>)
next
  case (on_slab_refused ops osz w c m' c' As Cs)
  obtain Bs where B: "Cs = map fst Bs" "clients_now (mc_mem w) c Bs" by (rule program_inv_clients [OF on_slab_refused.prems])
  show ?case
    by (rule program_inv_books [OF on_slab_refused.prems])
      (use clients_slab_create [OF B(2) on_slab_refused.hyps(1)] on_slab_refused.hyps(2) B(1) in auto)
next
  case (on_slab_destroy w c s m' c' As Cs osz U Cs')
  obtain xs S ys where B: "Cs = map fst xs" "Cs' = map fst ys" "clients_now (mc_mem w) c (xs @ (Slab s osz U, S) # ys)"
    by (rule program_inv_client [OF on_slab_destroy.prems])
  from clients_slab_destroy [OF B(3)] show ?case
    using program_inv_pool(1) [OF on_slab_destroy.prems] on_slab_destroy.hyps B(1,2) by fastforce
next
  case (on_array es w c As Cs)
  obtain Bs where B: "Cs = map fst Bs" "clients_now (mc_mem w) c Bs" by (rule program_inv_clients [OF on_array.prems])
  have "program_inv E w0 opts (w\<lparr>mc_mem := mc_mem w\<rparr>, c, As, Array es zero_array # Cs)"
    by (rule program_inv_books [OF on_array.prems]) (use clients_array [OF B(2) on_array.hyps] B(1) in simp)
  then show ?case by simp
next
  case (on_array_done A w c As Cs es Cs')
  obtain xs S ys where B: "Cs = map fst xs" "Cs' = map fst ys" "clients_now (mc_mem w) c (xs @ (Array es A, S) # ys)"
    by (rule program_inv_client [OF on_array_done.prems])
  from program_inv_pool(1) [OF on_array_done.prems clients_array_done [OF B(3) on_array_done.hyps]] show ?case by (simp add: B)
next
  case (on_client Cs Cs' w c x m' c' x' As)
  show ?case by (rule program_step_client(1) [OF on_client])
qed

lemma program_reachable:
  assumes "(program_step E)\<^sup>*\<^sup>* s t" "program_inv E w0 opts s"
  shows "program_inv E w0 opts t"
  using assms by (induction rule: rtranclp_induct) (auto intro: program_step_keeps)

lemma program_start:
  assumes create: "bc_allocators_context_create E w0 config = (Some c, w)" and ok: "maps_ok E (mc_maps w0)"
  shows "program_inv E w0 (snd (config_values config)) (w, c, [], [])"
proof -
  note cc = context_create_Some [OF create]
  have "world E w c (mc_maps w0)" by (rule context_create_apart(2) [OF create ok])
  moreover have "other_mappings w c (mc_maps w0) = {#}" using cc(2) by (simp add: other_mappings_def)
  moreover have "pool_objects (mc_mem w) c {}" unfolding pool_objects_def using cc(1) by blast
  then have "clients_now (mc_mem w) c []" by simp
  moreover have "tags_mapped c" by (rule context_create_world(2) [OF create ok])
  moreover have "leak_setup c = snd (config_values config)" using cc(7) by (simp add: leak_setup_def)
  ultimately show ?thesis unfolding program_inv_def prod.case using cc(3,8,9) by (intro conjI exI [of _ "[]"]) simp_all
qed

lemma program_from_create:
  assumes "bc_allocators_context_create E w0 config = (Some c0, w1)" "maps_ok E (mc_maps w0)"
    and "(program_step E)\<^sup>*\<^sup>* (w1, c0, [], []) s"
  shows "program_inv E w0 (snd (config_values config)) s"
  by (rule program_reachable [OF assms(3) program_start [OF assms(1,2)]])

end

section \<open>The arenas of a program\<close>

lemma book_first_block: "book_ok m (a, n0, rs, os) \<Longrightarrow> 0 < unat n0"
  by (auto simp: arena_rep_def chunk_rep_def)

lemma books_distinct:
  "\<forall>D \<in> set Ds. book_ok m D \<Longrightarrow> maps_ok E (all_blocks Ds) \<Longrightarrow> distinct (map fst Ds)"
proof (induction Ds)
  case (Cons D Ds)
  obtain a n0 rs os where D: "D = (a, n0, rs, os)" by (metis prod_cases4)
  have "maps_apart (book_blocks D @ all_blocks Ds)" using Cons.prems(2) by (simp add: maps_ok_def)
  from maps_apart_append_disjoint [OF this] have dis: "mapped_bytes (book_blocks D) \<inter> mapped_bytes (all_blocks Ds) = {}" .
  have self: "b \<in> mapped_bytes (book_blocks (b, n1, rs1, os1))" if "book_ok m (b, n1, rs1, os1)" for b n1 rs1 os1
    using book_first_block [OF that] by simp
  have "a \<noteq> b" if b: "(b, n1, rs1, os1) \<in> set Ds" for b n1 rs1 os1
  proof -
    have "book_ok m (a, n0, rs, os)" "book_ok m (b, n1, rs1, os1)" using Cons.prems(1) b D by (auto simp del: book_ok.simps)
    from this [THEN self] have "a \<in> mapped_bytes (book_blocks D)" "b \<in> mapped_bytes (all_blocks Ds)"
      using D book_bytes [OF b] by blast+
    then show ?thesis using dis by blast
  qed
  then have "fst D \<notin> fst ` set Ds" using D by fastforce
  moreover have "distinct (map fst Ds)"
    by (rule Cons.IH [OF _ maps_ok_subset [OF Cons.prems(2)]]) (use Cons.prems(1) in simp_all)
  ultimately show ?case by simp
qed simp

lemma books_number:
  assumes "\<forall>D \<in> set Ds. book_ok m D" "maps_ok E (all_blocks Ds)"
  shows "length Ds \<le> 140737488355328"
proof -
  have "unat a \<le> 140737488355327" if mem: "a \<in> set (map fst Ds)" for a
  proof -
    obtain D0 where "D0 \<in> set Ds" "a = fst D0" using mem by auto
    then obtain n0 rs os where D: "(a, n0, rs, os) \<in> set Ds" by (metis prod_cases4 fst_conv)
    then have "(a, n0) \<in> set (all_blocks Ds)" by (force intro: bexI [of _ "(a, n0, rs, os)"])
    then show ?thesis using assms book_first_block [of m a n0 rs os] D by (fastforce simp: maps_ok_def map_ok_def)
  qed
  then have "unat ` set (map fst Ds) \<subseteq> {..< 140737488355328}" by force
  then have "card (unat ` set (map fst Ds)) \<le> 140737488355328" by (metis card_lessThan card_mono finite_lessThan)
  moreover have "card (unat ` set (map fst Ds)) = card (set (map fst Ds))"
    by (intro card_image inj_onI) (simp add: u64_eq_iff)
  moreover have "card (set (map fst Ds)) = length Ds" using distinct_card [OF books_distinct [OF assms]] by simp
  ultimately show ?thesis by simp
qed

section \<open>What the invariant gives\<close>

lemma program_arenas_isolated:
  assumes inv: "program_inv E w0 opts (w, c, As, Cs)"
  shows "maps_apart (handed_out As)"
    "mapped_bytes (handed_out As) \<inter> pool_area c = {}"
    "(a, os) \<in> set As \<Longrightarrow> \<exists>n0 rs bs. arena_inv E w c a n0 rs bs \<and> arena_objects (mc_mem w) a rs os"
    "of_nat (length As) = (0 :: u64) \<longleftrightarrow> As = []"
proof -
  obtain Ds where D: "As = map book_use Ds" "\<forall>D \<in> set Ds. book_ok (mc_mem w) D" "world E w c (all_blocks Ds @ mc_maps w0)"
    "tags_mapped c" by (rule program_invE [OF inv])
  note wb = world_blocks [OF D(3)]
  have ok: "maps_ok E (all_blocks Ds)" by (rule maps_ok_subset [OF wb(1)]) simp
  note bo = books_objects [OF D(2) ok, folded D(1)]
  show "maps_apart (handed_out As)" by (rule bo(1))
  have "mapped_bytes (all_blocks Ds @ mc_maps w0) \<inter> mapped_bytes (ctx_mappings c) = {}"
    by (rule maps_apart_append_disjoint) (use wb(2) in \<open>simp add: maps_ok_def\<close>)
  then have "mapped_bytes (all_blocks Ds) \<inter> pool_area c = {}"
    using pool_area_mapped [OF D(4)] ctx_mappings_fixed [of c] by (simp only: mapped_bytes_append) blast
  then show "mapped_bytes (handed_out As) \<inter> pool_area c = {}" using bo(2) by blast
  show "\<exists>n0 rs bs. arena_inv E w c a n0 rs bs \<and> arena_objects (mc_mem w) a rs os" if mem: "(a, os) \<in> set As"
  proof -
    obtain D0 where D0: "D0 \<in> set Ds" "(a, os) = book_use D0" using mem by (auto simp: D(1))
    obtain b n0 rs os1 where "D0 = (b, n0, rs, os1)" by (metis prod_cases4)
    with D0 have d: "(a, n0, rs, os) \<in> set Ds" by simp
    then obtain xs ys where e: "Ds = xs @ (a, n0, rs, os) # ys" by (meson split_list)
    show ?thesis using book_arena_inv [OF D(3) [unfolded e]] D(2) d by blast
  qed
  have "length As < 18446744073709551616" using books_number [OF D(2) ok] D(1) by simp
  then have "unat (of_nat (length As) :: u64) = length As" by (rule unat_of_nat_no_wrap)
  then show "of_nat (length As) = (0 :: u64) \<longleftrightarrow> As = []" by (metis length_0_conv unat_eq_zero of_nat_0 list.size(3))
qed

context bc_os
begin

lemma program_clients_isolated:
  assumes inv: "program_inv E w0 opts (w, c, As, Cs)"
  shows "x \<in> set Cs \<Longrightarrow> (p, n) \<in> hands_out x \<Longrightarrow> p \<noteq> NULL \<and> area p n \<inter> mapped_bytes (handed_out As) = {}"
    "i < length Cs \<Longrightarrow> j < length Cs \<Longrightarrow> (p, n) \<in> hands_out (Cs ! i) \<Longrightarrow> (q, k) \<in> hands_out (Cs ! j) \<Longrightarrow>
      (i, p, n) \<noteq> (j, q, k) \<Longrightarrow> area p n \<inter> area q k = {}"
proof -
  obtain Bs where B: "Cs = map fst Bs" "clients_now (mc_mem w) c Bs" by (rule program_inv_clients [OF inv])
  have h: "pool_objects (mc_mem w) c (owned Bs)" using B(2) by (simp add: clients_hold_def)
  show "p \<noteq> NULL \<and> area p n \<inter> mapped_bytes (handed_out As) = {}" if x: "x \<in> set Cs" "(p, n) \<in> hands_out x"
  proof -
    have "x \<in> fst ` set Bs" using x(1) B(1) by simp
    note o = clients.hands_out_owned [OF B(2) this x(2)]
    show ?thesis using o(2) in_object_pool [OF o(1) h] program_arenas_isolated(2) [OF inv] by blast
  qed
  show "area p n \<inter> area q k = {}" if "i < length Cs" "j < length Cs" "(p, n) \<in> hands_out (Cs ! i)"
    "(q, k) \<in> hands_out (Cs ! j)" "(i, p, n) \<noteq> (j, q, k)"
    by (rule clients.clients_apart [OF B(2) _ _ _ _ that(5)]) (use that B(1) in simp_all)
qed

lemma program_inv_end:
  assumes inv: "program_inv E w0 (tr, cb, arg) (w, c, As, Cs)"
  shows "mc_leaks (bc_allocators_context_destroy E w c) = mc_leaks w @
      (if tr \<and> cb \<noteq> NULL
       then (if list_ex holds_memory Cs then [(cb, ''bc-allocators: pool leak detected'', arg)] else []) @
            (if As \<noteq> [] then [(cb, ''bc-allocators: arena leak detected'', arg)] else [])
       else [])"
    "As = [] \<Longrightarrow> mset (mc_maps (bc_allocators_context_destroy E w c)) = mset (mc_maps w0)"
    "agree (mc_mem w0) (mc_mem (bc_allocators_context_destroy E w c)) (mapped_bytes (mc_maps w0))"
proof -
  obtain Ds where D: "As = map book_use Ds" "world E w c (all_blocks Ds @ mc_maps w0)"
    "other_mappings w c (all_blocks Ds @ mc_maps w0) = {#}"
    and ag: "agree (mc_mem w0) (mc_mem w) (mapped_bytes (mc_maps w0))" and o: "leak_setup c = (tr, cb, arg)"
    "cx_tracking_enabled c \<longrightarrow> cx_arena_create_count c = cx_arena_destroy_count c + of_nat (length As)"
    by (rule program_invE [OF inv])
  have le: "mset (ctx_mappings c) + mset (all_blocks Ds @ mc_maps w0) \<subseteq># mset (mc_maps w)" using D(2) by (simp add: world_def)
  have eq: "mset (mc_maps w) = mset (ctx_mappings c) + mset (all_blocks Ds @ mc_maps w0)"
    using le D(3) by (simp only: other_mappings_def Diff_eq_empty_iff_mset subset_mset.antisym)
  have "mset (ctx_mappings c) \<subseteq># mset (mc_maps w)" unfolding eq by simp
  note cd = context_destroy_maps [OF this]
  show "As = [] \<Longrightarrow> mset (mc_maps (bc_allocators_context_destroy E w c)) = mset (mc_maps w0)"
    using cd(1) eq D(1) by simp
  show "agree (mc_mem w0) (mc_mem (bc_allocators_context_destroy E w c)) (mapped_bytes (mc_maps w0))"
    using ag cd(2) by simp
  obtain Bs where B: "Cs = map fst Bs" "clients_now (mc_mem w) c Bs" by (rule program_inv_clients [OF inv])
  then have "pool_objects (mc_mem w) c (owned Bs)" by (simp add: clients_hold_def)
  then obtain L where L: "pool_inv (mc_mem w) c L" "owned Bs = pool_object (mc_mem w) c ` L" by (auto simp: pool_objects_def)
  have own: "S = {} \<longleftrightarrow> \<not> holds_memory x" if "(x, S) \<in> set Bs" for x S
    by (rule client_owns [of "mc_mem w"]) (use B(2) that in \<open>auto simp: clients_hold_def\<close>)
  have "owned Bs = {} \<longleftrightarrow> (\<forall>(x, S) \<in> set Bs. S = {})" by (auto simp: owned_def)
  also have "\<dots> \<longleftrightarrow> (\<forall>(x, S) \<in> set Bs. \<not> holds_memory x)" using own by blast
  finally have "owned Bs = {} \<longleftrightarrow> (\<forall>(x, S) \<in> set Bs. \<not> holds_memory x)" .
  then have "owned Bs \<noteq> {} \<longleftrightarrow> list_ex holds_memory Cs" by (fastforce simp: B(1) list_ex_iff)
  then have "cx_tracking_enabled c \<Longrightarrow> cx_pool_alloc_count c \<noteq> cx_pool_free_count c \<longleftrightarrow> list_ex holds_memory Cs"
    using leak_iff_live [OF L(1)] L(2) by simp
  moreover have "cx_tracking_enabled c \<Longrightarrow> cx_arena_create_count c \<noteq> cx_arena_destroy_count c \<longleftrightarrow> As \<noteq> []"
    using o(2) program_arenas_isolated(4) [OF inv] by simp
  ultimately show "mc_leaks (bc_allocators_context_destroy E w c) = mc_leaks w @
      (if tr \<and> cb \<noteq> NULL
       then (if list_ex holds_memory Cs then [(cb, ''bc-allocators: pool leak detected'', arg)] else []) @
            (if As \<noteq> [] then [(cb, ''bc-allocators: arena leak detected'', arg)] else [])
       else [])"
    using o(1) unfolding cd(3) by (simp add: report_leaks_def deliver_leak_def leak_setup_def Let_def)
qed

section \<open>Winding down\<close>

text \<open>Each arena can be destroyed, each client given back: no call on the way is stuck.\<close>

lemma program_arena_ends:
  assumes inv: "program_inv E w0 opts (w, c, (a, os) # As, Cs)"
  shows "\<exists>w' c'. program_step E (w, c, (a, os) # As, Cs) (w', c', As, Cs)"
proof -
  obtain n0 rs bs where "arena_inv E w c a n0 rs bs" using program_arenas_isolated(3) [OF inv, of a os] by auto
  from arena_destroy_ok [OF this] obtain w' c' where "bc_allocators_arena_destroy E w c a = Some (w', c')" by blast
  from program_step.on_destroy [OF this, where As = "[]" and As' = As] show ?thesis by auto
qed

lemma program_client_ends:
  assumes inv: "program_inv E w0 opts (w, c, As, x # Cs)"
  shows "\<exists>w' c'. (program_step E)\<^sup>*\<^sup>* (w, c, As, x # Cs) (w', c', As, Cs)"
proof (cases x)
  case (Object p n)
  obtain m' c' where "bc_allocators_pool_free (mc_mem w) c p = (m', c')" by fastforce
  from program_step.on_free [OF this, where Cs = "[]" and Cs' = Cs and E = E and As = As and n = n]
  have "program_step E (w, c, As, x # Cs) (w\<lparr>mc_mem := m'\<rparr>, c', As, Cs)" using Object by simp
  then show ?thesis by blast
next
  case (Slab s osz U)
  have "program_inv E w0 opts (w, c, As, [] @ x # Cs)" using inv by simp
  then obtain xs S ys where B: "[] = map fst xs" "clients_now (mc_mem w) c (xs @ (x, S) # ys)"
    by (rule program_inv_client)
  from clients_slab_destroy [OF B(2) [unfolded Slab]] obtain m' c'
    where "bc_allocators_slab_destroy (mc_mem w) c s = Some (m', c')" by blast
  from program_step.on_slab_destroy [OF this, where Cs = "[]" and Cs' = Cs and E = E and As = As and osz = osz and U = U]
  have "program_step E (w, c, As, x # Cs) (w\<lparr>mc_mem := m'\<rparr>, c', As, Cs)" using Slab by simp
  then show ?thesis by blast
next
  case (Array es A)
  obtain m' c' A' where d: "typed_array_destroy (mc_mem w) c A = (m', c', A')" by (metis prod_cases3)
  then have "ta_data A' = NULL" by (auto simp: typed_array_destroy_def split: prod.splits)
  from program_step.on_array_done [OF this, where Cs = "[]" and Cs' = Cs and es = es and E = E]
  have "program_step E (w\<lparr>mc_mem := m'\<rparr>, c', As, Array es A' # Cs) (w\<lparr>mc_mem := m'\<rparr>, c', As, Cs)" by simp
  moreover have "program_step E (w, c, As, x # Cs) (w\<lparr>mc_mem := m'\<rparr>, c', As, Array es A' # Cs)"
    using program_step.on_client [OF client_step.array_destroy [OF d], where Cs = "[]" and Cs' = Cs] Array by simp
  ultimately show ?thesis by (blast intro: rtranclp.intros)
qed

lemma program_winds_down:
  "program_inv E w0 opts (w, c, As, Cs) \<Longrightarrow> \<exists>w' c'. (program_step E)\<^sup>*\<^sup>* (w, c, As, Cs) (w', c', [], [])"
proof (induction Cs arbitrary: w c)
  case Nil
  then show ?case
  proof (induction As arbitrary: w c)
    case (Cons e As)
    obtain a os where e: "e = (a, os)" by fastforce
    obtain w1 c1 where s: "program_step E (w, c, e # As, []) (w1, c1, As, [])"
      using program_arena_ends Cons.prems unfolding e by blast
    from Cons.IH [OF program_step_keeps [OF s Cons.prems]] show ?case
      using s by (blast intro: converse_rtranclp_into_rtranclp)
  qed blast
next
  case (Cons x Cs)
  obtain w1 c1 where s: "(program_step E)\<^sup>*\<^sup>* (w, c, As, x # Cs) (w1, c1, As, Cs)"
    using program_client_ends [OF Cons.prems] by blast
  from Cons.IH [OF program_reachable [OF s Cons.prems]] show ?case using s by (blast intro: rtranclp_trans)
qed

end

end
