(* ===== verification/BC_Program_Types.thy ===== *)
theory BC_Program_Types
  imports BC_Program_Spec
begin

text \<open>
  Types at run time. The arrays of the context struct have the lengths they are declared with and the counters index them;
  the page-tag table gives every pointer that a program holds the type it was allocated with, a size class or a large block
  with its stored size, which is what \<^verbatim>\<open>free\<close> and \<^verbatim>\<open>reallocate\<close> go by.
\<close>

definition free_list_typed :: "free_list \<Rightarrow> bool" where
  "free_list_typed fl \<longleftrightarrow> length (fl_mag fl) = unat MAG_SIZE \<and> fl_mag_count fl \<le> MAG_SIZE"

definition context_typed :: "bc_context \<Rightarrow> bool" where
  "context_typed c \<longleftrightarrow>
     length (cx_pools c) = NUM_CLASSES \<and> (\<forall>fl \<in> set (cx_pools c) \<union> {cx_large_pool c}. free_list_typed fl) \<and>
     length (cx_arena_cache c) = unat ARENA_CACHE_SIZE \<and> cx_arena_cache_count c \<le> ARENA_CACHE_SIZE \<and>
     rg_bump (cx_region c) \<le> rg_total_size (cx_region c) \<and>
     unat (rg_total_size (cx_region c)) div unat (cx_page_size c) \<le> unat (rg_page_class_size (cx_region c))"

definition object_typed :: "mem \<Rightarrow> bc_context \<Rightarrow> u64 \<Rightarrow> nat \<Rightarrow> bool" where
  "object_typed m c p n \<longleftrightarrow> ptr_in_region c p \<and>
     (if unat (page_class_of m c p) < NUM_CLASSES
      then n = unat (bc_allocators_class_sizes ! unat (page_class_of m c p))
      else page_class_of m c p = PAGE_CLASS_LARGE \<and> n = unat (large_meta_user_size m (p - LARGE_META_SIZE)))"

fun client_typed :: "mem \<Rightarrow> bc_context \<Rightarrow> client \<Rightarrow> bool" where
  "client_typed m c (Object p n) = object_typed m c p n"
| "client_typed m c (Slab s osz U) = (\<exists>n. unat sizeof_slab \<le> n \<and> object_typed m c s n)"
| "client_typed m c (Array es A) =
     (ta_length A \<le> ta_capacity A \<and>
      (if ta_data A = NULL then ta_capacity A = 0
       else (\<exists>n. unat (ta_capacity A) * unat es \<le> n \<and> object_typed m c (ta_data A) n)))"

lemma object_typedI:
  assumes h: "pool_objects m c S" and pn: "(p, n) \<in> S"
  shows "object_typed m c p n"
proof -
  obtain L b where L: "pool_inv m c L" "b \<in> L" "p = user_ptr m c b" "n = usable m c b"
    using pool_objectsE [OF h pn] by metis
  note k = user_ptr_lookup [OF L(1,2), folded L(3)] and bo = live_block_facts(2) [OF L(1,2)]
  have "n = unat (fst (get_usable_size m c p))" by (rule pool_objects_usable [OF h pn, symmetric])
  then show ?thesis
    using k(1,2) bo
    by (auto simp: object_typed_def get_usable_size_def Let_def NUM_CLASSES_def block_ok_def block_class_def)
qed

lemma client_typedI:
  assumes h: "pool_objects m c (owned Bs)" and rep: "client_rep m x S" and mem: "(x, S) \<in> set Bs"
  shows "client_typed m c x"
proof -
  have "S \<subseteq> owned Bs" using mem by (force simp: owned_def)
  then have ty: "object_typed m c p n" if "(p, n) \<in> S" for p n using object_typedI [OF h] that by blast
  show ?thesis
  proof (cases x)
    case (Slab s osz U)
    then obtain ops ps N where "slab_sizes s osz ops ps N" "S = slab_own s ps N" using rep by auto
    then show ?thesis using ty [of s "N s"] slab_own_mem(1) [of s N ps] Slab by (auto simp: slab_sizes_def sizeof_slab_def)
  next
    case (Array es A)
    then show ?thesis using rep ty by (auto simp: word_le_nat_alt split: if_splits)
  qed (use rep ty in auto)
qed

lemma context_typedI:
  assumes inv: "pool_inv m c L" and W: "world E w c bs" and t: "tags_mapped c"
  shows "context_typed c"
proof -
  obtain F where core: "pool_core m c F L" using inv by (auto simp: pool_inv_def)
  have g: "pool_geometry c" and fl: "\<And>k. k < 20 \<Longrightarrow> magazine_rep m (pool_list c k) (F k)"
    using core by (auto simp: pool_core_def)
  have len: "length (cx_pools c) = 19" using g by (simp add: pool_geometry_def)
  have ft: "free_list_typed (pool_list c k)" if "k < 20" for k
    using fl [OF that] by (simp add: magazine_rep_def free_list_typed_def MAG_SIZE_def)
  have "free_list_typed (cx_pools c ! k)" if "k < 19" for k using ft [of k] that by (simp add: pool_list_def)
  moreover have "free_list_typed (cx_large_pool c)" using ft [of 19] by (simp add: pool_list_def)
  ultimately have "\<forall>fl \<in> set (cx_pools c) \<union> {cx_large_pool c}. free_list_typed fl" using len by (auto simp: in_set_conv_nth)
  then show ?thesis
    using len W t g
    by (simp add: context_typed_def NUM_CLASSES_def ARENA_CACHE_SIZE_def world_def tags_mapped_def pool_geometry_def word_le_nat_alt)
qed

lemma program_inv_typed:
  assumes inv: "program_inv E w0 opts (w, c, As, Cs)"
  shows "context_typed c" "x \<in> set Cs \<Longrightarrow> client_typed (mc_mem w) c x"
proof -
  obtain Bs where B: "Cs = map fst Bs" "clients_now (mc_mem w) c Bs" by (rule program_inv_clients [OF inv])
  have h: "pool_objects (mc_mem w) c (owned Bs)" using B(2) by (simp add: clients_hold_def)
  then obtain L where L: "pool_inv (mc_mem w) c L" by (auto simp: pool_objects_def)
  obtain Ds where D: "world E w c (all_blocks Ds @ mc_maps w0)" "tags_mapped c" by (rule program_invE [OF inv])
  show "context_typed c" by (rule context_typedI [OF L D])
  show "client_typed (mc_mem w) c x" if x: "x \<in> set Cs"
  proof -
    obtain S where S: "(x, S) \<in> set Bs" using x B(1) by auto
    then have "client_rep (mc_mem w) x S" using B(2) by (auto simp: clients_hold_def)
    then show ?thesis by (rule client_typedI [OF h _ S])
  qed
qed

end
