(* ===== verification/Spec2Isabelle.thy ===== *)
theory Spec2Isabelle
  imports BC_Pool_Props BC_Context_Props BC_Arena_Props BC_Slab_Props BC_Typed_Array_Props BC_Fuzz_Props BC_Program_Types
begin

text \<open>
  bc-allocators: the memory allocators of a C program, verified over byte-addressed memory. Paths below are relative to
  the repository.

  \<^bold>\<open>The program.\<close> A context (\<^verbatim>\<open>src/context/bc_allocators_context.c\<close>) is mapped from the operating system and holds a region,
  out of which the pool (\<^verbatim>\<open>src/pool/bc_allocators_pool.c\<close>) carves blocks of 19 size classes and large blocks of whole pages,
  with a page-tag table that gives the class of a block from its address. Arenas (\<^verbatim>\<open>src/arena/bc_allocators_arena.c\<close>) take
  mappings of their own, chained by headers at their start, and put released ones into a small cache in the context. Slabs
  (\<^verbatim>\<open>src/slab/bc_allocators_slab.c\<close>) and typed arrays (\<^verbatim>\<open>include/public/bc_allocators_typed_array.h\<close>) are clients of the
  pool. All reach the system through \<^verbatim>\<open>src/platform/bc_allocators_platform_linux.c\<close>.

  \<^bold>\<open>State.\<close> Memory is a total map from 64-bit addresses to bytes (\<^theory_text>\<open>BC_Memory\<close>): free-list links, large-block headers, arena
  and chunk headers, the slab struct and its page structs are stored in it, at the offsets the C structs have on LP64, so
  aliasing and overwriting are visible. A machine (\<^theory_text>\<open>BC_Platform\<close>) is the memory, the live mappings and the number of system
  calls made. The context struct (\<^theory_text>\<open>BC_Context_State\<close>) and the array struct are records, because no block contains them;
  they are passed and returned. \<^verbatim>\<open>size_t\<close> and pointers are 64-bit words, and every sum and product is the wrapping one of C;
  lemmas that a sum does not wrap are collected in \<open>no_wrap\<close>. Results are options (a null or \<^verbatim>\<open>false\<close> result is \<open>None\<close>).

  \<^bold>\<open>What the model leaves out of an access.\<close> Memory is total: a store to an address that is not mapped succeeds, where the
  process would fault, and a store into the context's own mapping does not change its record. So a theorem says what the process does
  only where the accesses of the call stay in memory that is mapped and is not the context. For the well-formed states of the theorems
  the invariants place every header, link and tag the code writes: in the region, the tag table or a mapping of an arena.
  Two calls leave these bounds: a pool request whose sum with the bump pointer wraps, and a slab whose page size wraps. The bound of
  \<open>2 ^ 63\<close> bytes excludes both; of the first, \<open>pool_allocate_guard_wraps\<close> follows the code to the point before the first such store
  and claims nothing beyond, of the second nothing is proved.

  \<^bold>\<open>Parameters.\<close> The bc-core package (checked arithmetic, leading zeros, copying and filling of memory) and the system calls
  (\<^verbatim>\<open>mmap\<close>, \<^verbatim>\<open>munmap\<close>, \<^verbatim>\<open>madvise\<close>, \<^verbatim>\<open>sysconf\<close>) and the C library's \<^verbatim>\<open>posix_memalign\<close> and \<^verbatim>\<open>free\<close>
  are not under src/. They are the fields of the record \<open>env\<close> (\<^theory_text>\<open>BC_Env\<close>); the locale \<open>bc_core\<close> states what bc-core documents, and its extension \<open>bc_os\<close> what the system promises: mappings are page-aligned,
  zeroed, apart from the live ones and below \<open>2 ^ 47\<close>; the page size is a power of two; any call may fail. \<open>std_env\<close> is a
  concrete environment, on which both locales are interpreted and every witness runs.

  \<^bold>\<open>Theories.\<close>
  \<^item> \<^theory_text>\<open>BC_Prelude\<close>, \<^theory_text>\<open>BC_Memory\<close>, \<^theory_text>\<open>BC_Env\<close>, \<^theory_text>\<open>BC_Platform\<close>: words, bytes and fields of memory, linked chains, the parameters,
    the platform functions.
  \<^item> \<^theory_text>\<open>BC_Free_List\<close>: the intrusive list of \<^verbatim>\<open>bc_allocators_free_list_internal.h\<close> and the magazine-and-list of the pool, both
    interpretations of the locale \<open>block_bag\<close> (a multiset of blocks that survives writes elsewhere), the first also of
    \<open>lifo_bag\<close>.
  \<^item> \<^theory_text>\<open>BC_Pool\<close> is the pool's code, \<^theory_text>\<open>BC_Size_Class\<close> its size classes, \<^theory_text>\<open>BC_Pool_Inv\<close> to \<^theory_text>\<open>BC_Pool_More\<close> its invariant \<open>pool_inv\<close> (the
    carved blocks are free in their class or live, apart, tagged) and what each operation does to it, \<^theory_text>\<open>BC_Pool_Props\<close> its
    properties. \<open>live_kept\<close> says that the live blocks keep every byte and that nothing outside the region and the tag table
    is written.
  \<^item> \<^theory_text>\<open>BC_Context\<close> is the code of the context and of the aligned and huge-page allocators of its header, \<^theory_text>\<open>BC_Context_Spec\<close>
    its lemmas, \<^theory_text>\<open>BC_Demo\<close> a concrete run, \<^theory_text>\<open>BC_Context_Props\<close> its properties.
  \<^item> \<^theory_text>\<open>BC_Arena\<close> is the arena's code, \<^theory_text>\<open>BC_Blocks\<close> the ownership of mappings, \<^theory_text>\<open>BC_Arena_Inv\<close> to \<^theory_text>\<open>BC_Arena_More\<close> the invariant
    \<open>arena_inv\<close> and the operations, \<^theory_text>\<open>BC_Arena_Trace\<close> an arena in use as a step relation, \<^theory_text>\<open>BC_Arena_Demo\<close> and \<^theory_text>\<open>BC_Arena_Props\<close>
    a run and the properties.
  \<^item> \<^theory_text>\<open>BC_Object_Store\<close> states the pool as its clients see it, the locale \<open>block_store\<close> with the pool as its instance.
    \<^theory_text>\<open>BC_Pool_Since\<close> adds what a client keeps of everything else since an earlier moment, given by a memory and a context;
    \<^theory_text>\<open>BC_Pool_Trace\<close> is a client as a sequence of calls, with the table of what it holds, computed from their results.
    \<^theory_text>\<open>BC_Slab\<close> and \<^theory_text>\<open>BC_Typed_Array\<close> are the code of the two clients, \<^theory_text>\<open>BC_Slab_Inv\<close> to \<^theory_text>\<open>BC_Slab_Life\<close> the slab's invariant and
    operations, \<^theory_text>\<open>BC_Slab_Spec\<close> its refinement of a finite map from objects to contents and a client that
    allocates several objects, \<^theory_text>\<open>BC_Typed_Array_Spec\<close> the array as a list, \<^theory_text>\<open>BC_Slab_Props\<close> and \<^theory_text>\<open>BC_Typed_Array_Props\<close> the properties.
  \<^item> \<^theory_text>\<open>BC_Clients\<close>: the contract \<open>pool_clients\<close> of what shares one pool; \<^theory_text>\<open>BC_Client\<close>: objects, slabs and typed arrays as clients
    that meet it, each with the calls a program can make on it.
  \<^item> \<^theory_text>\<open>BC_System\<close>: pool and arenas of one context leave each other's state alone. \<^theory_text>\<open>BC_Program\<close>: programs that use any
    number of arenas, objects, slabs and arrays in any order, as a step relation, and their invariant; \<^theory_text>\<open>BC_Program_Spec\<close>: it
    holds in every reachable state, so all memory handed out is isolated and stays so under the steps of others, the end of a program
    gives back what it took and reports exactly the leaks, and every program can be wound down; \<^theory_text>\<open>BC_Program_Types\<close>: what
    the tag table says of the pointers a program holds.
  \<^item> \<^theory_text>\<open>BC_Fuzz\<close>, \<^theory_text>\<open>BC_Fuzz_Arena\<close>, \<^theory_text>\<open>BC_Fuzz_Props\<close>: the two programs of \<^verbatim>\<open>fuzzing/\<close>, which read a byte string as a sequence
    of calls, with \<^verbatim>\<open>rand\<close> and \<^verbatim>\<open>srand\<close> as parameters of their \<^verbatim>\<open>main\<close>; for any input they end with the mappings they started with.

  \<^bold>\<open>Bounds and loops.\<close> The pool theorems take requests of at most \<open>2 ^ 63\<close> bytes; above, the guard of \<^verbatim>\<open>bump_raw\<close> can wrap,
  which \<open>pool_allocate_guard_wraps\<close> proves. The clients keep their products within the same bound: a slab its page, an array its
  buffer, the steps of a program both. No other theorem bounds a size beyond what its statement says. The loops over
  chunks, pages and slots and the doubling loop of the bulk append are partial functions without fuel, so that their
  result being \<open>Some\<close> is their termination, proved for every well-formed state, and refuted for the doubling loop above
  \<open>2 ^ 63\<close> elements.

  \<^bold>\<open>Not modelled.\<close> The benchmarks and the unit tests, which hold no logic of the library; compiler
  attributes; reads of uninitialised memory (a fresh block holds arbitrary bytes); concurrency (the
  library has none: a context belongs to one thread). The leak callback is user code: its calls are recorded as messages.
\<close>

section \<open>The allocators together\<close>

text \<open>C5: Isolation. A program creates a context and then uses it in any order: creating and destroying arenas, allocating from
  them, resetting them, releasing their pages; allocating, reallocating and freeing objects of the pool; creating,
  using and destroying slabs and typed arrays; writing into whatever it was handed out. In every state it can reach all these are
  well formed, no two pieces of memory it was handed out share a byte, whichever arena, slab, array or pool object they
  belong to, none of the pool's is null, and the memory of the mappings the process had before is unchanged.\<close>

theorem program_objects_isolated:
  assumes "bc_os E" "maps_ok E (mc_maps w0)" "bc_allocators_context_create E w0 config = (Some c0, w1)"
    and "(program_step E)\<^sup>*\<^sup>* (w1, c0, [], []) (w, c, As, Cs)"
  shows "(\<exists>Bs. Cs = map fst Bs \<and> clients_now (mc_mem w) c Bs) \<and>
    (\<forall>(a, os) \<in> set As. \<exists>n0 rs bs. arena_inv E w c a n0 rs bs \<and> arena_objects (mc_mem w) a rs os) \<and>
    maps_apart (handed_out As) \<and>
    (\<forall>(p, n) \<in> shared Cs. p \<noteq> NULL \<and> area p n \<inter> mapped_bytes (handed_out As) = {}) \<and>
    (\<forall>i < length Cs. \<forall>j < length Cs. \<forall>(p, n) \<in> hands_out (Cs ! i). \<forall>(q, k) \<in> hands_out (Cs ! j).
       (i, p, n) \<noteq> (j, q, k) \<longrightarrow> area p n \<inter> area q k = {}) \<and>
    agree (mc_mem w0) (mc_mem w) (mapped_bytes (mc_maps w0))"
proof -
  note inv = bc_os.program_from_create [OF assms(1,3,2,4)]
  note ar = program_arenas_isolated [OF inv]
  have "\<forall>(a, os) \<in> set As. \<exists>n0 rs bs. arena_inv E w c a n0 rs bs \<and> arena_objects (mc_mem w) a rs os"
    using ar(3) by blast
  moreover have "\<exists>Bs. Cs = map fst Bs \<and> clients_now (mc_mem w) c Bs"
    "agree (mc_mem w0) (mc_mem w) (mapped_bytes (mc_maps w0))"
    using inv by (simp_all add: program_inv_def)
  moreover have "\<forall>(p, n) \<in> shared Cs. p \<noteq> NULL \<and> area p n \<inter> mapped_bytes (handed_out As) = {}"
    using bc_os.program_clients_isolated(1) [OF assms(1) inv] by blast
  moreover have "\<forall>i < length Cs. \<forall>j < length Cs. \<forall>(p, n) \<in> hands_out (Cs ! i). \<forall>(q, k) \<in> hands_out (Cs ! j).
      (i, p, n) \<noteq> (j, q, k) \<longrightarrow> area p n \<inter> area q k = {}"
    using bc_os.program_clients_isolated(2) [OF assms(1) inv] by blast
  ultimately show ?thesis using ar(1) by blast
qed

text \<open>The demo program: a growable arena, 4000 bytes from it (which grows it), 100 bytes from the pool, a slab and one of its
  objects, an empty array.\<close>

abbreviation demo_clients :: "u64 \<Rightarrow> u64 \<Rightarrow> u64 \<Rightarrow> nat \<Rightarrow> client list" where
  "demo_clients s b q k \<equiv> [Array 4 zero_array, Slab s 24 {b}, Object q k]"

lemma demo_program:
  obtains w c p s b q k where
    "(program_step std_env)\<^sup>*\<^sup>* (demo_machine, demo_ctx, [], []) (w, c, [(139264, [(p, 4000)])], demo_clients s b q k)"
proof -
  obtain r w1 c1 where run: "bc_allocators_arena_allocate std_env ar_machine ar_ctx 139264 4000 8 = (r, w1, c1)"
    by (metis prod_cases3)
  have "fst ar1 = r" by (simp add: ar1_def run)
  then obtain p where p: "r = Some p" using ar1_some by blast
  have st: "arena_step std_env 139264 (ar_machine, ar_ctx, []) (w1, c1, [(p, 4000)])"
    by (rule arena_step.step_allocate) (use run p in simp)
  define As where "As = [(139264 :: u64, [(p, 4000 :: u64)])]"
  have s1: "program_step std_env (demo_machine, demo_ctx, [], []) (ar_machine, ar_ctx, [(139264, [])], [])"
    by (rule program_step.on_create_growable [OF ar_create(1)])
  have s2: "program_step std_env (ar_machine, ar_ctx, [(139264, [])], []) (w1, c1, As, [])"
    using program_step.on_arena [OF st, of "[]" "[]" "[]"] by (simp add: As_def)
  have v: "pool_view ar_ctx = pool_view demo_ctx" by (rule std.make_first_ok(3) [OF demo_world ar_first])
  obtain rs' where "arena_kept std_env 139264 4096 [] ar_machine ar_ctx [] w1 c1 rs'"
    using std.arena_allocate_ok [OF ar_inv run] by blast
  then have "pool_view c1 = pool_view demo_ctx" using v by (simp add: arena_kept_def)
  then have c1: "cx_page_size c1 = 4096" "pool_total c1 = 65536" "pool_bump c1 \<le> 0"
    by (auto simp: pool_view_def demo_sel)
  have ok: "maps_ok std_env (mc_maps boot)" by (simp add: boot_def maps_ok_def)
  note from_create = std.program_from_create [OF demo_create ok]
  have r1: "(program_step std_env)\<^sup>*\<^sup>* (demo_machine, demo_ctx, [], []) (w1, c1, As, [])"
    by (rule s1 s2 converse_rtranclp_into_rtranclp rtranclp.rtrancl_refl)+
  have h: "pool_objects (mc_mem w1) c1 {}" using from_create [OF r1] by (auto simp: program_inv_def clients_hold_def)
  obtain r2 m2 c2 where al: "bc_allocators_pool_allocate std_env (mc_mem w1) c1 100 = (r2, m2, c2)" by (metis prod_cases3)
  have cls: "first_fit_class (100 :: u64) = 3" by (rule first_fit_class_eqI) simp_all
  note g = small_allocation [OF h c1 _ cls _ _ _ _ al]
  have c2: "cx_page_size c2 = 4096" "pool_total c2 = 65536" "pool_bump c2 \<le> 4096" using g by simp_all
  obtain q where q: "r2 = Some q" using g(1) by auto
  define k where "k = unat (fst (get_usable_size m2 c2 q))"
  define w2 where "w2 = w1\<lparr>mc_mem := m2\<rparr>"
  have s3: "program_step std_env (w1, c1, As, []) (w2, c2, As, [Object q k])"
    unfolding k_def w2_def by (rule program_step.on_allocate) (use al q in simp_all)
  note r2 = rtranclp.rtrancl_into_rtrancl [OF r1 s3]
  obtain Bs where "clients_now (mc_mem w2) c2 Bs" by (rule program_inv_clients [OF from_create [OF r2]])
  then have "pool_since (m2, c2) m2 c2 (owned Bs)" by (simp add: clients_hold_def w2_def)
  then obtain s m3 c3 p1 q1 N where sl: "bc_allocators_slab_create std_env m2 c2 24 8 = Some (Some s, m3, c3)"
    "slab_inv (m2, c2) m3 c3 s 24 8 [(p1, q1)] (rev (slots q1 24 8)) N (owned Bs)"
    by (rule slab_create_succeeds [OF _ c2]) simp_all
  define w3 where "w3 = w2\<lparr>mc_mem := m3\<rparr>"
  have s4: "program_step std_env (w2, c2, As, [Object q k]) (w3, c3, As, [Slab s 24 {}, Object q k])"
    unfolding w3_def by (rule program_step.on_slab_create [of 8 24]) (use sl(1) in \<open>simp_all add: w2_def\<close>)
  have "rev (slots q1 24 8) \<noteq> []" by (simp add: slots_def)
  then obtain b m4 where sa: "bc_allocators_slab_allocate std_env m3 c3 s = Some (Some b, m4, c3)"
    by (rule slab_allocate_succeeds [OF sl(2)])
  have "client_step std_env (shared ([] @ [Object q k])) (mc_mem w3, c3, Slab s 24 {}) (m4, c3, Slab s 24 {b})"
    by (rule client_step.slab_allocate) (use sa in \<open>simp add: w3_def\<close>)
  from program_step.on_client [OF this, of As]
  have s5: "program_step std_env (w3, c3, As, [Slab s 24 {}, Object q k]) (w3\<lparr>mc_mem := m4\<rparr>, c3, As, [Slab s 24 {b}, Object q k])"
    by simp
  have s6: "program_step std_env (w3\<lparr>mc_mem := m4\<rparr>, c3, As, [Slab s 24 {b}, Object q k])
      (w3\<lparr>mc_mem := m4\<rparr>, c3, As, demo_clients s b q k)" by (rule program_step.on_array) simp
  note r4 = rtranclp.rtrancl_into_rtrancl [OF r2 s4]
  note r5 = rtranclp.rtrancl_into_rtrancl [OF r4 s5]
  show thesis by (rule that [OF rtranclp.rtrancl_into_rtrancl [OF r5 s6, unfolded As_def]])
qed

theorem program_objects_isolated_witness:
  "\<exists>w c p s b q k.
     (program_step std_env)\<^sup>*\<^sup>* (demo_machine, demo_ctx, [], []) (w, c, [(139264, [(p, 4000)])], demo_clients s b q k) \<and>
     area b 24 \<inter> area q k = {} \<and> area b 24 \<inter> area p 4000 = {} \<and> q \<noteq> NULL"
proof -
  obtain w c p s b q k where
    r: "(program_step std_env)\<^sup>*\<^sup>* (demo_machine, demo_ctx, [], []) (w, c, [(139264, [(p, 4000)])], demo_clients s b q k)"
    by (rule demo_program)
  have "maps_ok std_env (mc_maps boot)" by (simp add: boot_def maps_ok_def)
  note iso = program_objects_isolated [OF std.bc_os_axioms this demo_create r]
  have "\<forall>i < length (demo_clients s b q k). \<forall>j < length (demo_clients s b q k).
      \<forall>(x, n) \<in> hands_out (demo_clients s b q k ! i). \<forall>(y, l) \<in> hands_out (demo_clients s b q k ! j).
      (i, x, n) \<noteq> (j, y, l) \<longrightarrow> area x n \<inter> area y l = {}" using iso by (elim conjE)
  from this [rule_format, of 1 2] have "area b 24 \<inter> area q k = {}" by (simp del: in_area)
  moreover have "\<forall>(x, n) \<in> shared (demo_clients s b q k). x \<noteq> NULL \<and> area x n \<inter> mapped_bytes (handed_out [(139264, [(p, 4000)])]) = {}"
    using iso by (elim conjE)
  then have "q \<noteq> NULL" "area b 24 \<inter> area p 4000 = {}" by (auto simp del: in_area)
  ultimately show ?thesis using r by blast
qed

text \<open>C6: Effects. A step of one client of the pool, be it an object, a slab or an array, changes no byte of the memory handed
  out by any other client or by any arena; a step of one arena, a reset included, changes no byte of the memory handed out by
  any other arena or by any client.\<close>

theorem program_step_frame:
  assumes "bc_os E" "maps_ok E (mc_maps w0)" "bc_allocators_context_create E w0 config = (Some c0, w1)"
    and "(program_step E)\<^sup>*\<^sup>* (w1, c0, [], []) (w, c, As, Cs)"
  shows "(Cs = Cs1 @ x # Cs2 \<longrightarrow> client_step E (shared (Cs1 @ Cs2)) (mc_mem w, c, x) (m', c', x') \<longrightarrow>
      agree (mc_mem w) m' (mapped_bytes (handed_out As)) \<and>
      (\<forall>(p, n) \<in> shared (Cs1 @ Cs2). agree (mc_mem w) m' (area p n))) \<and>
    (As = As1 @ (a, os) # As2 \<longrightarrow> arena_step E a (w, c, os) (w', d', os') \<longrightarrow>
      agree (mc_mem w) (mc_mem w') (mapped_bytes (handed_out (As1 @ As2))) \<and>
      (\<forall>(p, n) \<in> shared Cs. agree (mc_mem w) (mc_mem w') (area p n)))"
proof (intro conjI impI)
  note inv = bc_os.program_from_create [OF assms(1,3,2,4)]
  assume "Cs = Cs1 @ x # Cs2" and st: "client_step E (shared (Cs1 @ Cs2)) (mc_mem w, c, x) (m', c', x')"
  then have i: "program_inv E w0 (snd (config_values config)) (w, c, As, Cs1 @ x # Cs2)" using inv by simp
  note f = bc_os.program_step_client [OF assms(1) st i]
  show "agree (mc_mem w) m' (mapped_bytes (handed_out As))" by (rule f(2))
  show "\<forall>(p, n) \<in> shared (Cs1 @ Cs2). agree (mc_mem w) m' (area p n)" using f(3) by blast
next
  note inv = bc_os.program_from_create [OF assms(1,3,2,4)]
  assume "As = As1 @ (a, os) # As2" and st: "arena_step E a (w, c, os) (w', d', os')"
  then have i: "program_inv E w0 (snd (config_values config)) (w, c, As1 @ (a, os) # As2, Cs)" using inv by simp
  note f = bc_os.program_step_arena [OF assms(1) st i]
  show "agree (mc_mem w) (mc_mem w') (mapped_bytes (handed_out (As1 @ As2)))" by (rule f(2))
  show "\<forall>(p, n) \<in> shared Cs. agree (mc_mem w) (mc_mem w') (area p n)" using f(3) by blast
qed

theorem program_step_frame_witness:
  "\<exists>w c p s b q k.
     (program_step std_env)\<^sup>*\<^sup>* (demo_machine, demo_ctx, [], []) (w, c, [(139264, [(p, 4000)])], demo_clients s b q k) \<and>
     agree (mc_mem w) (bc_allocators_slab_free (mc_mem w) s b) (area q k \<union> area p 4000)"
proof -
  obtain w c p s b q k where
    r: "(program_step std_env)\<^sup>*\<^sup>* (demo_machine, demo_ctx, [], []) (w, c, [(139264, [(p, 4000)])], demo_clients s b q k)"
    by (rule demo_program)
  have ok: "maps_ok std_env (mc_maps boot)" by (simp add: boot_def maps_ok_def)
  have st: "client_step std_env (shared ([Array 4 zero_array] @ [Object q k])) (mc_mem w, c, Slab s 24 {b})
      (bc_allocators_slab_free (mc_mem w) s b, c, Slab s 24 ({b} - {b}))" by (rule client_step.slab_free) simp
  have e: "demo_clients s b q k = [Array 4 zero_array] @ Slab s 24 {b} # [Object q k]" by simp
  have "agree (mc_mem w) (bc_allocators_slab_free (mc_mem w) s b) (mapped_bytes (handed_out [(139264, [(p, 4000)])])) \<and>
      (\<forall>(p, n) \<in> shared ([Array 4 zero_array] @ [Object q k]). agree (mc_mem w) (bc_allocators_slab_free (mc_mem w) s b) (area p n))"
    using program_step_frame [OF std.bc_os_axioms ok demo_create r, THEN conjunct1, rule_format, OF e st] by blast
  then have "agree (mc_mem w) (bc_allocators_slab_free (mc_mem w) s b) (area q k \<union> area p 4000)"
    by (auto simp: agree_def simp del: in_area)
  then show ?thesis using r by blast
qed

text \<open>C7: Types at run time. In every state a program can reach, the magazines, the class array and the arena cache of the
  context have their declared lengths, their counters stay inside them, every page of the region has its byte in the tag
  table, and the table and the block headers give each pointer that the program may pass to \<^verbatim>\<open>free\<close> or \<^verbatim>\<open>reallocate\<close>, the object
  itself, a slab's struct or an array's buffer, the size it has: the usable size of an object, at least the struct of a slab,
  at least the capacity of an array.\<close>

theorem program_state_typed:
  assumes "bc_os E" "maps_ok E (mc_maps w0)" "bc_allocators_context_create E w0 config = (Some c0, w1)"
    and "(program_step E)\<^sup>*\<^sup>* (w1, c0, [], []) (w, c, As, Cs)"
  shows "context_typed c \<and> list_all (client_typed (mc_mem w) c) Cs"
  using program_inv_typed [OF bc_os.program_from_create [OF assms(1,3,2,4)]] by (simp add: list_all_iff)

theorem program_state_typed_witness:
  "\<exists>w c p s b q k.
     (program_step std_env)\<^sup>*\<^sup>* (demo_machine, demo_ctx, [], []) (w, c, [(139264, [(p, 4000)])], demo_clients s b q k) \<and>
     object_typed (mc_mem w) c q k \<and> (\<exists>n \<ge> 56. object_typed (mc_mem w) c s n)"
proof -
  obtain w c p s b q k where
    r: "(program_step std_env)\<^sup>*\<^sup>* (demo_machine, demo_ctx, [], []) (w, c, [(139264, [(p, 4000)])], demo_clients s b q k)"
    by (rule demo_program)
  have "maps_ok std_env (mc_maps boot)" by (simp add: boot_def maps_ok_def)
  from program_state_typed [OF std.bc_os_axioms this demo_create r]
  have "object_typed (mc_mem w) c q k" "\<exists>n \<ge> 56. object_typed (mc_mem w) c s n" by (auto simp: sizeof_slab_def)
  then show ?thesis using r by blast
qed

text \<open>C8: The end of a program. When it destroys its context, in whatever state, the configured callback gets the pool message
  exactly when an object or a slab is still live or an array still has its buffer, and the arena message exactly when an
  arena is still in use, in this order, and only with tracking on; when no arena is in use, the process is left with the mappings it
  had before the context was created, and their bytes are as they were.\<close>

theorem program_end_exact:
  assumes "bc_os E" "maps_ok E (mc_maps w0)" "bc_allocators_context_create E w0 config = (Some c0, w1)"
    and "(program_step E)\<^sup>*\<^sup>* (w1, c0, [], []) (w, c, As, Cs)" "snd (config_values config) = (tracking, callback, argument)"
  shows "mc_leaks (bc_allocators_context_destroy E w c) = mc_leaks w @
      (if tracking \<and> callback \<noteq> NULL
       then (if list_ex holds_memory Cs then [(callback, ''bc-allocators: pool leak detected'', argument)] else []) @
            (if As \<noteq> [] then [(callback, ''bc-allocators: arena leak detected'', argument)] else [])
       else []) \<and>
    (As = [] \<longrightarrow> mset (mc_maps (bc_allocators_context_destroy E w c)) = mset (mc_maps w0)) \<and>
    agree (mc_mem w0) (mc_mem (bc_allocators_context_destroy E w c)) (mapped_bytes (mc_maps w0))"
  using bc_os.program_inv_end [OF assms(1) bc_os.program_from_create [OF assms(1,3,2,4), unfolded assms(5)]] by blast

theorem program_end_exact_witness:
  "\<exists>w c p s b q k.
     (program_step std_env)\<^sup>*\<^sup>* (demo_machine, demo_ctx, [], []) (w, c, [(139264, [(p, 4000)])], demo_clients s b q k) \<and>
     mc_leaks (bc_allocators_context_destroy std_env w c) = mc_leaks w @
       [(7, ''bc-allocators: pool leak detected'', 8), (7, ''bc-allocators: arena leak detected'', 8)] \<and>
     mc_maps (bc_allocators_context_destroy std_env demo_machine demo_ctx) = []"
proof -
  obtain w c p s b q k where
    r: "(program_step std_env)\<^sup>*\<^sup>* (demo_machine, demo_ctx, [], []) (w, c, [(139264, [(p, 4000)])], demo_clients s b q k)"
    by (rule demo_program)
  have ok: "maps_ok std_env (mc_maps boot)" by (simp add: boot_def maps_ok_def)
  have cfg: "snd (config_values (Some demo_config)) = (True, 7, 8)" by (simp add: config_values_def demo_config_def)
  note a = program_end_exact [OF std.bc_os_axioms ok demo_create r cfg]
  note b = program_end_exact [OF std.bc_os_axioms ok demo_create rtranclp.rtrancl_refl cfg]
  show ?thesis using a b r by (simp add: boot_def) blast
qed

text \<open>C9: Winding down. From every state a program can reach, it can give everything back: there is a sequence of
  destroy and free calls, none of which gets stuck, to a state without arenas and clients of the pool; and in such a state
  destroying the context reports no leak and leaves the process with the mappings it had before.\<close>

theorem program_can_wind_down:
  assumes "bc_os E" "maps_ok E (mc_maps w0)" "bc_allocators_context_create E w0 config = (Some c0, w1)"
    and "(program_step E)\<^sup>*\<^sup>* (w1, c0, [], []) (w, c, As, Cs)"
  shows "\<exists>w' c'. (program_step E)\<^sup>*\<^sup>* (w, c, As, Cs) (w', c', [], []) \<and>
    mc_leaks (bc_allocators_context_destroy E w' c') = mc_leaks w' \<and>
    mset (mc_maps (bc_allocators_context_destroy E w' c')) = mset (mc_maps w0)"
proof -
  obtain tr cb arg where o: "snd (config_values config) = (tr, cb, arg)" by (metis prod_cases3)
  obtain w' c' where d: "(program_step E)\<^sup>*\<^sup>* (w, c, As, Cs) (w', c', [], [])"
    using bc_os.program_winds_down [OF assms(1) bc_os.program_from_create [OF assms(1,3,2,4)]] by blast
  note r = rtranclp_trans [OF assms(4) d]
  note e = bc_os.program_inv_end [OF assms(1) bc_os.program_from_create [OF assms(1,3,2) r, unfolded o]]
  show ?thesis using d e(1) e(2) by (intro exI [of _ w'] exI [of _ c']) simp
qed

theorem program_can_wind_down_witness:
  "\<exists>w c p s b q k w' c'.
     (program_step std_env)\<^sup>*\<^sup>* (demo_machine, demo_ctx, [], []) (w, c, [(139264, [(p, 4000)])], demo_clients s b q k) \<and>
     (program_step std_env)\<^sup>*\<^sup>* (w, c, [(139264, [(p, 4000)])], demo_clients s b q k) (w', c', [], []) \<and>
     mc_maps (bc_allocators_context_destroy std_env w' c') = []"
proof -
  obtain w c p s b q k where
    r: "(program_step std_env)\<^sup>*\<^sup>* (demo_machine, demo_ctx, [], []) (w, c, [(139264, [(p, 4000)])], demo_clients s b q k)"
    by (rule demo_program)
  have "maps_ok std_env (mc_maps boot)" by (simp add: boot_def maps_ok_def)
  from program_can_wind_down [OF std.bc_os_axioms this demo_create r] obtain w' c' where
    "(program_step std_env)\<^sup>*\<^sup>* (w, c, [(139264, [(p, 4000)])], demo_clients s b q k) (w', c', [], [])"
    "mset (mc_maps (bc_allocators_context_destroy std_env w' c')) = mset (mc_maps boot)" by blast
  moreover from this(2) have "mc_maps (bc_allocators_context_destroy std_env w' c') = []" by (simp add: boot_def)
  ultimately show ?thesis using r by blast
qed

end
